(* ===== verification/Rust_Prelude.thy ===== *)
theory Rust_Prelude
  imports Main "HOL-Library.Word" "HOL-Library.List_Lexorder" "HOL-Library.Product_Lexorder"
    "HOL-Library.Char_ord" "HOL-Library.Monad_Syntax"
begin

text \<open>
  Shared vocabulary of the development.

  \<^item> Byte strings (\<^verbatim>\<open>bytes::Bytes\<close>, \<^verbatim>\<open>Vec<u8>\<close>) are lists of 8-bit words.  The order on
    them is the lexicographic order of \<^verbatim>\<open>HOL-Library.List_Lexorder\<close>, which is the memcmp order that
    \<^verbatim>\<open>BTreeMap<Bytes, _>\<close> uses.
  \<^item> Signed machine integers are \<^typ>\<open>int\<close> with an explicit range, unsigned ones are \<^typ>\<open>nat\<close> with
    the wrap-around written out.  \<^verbatim>\<open>saturating_add\<close>/\<^verbatim>\<open>saturating_sub\<close> saturate as in Rust.  A plain
    \<^verbatim>\<open>+\<close> or \<^verbatim>\<open>-\<close> whose overflow can be reached from the API goes through \<open>checked_i64\<close>, whose
    \<^term>\<open>None\<close> is the overflow panic.
  \<^item> Big-endian codecs (\<^verbatim>\<open>to_be_bytes\<close>, \<^verbatim>\<open>from_be_bytes\<close>) for 2, 4 and 8 byte integers with their
    round trips, and the fact the store keys rest on: equal-width big-endian order is numeric order.
\<close>

named_theorems codec_simps \<open>round trips of the byte codecs\<close>
named_theorems len_simps \<open>lengths of encoded values\<close>

section \<open>Machine integers\<close>

abbreviation i64_max :: int where
  "i64_max \<equiv> 9223372036854775807"

abbreviation i64_min :: int where
  "i64_min \<equiv> - 9223372036854775808"

abbreviation u32_max :: nat where
  "u32_max \<equiv> 4294967295"

definition in_i64 :: "int \<Rightarrow> bool" where
  "in_i64 x \<longleftrightarrow> i64_min \<le> x \<and> x \<le> i64_max"

definition checked_i64 :: "int \<Rightarrow> int option" where
  "checked_i64 x = (if in_i64 x then Some x else None)"

definition clamp_i64 :: "int \<Rightarrow> int" where
  "clamp_i64 x = (if x < i64_min then i64_min else if i64_max < x then i64_max else x)"

definition sat_add :: "int \<Rightarrow> int \<Rightarrow> int" where
  "sat_add a b = clamp_i64 (a + b)"

definition sat_sub :: "int \<Rightarrow> int \<Rightarrow> int" where
  "sat_sub a b = clamp_i64 (a - b)"

section \<open>Byte strings and big-endian codecs\<close>

type_synonym byte = "8 word"
type_synonym bytes = "byte list"

fun to_be :: "nat \<Rightarrow> nat \<Rightarrow> bytes" where
  "to_be 0 x = []"
| "to_be (Suc n) x = to_be n (x div 256) @ [of_nat x]"

definition of_be :: "bytes \<Rightarrow> nat" where
  "of_be bs = foldl (\<lambda>a b. a * 256 + unat b) 0 bs"

definition i64_to_be :: "int \<Rightarrow> bytes" where
  "i64_to_be x = to_be 8 (nat (x mod 18446744073709551616))"

definition i64_of_be :: "bytes \<Rightarrow> int" where
  "i64_of_be bs = (let n = int (of_be bs) in if n < 9223372036854775808 then n else n - 18446744073709551616)"

definition u32_to_be :: "nat \<Rightarrow> bytes" where
  "u32_to_be x = to_be 4 x"

definition u32_of_be :: "bytes \<Rightarrow> nat" where
  "u32_of_be bs = of_be bs"

definition i32_to_be :: "int \<Rightarrow> bytes" where
  "i32_to_be x = to_be 4 (nat (x mod 4294967296))"

definition i32_of_be :: "bytes \<Rightarrow> int" where
  "i32_of_be bs = (let n = int (of_be bs) in if n < 2147483648 then n else n - 4294967296)"

definition i16_of_be :: "bytes \<Rightarrow> int" where
  "i16_of_be bs = (let n = int (of_be bs) in if n < 32768 then n else n - 65536)"

section \<open>Strings\<close>

text \<open>A Rust \<^verbatim>\<open>String\<close> is the list of its UTF-8 bytes read as characters, so that string literals
  can be written as they are in the source; \<^verbatim>\<open>String::from_utf8\<close> is \<open>utf8_decode\<close>, which accepts exactly
  the well-formed sequences of the Unicode standard (table 3-7).\<close>

fun utf8_valid :: "bytes \<Rightarrow> bool" where
  "utf8_valid [] = True"
| "utf8_valid (a # bs) =
    (if a < 0x80 then utf8_valid bs
     else if 0xC2 \<le> a \<and> a \<le> 0xDF then
       (case bs of b # bs' \<Rightarrow> 0x80 \<le> b \<and> b \<le> 0xBF \<and> utf8_valid bs' | _ \<Rightarrow> False)
     else if 0xE0 \<le> a \<and> a \<le> 0xEF then
       (case bs of b # c # bs' \<Rightarrow>
          (if a = 0xE0 then 0xA0 else 0x80) \<le> b \<and> b \<le> (if a = 0xED then 0x9F else 0xBF) \<and>
          0x80 \<le> c \<and> c \<le> 0xBF \<and> utf8_valid bs'
        | _ \<Rightarrow> False)
     else if 0xF0 \<le> a \<and> a \<le> 0xF4 then
       (case bs of b # c # d # bs' \<Rightarrow>
          (if a = 0xF0 then 0x90 else 0x80) \<le> b \<and> b \<le> (if a = 0xF4 then 0x8F else 0xBF) \<and>
          0x80 \<le> c \<and> c \<le> 0xBF \<and> 0x80 \<le> d \<and> d \<le> 0xBF \<and> utf8_valid bs'
        | _ \<Rightarrow> False)
     else False)"

definition str_bytes :: "string \<Rightarrow> bytes" where
  "str_bytes s = map (\<lambda>c. of_nat (of_char c)) s"

definition utf8_decode :: "bytes \<Rightarrow> string option" where
  "utf8_decode bs = (if utf8_valid bs then Some (map (\<lambda>b. char_of (unat b)) bs) else None)"

text \<open>Decimal \<^verbatim>\<open>Display\<close> of the integer types.\<close>

fun show_nat :: "nat \<Rightarrow> string" where
  "show_nat n = (if n < 10 then [char_of (48 + n)] else show_nat (n div 10) @ [char_of (48 + n mod 10)])"

definition show_int :: "int \<Rightarrow> string" where
  "show_int i = (if i < 0 then CHR ''-'' # show_nat (nat (- i)) else show_nat (nat i))"

declare show_nat.simps [simp del]

section \<open>Lemmas: integers\<close>

lemma checked_i64_Some [simp]: "checked_i64 x = Some y \<longleftrightarrow> in_i64 x \<and> y = x"
  by (auto simp: checked_i64_def)

lemma checked_i64_None [simp]: "checked_i64 x = None \<longleftrightarrow> \<not> in_i64 x"
  by (simp add: checked_i64_def)

lemma in_i64_clamp [simp]: "in_i64 (clamp_i64 x)"
  by (simp add: clamp_i64_def in_i64_def)

lemma in_i64_sat_add [simp]: "in_i64 (sat_add a b)"
  by (simp add: sat_add_def)

lemma in_i64_sat_sub [simp]: "in_i64 (sat_sub a b)"
  by (simp add: sat_sub_def)

lemma clamp_in_i64 [simp]: "in_i64 x \<Longrightarrow> clamp_i64 x = x"
  by (simp add: clamp_i64_def in_i64_def)

lemma clamp_i64_mono: "x \<le> y \<Longrightarrow> clamp_i64 x \<le> clamp_i64 y"
  by (simp add: clamp_i64_def)

lemma sat_sub_mono: "a \<le> b \<Longrightarrow> sat_sub a c \<le> sat_sub b c"
  by (simp add: sat_sub_def clamp_i64_mono)

lemma sat_sub_le: "0 \<le> c \<Longrightarrow> in_i64 a \<Longrightarrow> sat_sub a c \<le> a"
  by (simp add: sat_sub_def clamp_i64_def in_i64_def)

lemma sat_add_ge: "0 \<le> c \<Longrightarrow> in_i64 a \<Longrightarrow> a \<le> sat_add a c"
  by (simp add: sat_add_def clamp_i64_def in_i64_def)

lemma less_sat_add_iff: "in_i64 x \<Longrightarrow> x < i64_max \<Longrightarrow> x < sat_add a b \<longleftrightarrow> x < a + b"
  by (auto simp: sat_add_def clamp_i64_def in_i64_def)

section \<open>Lemmas: codecs\<close>

lemma length_to_be [simp, len_simps]: "length (to_be n x) = n"
  by (induction n arbitrary: x) auto

lemma of_be_Nil [simp]: "of_be [] = 0"
  by (simp add: of_be_def)

lemma of_be_snoc [simp]: "of_be (bs @ [b]) = of_be bs * 256 + unat b"
  by (simp add: of_be_def)

lemma of_be_bound: "of_be bs < 256 ^ length bs"
proof (induction bs rule: rev_induct)
  case (snoc b bs)
  have "unat b < 256"
    using unsigned_less [of b, where 'a = nat] by simp
  with snoc show ?case
    by simp
qed simp

lemma of_be_to_be: "of_be (to_be n x) = x mod 256 ^ n"
proof (induction n arbitrary: x)
  case (Suc n)
  have "unat (of_nat x :: byte) = x mod 256"
    by (simp add: unat_of_nat)
  then show ?case
    using mod_mult2_eq [of x 256 "256 ^ n"] by (simp add: Suc mult.commute)
qed simp

lemma to_be_of_be [codec_simps]: "to_be (length bs) (of_be bs) = bs"
proof (induction bs rule: rev_induct)
  case (snoc b bs)
  have b: "unat b < 256"
    using unsigned_less [of b, where 'a = nat] by simp
  have "(of_nat (of_be bs * 256 + unat b) :: byte) = b"
  proof -
    have "(of_nat (of_be bs * 256 + unat b) :: byte) = of_nat (of_be bs) * of_nat 256 + of_nat (unat b)"
      by (simp only: of_nat_add of_nat_mult)
    also have "(of_nat 256 :: byte) = 0"
      by simp
    finally show ?thesis
      by simp
  qed
  moreover have "(of_be bs * 256 + unat b) div 256 = of_be bs"
    using b by simp
  ultimately show ?case
    using snoc by simp
qed simp

lemma i64_to_be_length [simp, len_simps]: "length (i64_to_be x) = 8"
  by (simp add: i64_to_be_def del: to_be.simps)

lemma u32_to_be_length [simp, len_simps]: "length (u32_to_be x) = 4"
  by (simp add: u32_to_be_def del: to_be.simps)

lemma i32_to_be_length [simp, len_simps]: "length (i32_to_be x) = 4"
  by (simp add: i32_to_be_def del: to_be.simps)

lemma i64_roundtrip [simp, codec_simps]:
  assumes "in_i64 x"
  shows "i64_of_be (i64_to_be x) = x"
proof -
  have "of_be (i64_to_be x) = nat (x mod 18446744073709551616)"
    by (simp add: i64_to_be_def of_be_to_be del: to_be.simps)
  moreover have "x mod 18446744073709551616 = (if 0 \<le> x then x else x + 18446744073709551616)"
    using assms by (simp add: in_i64_def) (smt (verit) mod_pos_pos_trivial mod_add_self2)
  ultimately show ?thesis
    using assms by (simp add: i64_of_be_def in_i64_def Let_def split: if_splits)
qed

lemma i32_roundtrip [codec_simps]:
  assumes "- 2147483648 \<le> x" "x < 2147483648"
  shows "i32_of_be (i32_to_be x) = x"
proof -
  have "of_be (i32_to_be x) = nat (x mod 4294967296)"
    by (simp add: i32_to_be_def of_be_to_be del: to_be.simps)
  moreover have "x mod 4294967296 = (if 0 \<le> x then x else x + 4294967296)"
    using assms by simp (smt (verit) mod_pos_pos_trivial mod_add_self2)
  ultimately show ?thesis
    using assms by (simp add: i32_of_be_def Let_def split: if_splits)
qed

lemma u32_roundtrip [simp, codec_simps]: "x \<le> u32_max \<Longrightarrow> u32_of_be (u32_to_be x) = x"
  by (simp add: u32_of_be_def u32_to_be_def of_be_to_be del: to_be.simps)

lemma i64_of_be_in_range [simp]: "length bs = 8 \<Longrightarrow> in_i64 (i64_of_be bs)"
  using of_be_bound [of bs] by (simp add: i64_of_be_def in_i64_def Let_def)

lemma u32_of_be_bound: "length bs = 4 \<Longrightarrow> u32_of_be bs \<le> u32_max"
  using of_be_bound [of bs] by (simp add: u32_of_be_def)

lemma i64_to_be_inj: "in_i64 x \<Longrightarrow> in_i64 y \<Longrightarrow> i64_to_be x = i64_to_be y \<longleftrightarrow> x = y"
  using i64_roundtrip by metis

lemma u32_to_be_inj: "x \<le> u32_max \<Longrightarrow> y \<le> u32_max \<Longrightarrow> u32_to_be x = u32_to_be y \<longleftrightarrow> x = y"
  using u32_roundtrip by metis

section \<open>Lemmas: the byte order\<close>

lemma append_less_same [simp]: "xs @ ys < xs @ zs \<longleftrightarrow> ys < (zs :: 'a :: linorder list)"
  by (induction xs) auto

lemma append_le_same [simp]: "xs @ ys \<le> xs @ zs \<longleftrightarrow> ys \<le> (zs :: 'a :: linorder list)"
  by (induction xs) auto

lemma append_less_iff:
  "length xs = length xs' \<Longrightarrow>
   xs @ ys < xs' @ ys' \<longleftrightarrow> xs < xs' \<or> xs = xs' \<and> ys < (ys' :: 'a :: linorder list)"
  by (induction xs xs' rule: list_induct2) auto

lemma append_le_iff:
  "length xs = length xs' \<Longrightarrow>
   xs @ ys \<le> xs' @ ys' \<longleftrightarrow> xs < xs' \<or> xs = xs' \<and> ys \<le> (ys' :: 'a :: linorder list)"
  by (induction xs xs' rule: list_induct2) auto

lemma le_append [simp]: "xs \<le> xs @ (ys :: 'a :: linorder list)"
  by (induction xs) auto

lemma le_Nil_iff [simp]: "xs \<le> [] \<longleftrightarrow> xs = ([] :: 'a :: linorder list)"
  by (cases xs) auto

lemma less_div_mod_iff:
  "0 < c \<Longrightarrow> x < y \<longleftrightarrow> x div c < y div c \<or> x div c = y div c \<and> x mod c < y mod (c :: nat)"
  by (metis add_less_cancel_left div_le_mono div_mult_mod_eq le_neq_implies_less less_imp_le
      linorder_not_less)

lemma to_be_less_iff:
  "x < 256 ^ n \<Longrightarrow> y < 256 ^ n \<Longrightarrow> to_be n x < to_be n y \<longleftrightarrow> x < y"
proof (induction n arbitrary: x y)
  case (Suc n)
  let ?b = "\<lambda>x. of_nat x :: byte"
  have div: "x div 256 < 256 ^ n" "y div 256 < 256 ^ n"
    using Suc.prems by (simp_all add: less_mult_imp_div_less mult.commute)
  have eq: "to_be n (x div 256) = to_be n (y div 256) \<longleftrightarrow> x div 256 = y div 256"
    using Suc.IH [OF div] Suc.IH [OF div(2) div(1)] by (metis less_irrefl linorder_neqE_nat)
  have low: "?b x < ?b y \<longleftrightarrow> x mod 256 < y mod 256"
    by (simp add: word_less_nat_alt unat_of_nat)
  have "x < y \<longleftrightarrow> x div 256 < y div 256 \<or> x div 256 = y div 256 \<and> x mod 256 < y mod 256"
    by (rule less_div_mod_iff) simp
  then show ?case
    by (simp add: append_less_iff Suc.IH [OF div] eq low)
qed simp

lemma i64_to_be_less_iff:
  "0 \<le> x \<Longrightarrow> x \<le> i64_max \<Longrightarrow> 0 \<le> y \<Longrightarrow> y \<le> i64_max \<Longrightarrow> i64_to_be x < i64_to_be y \<longleftrightarrow> x < y"
  by (auto simp add: i64_to_be_def to_be_less_iff nat_less_iff simp del: to_be.simps)

lemma u32_to_be_less_iff:
  "x \<le> u32_max \<Longrightarrow> y \<le> u32_max \<Longrightarrow> u32_to_be x < u32_to_be y \<longleftrightarrow> x < y"
  by (simp add: u32_to_be_def to_be_less_iff del: to_be.simps)

lemma u32_to_be_0_le [simp]: "length bs = 4 \<Longrightarrow> u32_to_be 0 \<le> bs"
proof -
  assume len: "length bs = 4"
  then have "bs = u32_to_be (of_be bs)"
    using to_be_of_be [of bs] by (simp add: u32_to_be_def)
  moreover have "of_be bs \<le> u32_max"
    using u32_of_be_bound [OF len] by (simp add: u32_of_be_def)
  ultimately show ?thesis
    using u32_to_be_less_iff [of "of_be bs" 0] by (metis linorder_not_less not_less0 zero_le)
qed

section \<open>Lemmas: strings\<close>

lemma str_bytes_append [simp]: "str_bytes (s @ t) = str_bytes s @ str_bytes t"
  by (simp add: str_bytes_def)

lemma str_bytes_length [simp, len_simps]: "length (str_bytes s) = length s"
  by (simp add: str_bytes_def)

lemma utf8_decode_str_bytes [codec_simps]:
  "utf8_valid (str_bytes s) \<Longrightarrow> utf8_decode (str_bytes s) = Some s"
proof -
  have "char_of (unat (of_nat (of_char c) :: byte)) = c" for c
    by (simp add: unat_of_nat)
  moreover assume "utf8_valid (str_bytes s)"
  ultimately show ?thesis
    by (simp add: utf8_decode_def str_bytes_def comp_def map_idI)
qed

lemma str_bytes_utf8_decode [codec_simps]:
  "utf8_decode bs = Some s \<Longrightarrow> str_bytes s = bs"
proof -
  have "of_nat (of_char (char_of (unat b))) = b" for b :: byte
  proof -
    have "unat b < 256"
      using unsigned_less [of b, where 'a = nat] by simp
    then show ?thesis
      by simp
  qed
  then show "utf8_decode bs = Some s \<Longrightarrow> str_bytes s = bs"
    by (auto simp: utf8_decode_def str_bytes_def comp_def split: if_splits intro!: map_idI)
qed

end
