(* ===== verification/BTree_Map.thy ===== *)
theory BTree_Map
  imports Rust_Prelude
begin

text \<open>
  \<^verbatim>\<open>std::collections::BTreeMap\<close> as a strictly sorted association list: the list is the map's
  iteration order, so code that walks a map, takes a range of it or pops its first entry is modelled
  by list functions, while \<^verbatim>\<open>get\<close>/\<^verbatim>\<open>insert\<close>/\<^verbatim>\<open>remove\<close> have the map laws collected in
  \<open>bt_simps\<close>.  Representation is unique (\<open>bt_ext\<close>), so equality of maps is equality of lists.
\<close>

named_theorems bt_simps \<open>map laws of the ordered maps\<close>

type_synonym ('k, 'v) btree = "('k \<times> 'v) list"

definition bt_ok :: "('k :: linorder, 'v) btree \<Rightarrow> bool" where
  "bt_ok m \<longleftrightarrow> sorted_wrt (<) (map fst m)"

fun bt_insert :: "'k :: linorder \<Rightarrow> 'v \<Rightarrow> ('k, 'v) btree \<Rightarrow> ('k, 'v) btree" where
  "bt_insert k v [] = [(k, v)]"
| "bt_insert k v ((k', v') # m) =
    (if k < k' then (k, v) # (k', v') # m
     else if k = k' then (k, v) # m
     else (k', v') # bt_insert k v m)"

definition bt_remove :: "'k \<Rightarrow> ('k, 'v) btree \<Rightarrow> ('k, 'v) btree" where
  "bt_remove k m = filter (\<lambda>(k', _). k' \<noteq> k) m"

definition bt_range :: "'k :: linorder \<Rightarrow> 'k \<Rightarrow> ('k, 'v) btree \<Rightarrow> ('k, 'v) btree" where
  "bt_range lo hi m = filter (\<lambda>(k, _). lo \<le> k \<and> k < hi) m"

definition bt_put :: "'k :: linorder \<Rightarrow> 'v option \<Rightarrow> ('k, 'v) btree \<Rightarrow> ('k, 'v) btree" where
  "bt_put k ov m = (case ov of Some v \<Rightarrow> bt_insert k v m | None \<Rightarrow> bt_remove k m)"

section \<open>The representation\<close>

lemma bt_ok_Nil [simp]: "bt_ok []"
  by (simp add: bt_ok_def)

lemma bt_ok_Cons: "bt_ok ((k, v) # m) \<longleftrightarrow> (\<forall>k' \<in> fst ` set m. k < k') \<and> bt_ok m"
  by (auto simp: bt_ok_def)

lemma bt_ok_append:
  "bt_ok (m @ m') \<longleftrightarrow> bt_ok m \<and> bt_ok m' \<and> (\<forall>k \<in> fst ` set m. \<forall>k' \<in> fst ` set m'. k < k')"
  by (auto simp: bt_ok_def sorted_wrt_append)

lemma bt_ok_distinct: "bt_ok m \<Longrightarrow> distinct (map fst m)"
  by (simp add: bt_ok_def strict_sorted_iff)

lemma bt_ok_sorted: "bt_ok m \<Longrightarrow> sorted (map fst m)"
  by (simp add: bt_ok_def strict_sorted_iff)

lemma bt_ok_filter [simp]: "bt_ok m \<Longrightarrow> bt_ok (filter P m)"
  by (induction m) (auto simp: bt_ok_Cons split: prod.splits)

lemma bt_ok_map_val [simp]: "bt_ok (map (\<lambda>(k, v). (k, f k v)) m) \<longleftrightarrow> bt_ok m"
  by (simp add: bt_ok_def comp_def split_def)

lemma set_bt_insert:
  "bt_ok m \<Longrightarrow> set (bt_insert k v m) = insert (k, v) {p \<in> set m. fst p \<noteq> k}"
  by (induction k v m rule: bt_insert.induct) (auto simp: bt_ok_Cons)

lemma fst_set_bt_insert [simp]: "fst ` set (bt_insert k v m) = insert k (fst ` set m)"
  by (induction k v m rule: bt_insert.induct) auto

lemma bt_ok_insert [simp]: "bt_ok m \<Longrightarrow> bt_ok (bt_insert k v m)"
  by (induction k v m rule: bt_insert.induct) (auto simp: bt_ok_Cons)

lemma bt_ok_remove [simp]: "bt_ok m \<Longrightarrow> bt_ok (bt_remove k m)"
  by (simp add: bt_remove_def)

lemma bt_ok_put [simp]: "bt_ok m \<Longrightarrow> bt_ok (bt_put k ov m)"
  by (simp add: bt_put_def split: option.splits)

lemma bt_ok_range [simp]: "bt_ok m \<Longrightarrow> bt_ok (bt_range lo hi m)"
  by (simp add: bt_range_def)

section \<open>Map laws\<close>

lemma map_of_bt_insert [simp, bt_simps]: "map_of (bt_insert k v m) = (map_of m)(k \<mapsto> v)"
  by (induction k v m rule: bt_insert.induct) (auto simp: fun_eq_iff)

lemma map_of_bt_remove [simp, bt_simps]: "map_of (bt_remove k m) = (map_of m)(k := None)"
  by (induction m) (auto simp: bt_remove_def fun_eq_iff)

lemma map_of_bt_put [simp, bt_simps]: "map_of (bt_put k ov m) = (map_of m)(k := ov)"
  by (simp add: bt_put_def split: option.splits)

lemma map_of_filter_key:
  "map_of (filter (\<lambda>(k, _). P k) m) = (\<lambda>k. if P k then map_of m k else None)"
  by (induction m) (auto simp: fun_eq_iff)

lemma map_of_bt_range [simp, bt_simps]:
  "map_of (bt_range lo hi m) k = (if lo \<le> k \<and> k < hi then map_of m k else None)"
  by (simp add: bt_range_def map_of_filter_key)

lemma bt_ok_map_of_iff: "bt_ok m \<Longrightarrow> map_of m k = Some v \<longleftrightarrow> (k, v) \<in> set m"
  by (simp add: bt_ok_distinct)

lemma map_of_eq_None_iff': "map_of m k = None \<longleftrightarrow> k \<notin> fst ` set m"
  by (rule map_of_eq_None_iff)

lemma bt_ext:
  assumes "bt_ok m" "bt_ok m'" "map_of m = map_of m'"
  shows "m = m'"
proof -
  have "set m = set m'"
    using assms map_of_inject_set [of m m'] by (simp add: bt_ok_distinct)
  moreover have "sorted (map fst m)" "sorted (map fst m')" "distinct (map fst m)" "distinct (map fst m')"
    using assms by (simp_all add: bt_ok_sorted bt_ok_distinct)
  ultimately show ?thesis
    using map_sorted_distinct_set_unique [of fst m m'] by (simp add: distinct_map)
qed

lemma bt_ext_iff: "bt_ok m \<Longrightarrow> bt_ok m' \<Longrightarrow> m = m' \<longleftrightarrow> map_of m = map_of m'"
  using bt_ext by auto

lemma fst_set_bt_remove [simp]: "fst ` set (bt_remove k m) = fst ` set m - {k}"
  by (force simp: bt_remove_def)

lemma bt_remove_absent: "k \<notin> fst ` set m \<Longrightarrow> bt_remove k m = m"
  by (force simp: bt_remove_def filter_id_conv)

text \<open>First and last entry.\<close>

lemma bt_last:
  assumes "bt_ok m" "m \<noteq> []"
  shows "map_of m (fst (last m)) = Some (snd (last m))" "map_of m k \<noteq> None \<Longrightarrow> k \<le> fst (last m)"
proof -
  obtain m' p where m: "m = m' @ [p]"
    using assms(2) by (cases m rule: rev_cases) auto
  show "map_of m (fst (last m)) = Some (snd (last m))"
    using assms by (simp add: bt_ok_map_of_iff)
  show "k \<le> fst (last m)" if "map_of m k \<noteq> None"
  proof -
    have "k \<in> fst ` set m"
      using that by (simp add: map_of_eq_None_iff)
    then show ?thesis
      using assms(1) unfolding m by (force simp: bt_ok_append)
  qed
qed

lemma bt_hd:
  assumes "bt_ok m" "m \<noteq> []"
  shows "map_of m (fst (hd m)) = Some (snd (hd m))" "map_of m k \<noteq> None \<Longrightarrow> fst (hd m) \<le> k"
proof -
  obtain p m' where m: "m = p # m'"
    using assms(2) by (cases m) auto
  show "map_of m (fst (hd m)) = Some (snd (hd m))"
    using assms by (simp add: bt_ok_map_of_iff)
  show "fst (hd m) \<le> k" if "map_of m k \<noteq> None"
  proof -
    have "k \<in> fst ` set m"
      using that by (simp add: map_of_eq_None_iff)
    then show ?thesis
      using assms(1) unfolding m by (cases p) (force simp: bt_ok_Cons)
  qed
qed

section \<open>Rebuilding a map from a list of entries\<close>

definition bt_of_list :: "('k :: linorder \<times> 'v) list \<Rightarrow> ('k, 'v) btree" where
  "bt_of_list kvs = foldl (\<lambda>m (k, v). bt_insert k v m) [] kvs"

lemma foldl_bt_insert_ok: "bt_ok m \<Longrightarrow> bt_ok (foldl (\<lambda>m (k, v). bt_insert k v m) m kvs)"
  by (induction kvs arbitrary: m) (auto split: prod.splits)

lemma map_of_foldl_bt_insert:
  "map_of (foldl (\<lambda>m (k, v). bt_insert k v m) m kvs) = map_of m ++ map_of (rev kvs)"
proof (induction kvs arbitrary: m)
  case (Cons kv kvs)
  then show ?case
    by (cases kv) (simp add: map_add_assoc [symmetric] del: map_add_assoc,
                   simp add: fun_eq_iff map_add_def split: option.splits)
qed simp

lemma bt_of_list_ok [simp]: "bt_ok (bt_of_list kvs)"
  by (simp add: bt_of_list_def foldl_bt_insert_ok)

lemma map_of_bt_of_list: "map_of (bt_of_list kvs) = map_of (rev kvs)"
  by (simp add: bt_of_list_def map_of_foldl_bt_insert)

lemma bt_of_list_id [simp]: "bt_ok m \<Longrightarrow> bt_of_list m = m"
  by (rule bt_ext)
     (simp_all add: map_of_bt_of_list bt_ok_distinct map_of_inject_set rev_map [symmetric])

section \<open>Aggregates over a map\<close>

text \<open>Counters kept beside a map (cached bytes, buffered bytes) are sums over its entries.\<close>

definition bt_sum :: "('k \<Rightarrow> 'v \<Rightarrow> nat) \<Rightarrow> ('k, 'v) btree \<Rightarrow> nat" where
  "bt_sum f m = sum_list (map (\<lambda>(k, v). f k v) m)"

lemma bt_sum_Nil [simp]: "bt_sum f [] = 0"
  by (simp add: bt_sum_def)

lemma bt_sum_insert_new:
  "map_of m k = None \<Longrightarrow> bt_sum f (bt_insert k v m) = bt_sum f m + f k v"
  by (induction k v m rule: bt_insert.induct) (auto simp: bt_sum_def split: if_splits)

lemma bt_sum_insert_old:
  "bt_ok m \<Longrightarrow> map_of m k = Some w \<Longrightarrow> bt_sum f (bt_insert k v m) + f k w = bt_sum f m + f k v"
proof (induction k v m rule: bt_insert.induct)
  case (2 k v k' v' m)
  then show ?case
    by (force simp: bt_sum_def bt_ok_Cons split: if_splits dest: map_of_SomeD)
qed simp

lemma bt_sum_remove:
  "bt_ok m \<Longrightarrow> map_of m k = Some w \<Longrightarrow> bt_sum f (bt_remove k m) + f k w = bt_sum f m"
proof (induction m)
  case (Cons p m)
  obtain k' v' where p: "p = (k', v')" by force
  show ?case
  proof (cases "k' = k")
    case True
    then have "k \<notin> fst ` set m"
      using Cons.prems p by (auto simp: bt_ok_Cons)
    then have "filter (\<lambda>(k', _). k' \<noteq> k) m = m"
      using bt_remove_absent [of k m] by (simp add: bt_remove_def)
    then show ?thesis
      using True Cons.prems p by (simp add: bt_remove_def bt_sum_def)
  next
    case False
    then show ?thesis
      using Cons p by (simp add: bt_remove_def bt_sum_def bt_ok_Cons)
  qed
qed simp

lemma bt_sum_member_le: "map_of m k = Some w \<Longrightarrow> f k w \<le> bt_sum f m"
  by (induction m) (auto simp: bt_sum_def split: if_splits)

end
