(* ===== verification/Snapshot_Codec.thy ===== *)
theory Snapshot_Codec
  imports BTree_Map
begin

text \<open>
  \<^verbatim>\<open>store/snapshot.rs\<close>: the big-endian reader that every snapshot decoder is written with, the
  frozen task-snapshot container and the byte-entry payload that byte-backed stores put inside it.

  A method of \<^verbatim>\<open>SnapshotReader\<close> is a function from the unread bytes to an error or the value with the
  bytes left over; the \<^verbatim>\<open>?\<close> operator is \<open>and_then\<close>.  Writers that panic on a length that
  does not fit \<^verbatim>\<open>u32\<close> return \<^term>\<open>None\<close> there.  The relation \<open>reads r e x\<close> (reader \<open>r\<close> decodes \<open>e\<close> to
  \<open>x\<close>, leaves whatever follows, and reports truncation on every proper prefix of \<open>e\<close>) composes along
  \<open>and_then\<close>, so each codec is proved correct and truncation-safe field by field.
\<close>

named_theorems reads_intros \<open>composition rules for readers\<close>

datatype streams_error = SnapshotError string

type_synonym 'a result = "streams_error + 'a"
type_synonym 'a reader = "bytes \<Rightarrow> ('a \<times> bytes) result"

definition and_then :: "'a reader \<Rightarrow> ('a \<Rightarrow> 'b reader) \<Rightarrow> 'b reader" where
  "and_then r f data = (case r data of Inl e \<Rightarrow> Inl e | Inr (x, rest) \<Rightarrow> f x rest)"

definition ok :: "'a \<Rightarrow> 'a reader" where
  "ok x data = Inr (x, data)"

section \<open>SnapshotReader\<close>

definition SNAPSHOT_CONTAINER_VERSION :: nat where
  "SNAPSHOT_CONTAINER_VERSION = 1"

definition STORE_PAYLOAD_VERSION :: nat where
  "STORE_PAYLOAD_VERSION = 1"

definition truncated :: streams_error where
  "truncated = SnapshotError ''truncated state snapshot''"

definition reader_take :: "nat \<Rightarrow> bytes reader" where
  "reader_take count data =
    (if count \<le> length data then Inr (take count data, drop count data) else Inl truncated)"

definition reader_u8 :: "byte reader" where
  "reader_u8 = and_then (reader_take 1) (\<lambda>bs. ok (bs ! 0))"

definition reader_u32 :: "nat reader" where
  "reader_u32 = and_then (reader_take 4) (\<lambda>bs. ok (u32_of_be bs))"

definition reader_u64 :: "nat reader" where
  "reader_u64 = and_then (reader_take 8) (\<lambda>bs. ok (of_be bs))"

definition reader_i64 :: "int reader" where
  "reader_i64 = and_then (reader_take 8) (\<lambda>bs. ok (i64_of_be bs))"

definition reader_sized :: "bytes reader" where
  "reader_sized = and_then reader_u32 (\<lambda>len. reader_take len)"

definition reader_finish :: "unit reader" where
  "reader_finish data =
    (if data = [] then Inr ((), data) else Inl (SnapshotError ''trailing bytes in state snapshot''))"

definition reader_store_version :: "unit reader" where
  "reader_store_version = and_then reader_u32 (\<lambda>version.
     if version = STORE_PAYLOAD_VERSION then ok ()
     else (\<lambda>_. Inl (SnapshotError (''unsupported store snapshot version '' @ show_nat version))))"

section \<open>Writers\<close>

definition put_u32 :: "bytes \<Rightarrow> nat \<Rightarrow> bytes" where
  "put_u32 buffer n = buffer @ u32_to_be n"

definition put_sized :: "bytes \<Rightarrow> bytes \<Rightarrow> bytes option" where
  "put_sized buffer v =
    (if length v \<le> u32_max then Some (put_u32 buffer (length v) @ v) else None)"

definition store_payload :: bytes where
  "store_payload = put_u32 [] STORE_PAYLOAD_VERSION"

fun put_entries :: "bytes \<Rightarrow> (bytes \<times> bytes) list \<Rightarrow> bytes option" where
  "put_entries buffer [] = Some buffer"
| "put_entries buffer ((key, value) # entries) =
    do { b \<leftarrow> put_sized buffer key; b' \<leftarrow> put_sized b value; put_entries b' entries }"

definition put_byte_entries :: "bytes \<Rightarrow> (bytes \<times> bytes) list \<Rightarrow> bytes option" where
  "put_byte_entries buffer entries =
    (if length entries \<le> u32_max then put_entries (put_u32 buffer (length entries)) entries else None)"

definition encode_byte_entries :: "(bytes \<times> bytes) list \<Rightarrow> bytes option" where
  "encode_byte_entries entries = put_byte_entries store_payload entries"

section \<open>Byte-entry payloads\<close>

fun read_entries :: "nat \<Rightarrow> (bytes \<times> bytes) list reader" where
  "read_entries 0 = ok []"
| "read_entries (Suc count) =
    and_then reader_sized (\<lambda>key. and_then reader_sized (\<lambda>value.
      and_then (read_entries count) (\<lambda>entries. ok ((key, value) # entries))))"

definition read_byte_entries :: "(bytes \<times> bytes) list reader" where
  "read_byte_entries = and_then reader_u32 read_entries"

definition decode_byte_entries :: "bytes \<Rightarrow> (bytes \<times> bytes) list result" where
  "decode_byte_entries data =
    map_sum id fst (and_then reader_store_version (\<lambda>_. and_then read_byte_entries (\<lambda>entries.
      and_then reader_finish (\<lambda>_. ok entries))) data)"

section \<open>The task-snapshot container\<close>

type_synonym task_snapshot = "(string, bytes) btree"

definition encode_snapshot :: "task_snapshot \<Rightarrow> bytes option" where
  "encode_snapshot snapshot =
    (if length snapshot \<le> u32_max
     then put_entries (put_u32 (put_u32 [] SNAPSHOT_CONTAINER_VERSION) (length snapshot))
            (map (\<lambda>(name, value). (str_bytes name, value)) snapshot)
     else None)"

fun decode_snapshot_entries :: "nat \<Rightarrow> task_snapshot \<Rightarrow> task_snapshot reader" where
  "decode_snapshot_entries 0 snapshot = ok snapshot"
| "decode_snapshot_entries (Suc count) snapshot =
    and_then reader_sized (\<lambda>name.
      case utf8_decode name of
        None \<Rightarrow> (\<lambda>_. Inl (SnapshotError ''non-UTF-8 store name''))
      | Some n \<Rightarrow> and_then reader_sized (\<lambda>value.
          decode_snapshot_entries count (bt_insert n value snapshot)))"

definition decode_snapshot :: "bytes \<Rightarrow> task_snapshot result" where
  "decode_snapshot data =
    map_sum id fst (and_then reader_u32 (\<lambda>version.
      if version \<noteq> SNAPSHOT_CONTAINER_VERSION
      then (\<lambda>_. Inl (SnapshotError (''unsupported state snapshot version '' @ show_nat version)))
      else and_then reader_u32 (\<lambda>count.
        and_then (decode_snapshot_entries count []) (\<lambda>snapshot.
          and_then reader_finish (\<lambda>_. ok snapshot)))) data)"

section \<open>Snapshot keys\<close>

record snapshot_key =
  sk_task :: string
  sk_group :: string
  sk_epoch :: int

definition sanitize_char :: "char \<Rightarrow> char" where
  "sanitize_char c =
    (let n = (of_char c :: nat) in
     if 48 \<le> n \<and> n \<le> 57 \<or> 65 \<le> n \<and> n \<le> 90 \<or> 97 \<le> n \<and> n \<le> 122 \<or>
        c = CHR ''.'' \<or> c = CHR ''_'' \<or> c = CHR ''-''
     then c else CHR ''_'')"

text \<open>\<^verbatim>\<open>chars()\<close> yields one character per UTF-8 sequence: a continuation byte belongs to the character
  its leading byte starts, and the whole character becomes one underscore.\<close>

definition sanitize :: "string \<Rightarrow> string" where
  "sanitize s = map sanitize_char (filter (\<lambda>c. \<not> (128 \<le> (of_char c :: nat) \<and> of_char c < (192 :: nat))) s)"

definition file_name :: "snapshot_key \<Rightarrow> string" where
  "file_name key = sanitize (sk_group key) @ ''-'' @ sanitize (sk_task key) @ ''-epoch-'' @
     show_int (sk_epoch key) @ ''.snapshot''"

section \<open>Readers and what they decode\<close>

definition reads :: "'a reader \<Rightarrow> bytes \<Rightarrow> 'a \<Rightarrow> bool" where
  "reads r e x \<longleftrightarrow> (\<forall>rest. r (e @ rest) = Inr (x, rest)) \<and> (\<forall>n < length e. r (take n e) = Inl truncated)"

lemma reads_append: "reads r e x \<Longrightarrow> r (e @ rest) = Inr (x, rest)"
  by (simp add: reads_def)

lemma reads_exact: "reads r e x \<Longrightarrow> r e = Inr (x, [])"
  using reads_append [of r e x "[]"] by simp

lemma reads_prefix: "reads r e x \<Longrightarrow> n < length e \<Longrightarrow> r (take n e) = Inl truncated"
  by (simp add: reads_def)

lemma reads_ok [reads_intros]: "reads (ok x) [] x"
  by (simp add: reads_def ok_def)

lemma reads_and_then [reads_intros]:
  assumes "reads r e x" "reads (f x) e' y"
  shows "reads (and_then r f) (e @ e') y"
  unfolding reads_def
proof (intro conjI allI impI)
  fix rest
  show "and_then r f ((e @ e') @ rest) = Inr (y, rest)"
    using assms by (simp add: and_then_def reads_append)
next
  fix n
  assume n: "n < length (e @ e')"
  show "and_then r f (take n (e @ e')) = Inl truncated"
  proof (cases "n < length e")
    case True
    then show ?thesis
      using assms by (simp add: and_then_def reads_prefix)
  next
    case False
    then show ?thesis
      using assms n by (simp add: and_then_def reads_append reads_prefix)
  qed
qed

lemma reads_and_then_ok [reads_intros]:
  assumes "reads r e x"
  shows "reads (and_then r (\<lambda>x. ok (g x))) e (g x)"
  using reads_and_then [OF assms, of "\<lambda>x. ok (g x)" "[]" "g x"] by (simp add: reads_ok)

lemma reads_take [reads_intros]: "length e = n \<Longrightarrow> reads (reader_take n) e e"
  by (auto simp: reads_def reader_take_def)

lemma reads_u8 [reads_intros]: "reads reader_u8 [b] b"
  using reads_and_then_ok [OF reads_take [of "[b]" 1], of "\<lambda>bs. bs ! 0"] by (simp add: reader_u8_def)

lemma reads_u32 [reads_intros]: "n \<le> u32_max \<Longrightarrow> reads reader_u32 (u32_to_be n) n"
  using reads_and_then_ok [OF reads_take [of "u32_to_be n" 4], of u32_of_be] by (simp add: reader_u32_def)

lemma reads_i64 [reads_intros]: "in_i64 x \<Longrightarrow> reads reader_i64 (i64_to_be x) x"
  using reads_and_then_ok [OF reads_take [of "i64_to_be x" 8], of i64_of_be] by (simp add: reader_i64_def)

lemma reads_u64 [reads_intros]: "n < 18446744073709551616 \<Longrightarrow> reads reader_u64 (to_be 8 n) n"
  using reads_and_then_ok [OF reads_take [of "to_be 8 n" 8], of of_be]
  by (simp add: reader_u64_def of_be_to_be del: to_be.simps)

lemma reads_sized [reads_intros]:
  "length v \<le> u32_max \<Longrightarrow> reads reader_sized (u32_to_be (length v) @ v) v"
  unfolding reader_sized_def by (rule reads_and_then [OF reads_u32 reads_take]) simp_all

lemma reads_store_version [reads_intros]: "reads reader_store_version store_payload ()"
  using reads_and_then [OF reads_u32 [of 1], of _ "[]" "()"]
  by (simp add: reader_store_version_def store_payload_def put_u32_def STORE_PAYLOAD_VERSION_def reads_ok)

text \<open>Running a whole decoder: the reader, then \<^verbatim>\<open>finish\<close>.\<close>

lemma finish_exact:
  "reads r e x \<Longrightarrow> and_then r (\<lambda>x. and_then reader_finish (\<lambda>_. ok (f x))) e = Inr (f x, [])"
  by (simp add: and_then_def reads_exact reader_finish_def ok_def)

lemma finish_prefix:
  "reads r e x \<Longrightarrow> n < length e \<Longrightarrow>
   and_then r (\<lambda>x. and_then reader_finish (\<lambda>_. ok (f x))) (take n e) = Inl truncated"
  by (simp add: and_then_def reads_prefix)

lemma finish_trailing:
  "reads r e x \<Longrightarrow> rest \<noteq> [] \<Longrightarrow>
   and_then r (\<lambda>x. and_then reader_finish (\<lambda>_. ok (f x))) (e @ rest) =
     Inl (SnapshotError ''trailing bytes in state snapshot'')"
  by (simp add: and_then_def reads_append reader_finish_def)

lemma and_then_assoc: "and_then (and_then r f) g = and_then r (\<lambda>x. and_then (f x) g)"
  by (auto simp: and_then_def fun_eq_iff split: sum.splits prod.splits)

lemma and_then_ok: "and_then (ok x) f = f x"
  by (simp add: and_then_def ok_def fun_eq_iff)

section \<open>Entry runs\<close>

definition sized_bytes :: "bytes \<Rightarrow> bytes" where
  "sized_bytes v = u32_to_be (length v) @ v"

fun entry_bytes :: "bytes \<times> bytes \<Rightarrow> bytes" where
  "entry_bytes (k, v) = sized_bytes k @ sized_bytes v"

lemma put_sized_Some:
  "put_sized b v = Some b' \<longleftrightarrow> length v \<le> u32_max \<and> b' = b @ sized_bytes v"
  by (auto simp: put_sized_def put_u32_def sized_bytes_def)

lemma put_entries_Some:
  "put_entries b es = Some b' \<longleftrightarrow>
   (\<forall>(k, v) \<in> set es. length k \<le> u32_max \<and> length v \<le> u32_max) \<and> b' = b @ concat (map entry_bytes es)"
  by (induction es arbitrary: b) (auto simp: bind_eq_Some_conv put_sized_Some)

lemma reads_sized_bytes [reads_intros]: "length v \<le> u32_max \<Longrightarrow> reads reader_sized (sized_bytes v) v"
  by (simp add: sized_bytes_def reads_sized)

lemma reads_read_entries [reads_intros]:
  "\<forall>(k, v) \<in> set es. length k \<le> u32_max \<and> length v \<le> u32_max \<Longrightarrow>
   reads (read_entries (length es)) (concat (map entry_bytes es)) es"
proof (induction es)
  case (Cons kv es)
  obtain k v where kv: "kv = (k, v)" by force
  have "reads (read_entries (length (kv # es)))
          (sized_bytes k @ (sized_bytes v @ concat (map entry_bytes es))) (kv # es)"
    using Cons unfolding kv list.size read_entries.simps add_Suc_right add_0_right
    by (intro reads_and_then [OF reads_sized_bytes] reads_and_then_ok) auto
  then show ?case
    by (simp only: kv entry_bytes.simps list.map concat.simps append_assoc)
qed (simp add: reads_ok)

lemma put_byte_entries_reads:
  assumes "put_byte_entries b es = Some b'"
  obtains e where "b' = b @ e" "reads read_byte_entries e es"
proof
  have len: "length es \<le> u32_max" and
    all: "\<forall>(k, v) \<in> set es. length k \<le> u32_max \<and> length v \<le> u32_max" and
    b': "b' = b @ (u32_to_be (length es) @ concat (map entry_bytes es))"
    using assms by (auto simp: put_byte_entries_def put_entries_Some put_u32_def split: if_splits)
  show "b' = b @ (u32_to_be (length es) @ concat (map entry_bytes es))"
    by (fact b')
  show "reads read_byte_entries (u32_to_be (length es) @ concat (map entry_bytes es)) es"
    unfolding read_byte_entries_def using len all
    by (intro reads_and_then [OF reads_u32] reads_read_entries) auto
qed

lemma encode_byte_entries_reads:
  assumes "encode_byte_entries es = Some b"
  shows "reads (and_then reader_store_version (\<lambda>_. read_byte_entries)) b es"
proof -
  obtain e where "b = store_payload @ e" "reads read_byte_entries e es"
    using assms unfolding encode_byte_entries_def by (rule put_byte_entries_reads)
  then show ?thesis
    by (simp add: reads_and_then [OF reads_store_version])
qed

lemma decode_byte_entries_alt:
  "decode_byte_entries data =
    map_sum id fst (and_then (and_then reader_store_version (\<lambda>_. read_byte_entries))
      (\<lambda>entries. and_then reader_finish (\<lambda>_. ok entries)) data)"
  by (simp add: decode_byte_entries_def and_then_assoc)

lemma decode_encode_byte_entries [codec_simps]:
  "encode_byte_entries es = Some b \<Longrightarrow> decode_byte_entries b = Inr es"
  using finish_exact [OF encode_byte_entries_reads, of es b "\<lambda>x. x"]
  by (simp add: decode_byte_entries_alt)

section \<open>The container\<close>

lemma reads_decode_snapshot_entries:
  assumes "\<forall>(n, v) \<in> set s. utf8_valid (str_bytes n) \<and> length n \<le> u32_max \<and> length v \<le> u32_max"
  shows "reads (decode_snapshot_entries (length s) acc)
          (concat (map (\<lambda>(n, v). entry_bytes (str_bytes n, v)) s))
          (foldl (\<lambda>m (k, v). bt_insert k v m) acc s)"
  using assms
proof (induction s arbitrary: acc)
  case (Cons nv s)
  obtain n v where nv: "nv = (n, v)" by force
  have utf8: "utf8_decode (str_bytes n) = Some n"
    using Cons.prems nv by (simp add: utf8_decode_str_bytes)
  have "reads (decode_snapshot_entries (Suc (length s)) acc)
          (sized_bytes (str_bytes n) @ (sized_bytes v @ concat (map (\<lambda>(n, v). entry_bytes (str_bytes n, v)) s)))
          (foldl (\<lambda>m (k, v). bt_insert k v m) (bt_insert n v acc) s)"
    unfolding decode_snapshot_entries.simps
  proof (rule reads_and_then [OF reads_sized_bytes])
    show "length (str_bytes n) \<le> u32_max"
      using Cons.prems nv by simp
    show "reads
       (case utf8_decode (str_bytes n) of None \<Rightarrow> (\<lambda>_. Inl (SnapshotError ''non-UTF-8 store name''))
        | Some n' \<Rightarrow> and_then reader_sized (\<lambda>value. decode_snapshot_entries (length s) (bt_insert n' value acc)))
       (sized_bytes v @ concat (map (\<lambda>(n, v). entry_bytes (str_bytes n, v)) s))
       (foldl (\<lambda>m (k, v). bt_insert k v m) (bt_insert n v acc) s)"
      using Cons nv by (simp add: utf8) (intro reads_and_then [OF reads_sized_bytes], auto)
  qed
  then show ?case
    by (simp add: nv)
qed (simp add: reads_ok)

lemma encode_snapshot_reads:
  assumes "bt_ok s" "\<forall>n \<in> fst ` set s. utf8_valid (str_bytes n)" "encode_snapshot s = Some b"
  obtains e where "b = u32_to_be SNAPSHOT_CONTAINER_VERSION @ e"
    and "reads (and_then reader_u32 (\<lambda>count. decode_snapshot_entries count [])) e s"
proof
  have len: "length s \<le> u32_max" and
    all: "\<forall>(n, v) \<in> set s. length n \<le> u32_max \<and> length v \<le> u32_max" and
    b: "b = u32_to_be SNAPSHOT_CONTAINER_VERSION @ (u32_to_be (length s) @ concat (map (\<lambda>(n, v). entry_bytes (str_bytes n, v)) s))"
    using assms(3)
    by (auto simp: encode_snapshot_def put_entries_Some put_u32_def
        comp_def split_def split: if_splits)
  show "b = u32_to_be SNAPSHOT_CONTAINER_VERSION @ (u32_to_be (length s) @ concat (map (\<lambda>(n, v). entry_bytes (str_bytes n, v)) s))"
    by (fact b)
  have "foldl (\<lambda>m (k, v). bt_insert k v m) [] s = s"
    using bt_of_list_id [OF assms(1)] by (simp add: bt_of_list_def)
  then show "reads (and_then reader_u32 (\<lambda>count. decode_snapshot_entries count []))
     (u32_to_be (length s) @ concat (map (\<lambda>(n, v). entry_bytes (str_bytes n, v)) s)) s"
    using reads_and_then [OF reads_u32 [OF len], of "\<lambda>count. decode_snapshot_entries count []"]
      reads_decode_snapshot_entries [of s "[]"] all assms(2) by fastforce
qed

lemma decode_snapshot_alt:
  "decode_snapshot (u32_to_be SNAPSHOT_CONTAINER_VERSION @ e) =
    map_sum id fst (and_then (and_then reader_u32 (\<lambda>count. decode_snapshot_entries count []))
      (\<lambda>snapshot. and_then reader_finish (\<lambda>_. ok snapshot)) e)"
proof -
  have "reader_u32 (u32_to_be SNAPSHOT_CONTAINER_VERSION @ e) = Inr (SNAPSHOT_CONTAINER_VERSION, e)"
    by (rule reads_append) (rule reads_u32, simp add: SNAPSHOT_CONTAINER_VERSION_def)
  then show ?thesis
    unfolding decode_snapshot_def and_then_assoc by (subst and_then_def) simp
qed

lemma decode_encode_snapshot:
  assumes "bt_ok s" "\<forall>n \<in> fst ` set s. utf8_valid (str_bytes n)" "encode_snapshot s = Some b"
  shows "decode_snapshot b = Inr s"
proof -
  obtain e where b: "b = u32_to_be SNAPSHOT_CONTAINER_VERSION @ e" and
    r: "reads (and_then reader_u32 (\<lambda>count. decode_snapshot_entries count [])) e s"
    using assms by (rule encode_snapshot_reads)
  show ?thesis
    using finish_exact [OF r, of "\<lambda>x. x"] by (simp add: b decode_snapshot_alt)
qed

text \<open>C35: The frozen snapshot container round-trips and is self-delimiting.  Decoding what
  \<^verbatim>\<open>encode_snapshot\<close> wrote gives back the same store map; decoding any proper prefix of it reports a
  truncated snapshot; decoding it with bytes appended reports trailing bytes.  (A task snapshot is a
  \<^verbatim>\<open>BTreeMap<String, Bytes>\<close>: sorted by name, names well-formed UTF-8.)\<close>

theorem snapshot_container_roundtrip:
  assumes "bt_ok s" "\<forall>n \<in> fst ` set s. utf8_valid (str_bytes n)" "encode_snapshot s = Some b"
  shows "decode_snapshot b = Inr s \<and>
    (\<forall>n < length b. decode_snapshot (take n b) = Inl truncated) \<and>
    (\<forall>x. x \<noteq> [] \<longrightarrow>
      decode_snapshot (b @ x) = Inl (SnapshotError ''trailing bytes in state snapshot''))"
proof -
  obtain e where b: "b = u32_to_be SNAPSHOT_CONTAINER_VERSION @ e" and
    r: "reads (and_then reader_u32 (\<lambda>count. decode_snapshot_entries count [])) e s"
    using assms by (rule encode_snapshot_reads)
  have "decode_snapshot b = Inr s"
    using decode_encode_snapshot [OF assms] .
  moreover have "decode_snapshot (b @ x) = Inl (SnapshotError ''trailing bytes in state snapshot'')"
    if "x \<noteq> []" for x
    using finish_trailing [OF r that, of "\<lambda>x. x"] by (simp add: b decode_snapshot_alt)
  moreover have "decode_snapshot (take n b) = Inl truncated" if n: "n < length b" for n
  proof (cases "n < 4")
    case True
    then show ?thesis
      using reads_prefix [OF reads_u32 [of SNAPSHOT_CONTAINER_VERSION], of n]
      by (simp add: b decode_snapshot_def and_then_def SNAPSHOT_CONTAINER_VERSION_def)
  next
    case False
    then have "take n b = u32_to_be SNAPSHOT_CONTAINER_VERSION @ take (n - 4) e"
      by (simp add: b)
    then show ?thesis
      using finish_prefix [OF r, of "n - 4" "\<lambda>x. x"] n False by (simp add: b decode_snapshot_alt)
  qed
  ultimately show ?thesis
    by blast
qed

lemma snapshot_container_roundtrip_witness:
  "\<exists>b. encode_snapshot [(''agg'', [1, 2]), (''kv'', [])] = Some b \<and>
     decode_snapshot b = Inr [(''agg'', [1, 2]), (''kv'', [])] \<and>
     decode_snapshot (take 9 b) = Inl truncated \<and>
     decode_snapshot (b @ [0]) = Inl (SnapshotError ''trailing bytes in state snapshot'')"
proof -
  let ?s = "[(''agg'', [1, 2]), (''kv'', [])] :: task_snapshot"
  obtain b where b: "encode_snapshot ?s = Some b" and len: "9 < length b"
    by (simp add: encode_snapshot_def put_sized_def put_u32_def)
  have "bt_ok ?s" "\<forall>n \<in> fst ` set ?s. utf8_valid (str_bytes n)"
    by code_simp+
  from snapshot_container_roundtrip [OF this b] len b show ?thesis
    by blast
qed

section \<open>Snapshot file names\<close>

lemma show_nat_chars: "c \<in> set (show_nat n) \<Longrightarrow> \<exists>d < 10. c = char_of (48 + d :: nat)"
proof (induction n rule: show_nat.induct)
  case (1 n)
  show ?case
  proof (cases "n < 10")
    case True
    then show ?thesis
      using 1 by (auto simp: show_nat.simps [of n])
  next
    case False
    then have "c \<in> set (show_nat (n div 10)) \<or> c = char_of (48 + n mod 10)"
      using 1(2) by (subst (asm) show_nat.simps) auto
    then show ?thesis
      using 1(1) [OF False] by (metis mod_less_divisor zero_less_numeral)
  qed
qed

lemma digit_not_slash: "d < 10 \<Longrightarrow> char_of (48 + d :: nat) \<noteq> CHR ''/''"
  by (auto simp: char_of_eq_iff take_bit_eq_mod dest: arg_cong [of _ _ "of_char :: char \<Rightarrow> nat"])

lemma sanitize_no_slash: "CHR ''/'' \<notin> set (sanitize s)"
  by (auto simp: sanitize_def sanitize_char_def Let_def split: if_splits)

text \<open>C36: A snapshot file name never contains a path separator, whatever the group and the task are
  called, so a stored snapshot cannot escape the snapshot directory.\<close>

theorem file_name_stays_in_directory: "CHR ''/'' \<notin> set (file_name key)"
proof -
  have "CHR ''/'' \<notin> set (show_nat n)" for n
    using show_nat_chars [of "CHR ''/''" n] digit_not_slash by metis
  then have "CHR ''/'' \<notin> set (show_int i)" for i
    by (simp add: show_int_def)
  then show ?thesis
    by (simp add: file_name_def sanitize_no_slash)
qed

text \<open>The file name is not injective: two barrier groups of the same task and epoch can share one file, although
  the documentation of \<^verbatim>\<open>SnapshotKey\<close> says they never do.\<close>

lemma file_name_collision:
  "\<exists>k k'. sk_group k \<noteq> sk_group k' \<and> sk_task k = sk_task k' \<and> sk_epoch k = sk_epoch k' \<and> file_name k = file_name k'"
proof (intro exI conjI)
  let ?k = "\<lparr>sk_task = ''0-1'', sk_group = ''a b'', sk_epoch = 7\<rparr>"
  let ?k' = "\<lparr>sk_task = ''0-1'', sk_group = ''a_b'', sk_epoch = 7\<rparr>"
  show "sk_group ?k \<noteq> sk_group ?k'" "sk_task ?k = sk_task ?k'" "sk_epoch ?k = sk_epoch ?k'"
    by simp_all
  show "file_name ?k = file_name ?k'"
    by code_simp
qed

end
