(* ===== verification/Byte_Store.thy ===== *)
theory Byte_Store
  imports Snapshot_Codec
begin

text \<open>
  \<^verbatim>\<open>store/byte.rs\<close>: the trait \<^verbatim>\<open>ByteKeyValueStore\<close> that every typed store sits on, and its
  in-memory backend.  The trait's contract is the locale \<open>byte_kv\<close>; \<^verbatim>\<open>InMemoryBytes\<close> interprets it
  here, and the write-back caching store interprets it again in \<open>Caching_Store\<close>.  The locale proves,
  once, what clients of the trait rely on: how a changelog replay acts on the contents and that
  restoring a snapshot payload installs exactly the snapshotted entries.

  Functions that take \<^verbatim>\<open>&dyn ByteKeyValueStore\<close> are parameterised by the trait methods they call.
\<close>

section \<open>InMemoryBytes\<close>

type_synonym entries = "(bytes \<times> bytes) list"

record in_memory_bytes =
  imb_map :: "(bytes, bytes) btree"

definition imb_new :: in_memory_bytes where
  "imb_new = \<lparr>imb_map = []\<rparr>"

definition imb_get :: "in_memory_bytes \<Rightarrow> bytes \<Rightarrow> bytes option" where
  "imb_get s key = map_of (imb_map s) key"

definition imb_put :: "bytes \<Rightarrow> bytes \<Rightarrow> in_memory_bytes \<Rightarrow> in_memory_bytes" where
  "imb_put key value s = s\<lparr>imb_map := bt_insert key value (imb_map s)\<rparr>"

definition imb_delete :: "bytes \<Rightarrow> in_memory_bytes \<Rightarrow> bytes option \<times> in_memory_bytes" where
  "imb_delete key s = (map_of (imb_map s) key, s\<lparr>imb_map := bt_remove key (imb_map s)\<rparr>)"

definition imb_range :: "bytes \<Rightarrow> bytes \<Rightarrow> in_memory_bytes \<Rightarrow> entries" where
  "imb_range lo hi s = filter (\<lambda>(k, _). lo \<le> k \<and> k < hi) (imb_map s)"

definition imb_scan_all :: "in_memory_bytes \<Rightarrow> entries" where
  "imb_scan_all s = imb_map s"

definition imb_approx_len :: "in_memory_bytes \<Rightarrow> nat" where
  "imb_approx_len s = length (imb_map s)"

definition imb_clear :: "in_memory_bytes \<Rightarrow> in_memory_bytes" where
  "imb_clear s = s\<lparr>imb_map := []\<rparr>"

definition imb_ok :: "in_memory_bytes \<Rightarrow> bool" where
  "imb_ok s \<longleftrightarrow> bt_ok (imb_map s)"

section \<open>Snapshot and restore over the trait\<close>

definition snapshot_byte_store :: "('s \<Rightarrow> entries) \<Rightarrow> 's \<Rightarrow> bytes option" where
  "snapshot_byte_store scan s = encode_byte_entries (scan s)"

definition restore_byte_store ::
  "('s \<Rightarrow> 's) \<Rightarrow> (bytes \<Rightarrow> bytes \<Rightarrow> 's \<Rightarrow> 's) \<Rightarrow> bytes \<Rightarrow> 's \<Rightarrow> 's result" where
  "restore_byte_store clr put data s =
    (case decode_byte_entries data of
       Inl e \<Rightarrow> Inl e
     | Inr entries \<Rightarrow> Inr (foldl (\<lambda>s (key, value). put key value s) (clr s) entries))"

text \<open>Replaying a changelog: \<^verbatim>\<open>Some\<close> is a put, \<^verbatim>\<open>None\<close> a tombstone.\<close>

definition apply_entry ::
  "(bytes \<Rightarrow> bytes \<Rightarrow> 's \<Rightarrow> 's) \<Rightarrow> (bytes \<Rightarrow> 's \<Rightarrow> bytes option \<times> 's) \<Rightarrow> bytes \<times> bytes option \<Rightarrow> 's \<Rightarrow> 's" where
  "apply_entry put del kv s = (case snd kv of Some v \<Rightarrow> put (fst kv) v s | None \<Rightarrow> snd (del (fst kv) s))"

definition replay ::
  "(bytes \<Rightarrow> bytes \<Rightarrow> 's \<Rightarrow> 's) \<Rightarrow> (bytes \<Rightarrow> 's \<Rightarrow> bytes option \<times> 's) \<Rightarrow> (bytes \<times> bytes option) list \<Rightarrow> 's \<Rightarrow> 's" where
  "replay put del log s = foldl (\<lambda>s kv. apply_entry put del kv s) s log"

text \<open>What a changelog says about a key: its last record, if it has one.\<close>

definition log_view :: "(bytes \<times> bytes option) list \<Rightarrow> bytes \<Rightarrow> bytes option option" where
  "log_view log k = map_of (rev log) k"

lemma log_view_Nil [simp]: "log_view [] k = None"
  by (simp add: log_view_def)

lemma log_view_snoc [simp]: "log_view (log @ [(k, v)]) k' = (if k' = k then Some v else log_view log k')"
  by (simp add: log_view_def)

lemma log_view_append:
  "log_view (log @ log') k = (case log_view log' k of None \<Rightarrow> log_view log k | Some v \<Rightarrow> Some v)"
  by (simp add: log_view_def map_add_def split: option.splits)

section \<open>The trait contract\<close>

locale byte_kv =
  fixes inv :: "'s \<Rightarrow> bool"
    and get :: "'s \<Rightarrow> bytes \<Rightarrow> bytes option"
    and put :: "bytes \<Rightarrow> bytes \<Rightarrow> 's \<Rightarrow> 's"
    and del :: "bytes \<Rightarrow> 's \<Rightarrow> bytes option \<times> 's"
    and scan :: "'s \<Rightarrow> entries"
    and clr :: "'s \<Rightarrow> 's"
  assumes inv_put: "inv s \<Longrightarrow> inv (put k v s)"
    and inv_del: "inv s \<Longrightarrow> inv (snd (del k s))"
    and inv_clr: "inv s \<Longrightarrow> inv (clr s)"
    and get_put: "inv s \<Longrightarrow> get (put k v s) = (get s)(k \<mapsto> v)"
    and get_del: "inv s \<Longrightarrow> get (snd (del k s)) = (get s)(k := None)"
    and del_old: "inv s \<Longrightarrow> fst (del k s) = get s k"
    and get_clr: "inv s \<Longrightarrow> get (clr s) = Map.empty"
    and scan_ok: "inv s \<Longrightarrow> bt_ok (scan s)"
    and scan_get: "inv s \<Longrightarrow> map_of (scan s) = get s"
begin

lemma scan_eqI: "inv s \<Longrightarrow> inv s' \<Longrightarrow> get s = get s' \<Longrightarrow> scan s = scan s'"
  by (rule bt_ext) (simp_all add: scan_ok scan_get)

lemma inv_apply: "inv s \<Longrightarrow> inv (apply_entry put del kv s)"
  by (simp add: apply_entry_def inv_put inv_del split: option.splits)

lemma get_apply: "inv s \<Longrightarrow> get (apply_entry put del (k, ov) s) = (get s)(k := ov)"
  by (simp add: apply_entry_def get_put get_del split: option.splits)

lemma inv_replay: "inv s \<Longrightarrow> inv (replay put del log s)"
  by (induction log rule: rev_induct) (simp_all add: replay_def inv_apply)

lemma replay_view:
  "inv s \<Longrightarrow> get (replay put del log s) k = (case log_view log k of None \<Rightarrow> get s k | Some v \<Rightarrow> v)"
proof (induction log rule: rev_induct)
  case (snoc kv log)
  obtain k' ov where "kv = (k', ov)" by force
  moreover have "inv (replay put del log s)"
    using snoc.prems by (rule inv_replay)
  ultimately show ?case
    using snoc by (simp add: replay_def get_apply)
qed (simp add: replay_def)

lemma puts_view:
  "inv s \<Longrightarrow> inv (foldl (\<lambda>s (k, v). put k v s) s es) \<and>
     get (foldl (\<lambda>s (k, v). put k v s) s es) = get s ++ map_of (rev es)"
proof (induction es rule: rev_induct)
  case (snoc kv es)
  obtain k v where "kv = (k, v)" by force
  then show ?case
    using snoc by (auto simp: inv_put get_put map_add_def fun_eq_iff split: option.splits)
qed simp

lemma restore_scan:
  assumes "inv s" "decode_byte_entries data = Inr es" "bt_ok es"
  shows "\<exists>s'. restore_byte_store clr put data s = Inr s' \<and> inv s' \<and> scan s' = es"
proof -
  define s' where "s' = foldl (\<lambda>s (k, v). put k v s) (clr s) es"
  have "inv (clr s)"
    using assms by (simp add: inv_clr)
  from puts_view [OF this, of es] have s': "inv s'" "get s' = map_of (rev es)"
    by (simp_all add: s'_def get_clr assms)
  moreover have "map_of (rev es) = map_of es"
    using bt_of_list_id [OF assms(3)] map_of_bt_of_list [of es] by simp
  ultimately have "scan s' = es"
    using assms(3) by (intro bt_ext) (simp_all add: scan_ok scan_get)
  then show ?thesis
    using s' assms by (simp add: restore_byte_store_def s'_def)
qed

lemma restore_snapshot:
  assumes "inv s" "inv s0" "snapshot_byte_store scan s = Some data"
  shows "\<exists>s'. restore_byte_store clr put data s0 = Inr s' \<and> inv s' \<and> scan s' = scan s"
  using assms restore_scan [of s0 data "scan s"]
  by (simp add: snapshot_byte_store_def decode_encode_byte_entries scan_ok)

end

lemmas imb_defs = imb_get_def imb_put_def imb_delete_def imb_range_def imb_scan_all_def imb_clear_def
  imb_ok_def imb_new_def imb_approx_len_def

interpretation imb: byte_kv imb_ok imb_get imb_put imb_delete imb_scan_all imb_clear
  by unfold_locales (simp_all add: imb_defs fun_eq_iff)

lemma imb_new_ok [simp]: "imb_ok imb_new"
  by (simp add: imb_defs)

lemma imb_range_bt: "imb_range lo hi s = bt_range lo hi (imb_scan_all s)"
  by (simp add: imb_defs bt_range_def)

lemma imb_scan_inj: "imb_scan_all s = imb_scan_all s' \<Longrightarrow> s = s'"
  by (simp add: imb_defs)

end
