(* ===== verification/Record_Cache.thy ===== *)
theory Record_Cache
  imports Byte_Store
begin

text \<open>
  \<^verbatim>\<open>store/cache/entry.rs\<close>, \<^verbatim>\<open>store/cache/named.rs\<close> and \<^verbatim>\<open>store/cache/thread.rs\<close>: the record cache.

  \<^verbatim>\<open>NamedCache\<close> keeps its entries in an ordered map and threads a doubly linked LRU list through the
  nodes by storing predecessor and successor \<^emph>\<open>keys\<close>; dirty keys sit in a second map under an insertion
  counter.  The model keeps exactly that representation.  \<open>nc_ok\<close> is its invariant, preserved by every
  operation; \<open>nc_abs\<close> reads off the abstract cache (recency list, contents, dirty list), and every
  operation is shown to refine the obvious list operation on it.

  A callback \<^verbatim>\<open>FlushListener\<close> is modelled by the list of its invocations, in call order.
\<close>

section \<open>Entries\<close>

record record_context =
  rc_topic :: string
  rc_partition :: int
  rc_offset :: int
  rc_timestamp :: int

record lru_cache_entry =
  le_value :: "bytes option"
  le_dirty :: bool
  le_context :: record_context

definition lru_entry_new :: "bytes option \<Rightarrow> bool \<Rightarrow> record_context \<Rightarrow> lru_cache_entry" where
  "lru_entry_new v d ctx = \<lparr>le_value = v, le_dirty = d, le_context = ctx\<rparr>"

definition value_size :: "lru_cache_entry \<Rightarrow> nat" where
  "value_size e =
    (let v = (case le_value e of None \<Rightarrow> 0 | Some b \<Rightarrow> length b) in
     v + 8 + 8 + 4 + length (rc_topic (le_context e)))"

section \<open>NamedCache\<close>

record node =
  nd_entry :: lru_cache_entry
  nd_prev :: "bytes option"
  nd_next :: "bytes option"
  nd_dirty_seq :: "nat option"

record named_cache =
  nc_name :: string
  nc_map :: "(bytes, node) btree"
  nc_head :: "bytes option"
  nc_tail :: "bytes option"
  nc_dirty :: "(nat, bytes) btree"
  nc_next_dirty_seq :: nat
  nc_size_bytes :: nat

definition nc_new :: "string \<Rightarrow> named_cache" where
  "nc_new name = \<lparr>nc_name = name, nc_map = [], nc_head = None, nc_tail = None, nc_dirty = [],
     nc_next_dirty_seq = 0, nc_size_bytes = 0\<rparr>"

definition nc_len :: "named_cache \<Rightarrow> nat" where
  "nc_len c = length (nc_map c)"

definition nc_get :: "bytes \<Rightarrow> named_cache \<Rightarrow> lru_cache_entry option" where
  "nc_get key c = map_option nd_entry (map_of (nc_map c) key)"

text \<open>\<^verbatim>\<open>BTreeMap::range\<close> with an included lower and an excluded upper bound panics when the lower bound is
  above the upper one.\<close>

definition nc_range :: "bytes \<Rightarrow> bytes \<Rightarrow> named_cache \<Rightarrow> (bytes \<times> lru_cache_entry) list option" where
  "nc_range lo hi c =
    (if hi < lo then None
     else Some (map (\<lambda>(k, n). (k, nd_entry n)) (bt_range lo hi (nc_map c))))"

definition nc_all :: "named_cache \<Rightarrow> (bytes \<times> lru_cache_entry) list" where
  "nc_all c = map (\<lambda>(k, n). (k, nd_entry n)) (nc_map c)"

text \<open>\<^verbatim>\<open>if let Some(node) = self.map.get_mut(k)\<close>.\<close>

definition upd_node :: "bytes \<Rightarrow> (node \<Rightarrow> node) \<Rightarrow> named_cache \<Rightarrow> named_cache" where
  "upd_node k f c =
    (case map_of (nc_map c) k of
       None \<Rightarrow> c
     | Some n \<Rightarrow> c\<lparr>nc_map := bt_insert k (f n) (nc_map c)\<rparr>)"

text \<open>\<^verbatim>\<open>unlink\<close> indexes the map first and panics on an absent key.  \<open>nc_put\<close> and \<open>nc_get_promote\<close> call it
  on a key they have just found; \<open>nc_evict\<close> has the panic in its own result.\<close>

definition nc_unlink :: "bytes \<Rightarrow> named_cache \<Rightarrow> named_cache" where
  "nc_unlink key c =
    (case map_of (nc_map c) key of
       None \<Rightarrow> c
     | Some node \<Rightarrow>
        let prev = nd_prev node; next = nd_next node;
            c1 = (case prev of
                    Some p \<Rightarrow> upd_node p (\<lambda>pn. pn\<lparr>nd_next := next\<rparr>) c
                  | None \<Rightarrow> c\<lparr>nc_head := next\<rparr>);
            c2 = (case next of
                    Some n \<Rightarrow> upd_node n (\<lambda>nn. nn\<lparr>nd_prev := prev\<rparr>) c1
                  | None \<Rightarrow> c1\<lparr>nc_tail := prev\<rparr>)
        in upd_node key (\<lambda>n. n\<lparr>nd_prev := None, nd_next := None\<rparr>) c2)"

definition nc_link_at_tail :: "bytes \<Rightarrow> named_cache \<Rightarrow> named_cache" where
  "nc_link_at_tail key c =
    (let old_tail = nc_tail c;
         c1 = upd_node key (\<lambda>n. n\<lparr>nd_prev := old_tail, nd_next := None\<rparr>) c;
         c2 = (case old_tail of
                 Some t \<Rightarrow> upd_node t (\<lambda>tn. tn\<lparr>nd_next := Some key\<rparr>) c1
               | None \<Rightarrow> c1\<lparr>nc_head := Some key\<rparr>)
     in c2\<lparr>nc_tail := Some key\<rparr>)"

definition nc_get_promote :: "bytes \<Rightarrow> named_cache \<Rightarrow> lru_cache_entry option \<times> named_cache" where
  "nc_get_promote key c =
    (if map_of (nc_map c) key \<noteq> None
     then let c' = nc_link_at_tail key (nc_unlink key c) in (nc_get key c', c')
     else (None, c))"

definition nc_alloc_dirty_seq :: "named_cache \<Rightarrow> nat \<times> named_cache" where
  "nc_alloc_dirty_seq c = (nc_next_dirty_seq c, c\<lparr>nc_next_dirty_seq := nc_next_dirty_seq c + 1\<rparr>)"

text \<open>The update branch of \<^verbatim>\<open>put\<close> up to the relinking.  A key that is already dirty keeps its position in the
  dirty order.\<close>

definition put_update :: "bytes \<Rightarrow> lru_cache_entry \<Rightarrow> node \<Rightarrow> named_cache \<Rightarrow> named_cache" where
  "put_update key entry node c =
    (let c1 = c\<lparr>nc_size_bytes := nc_size_bytes c - value_size (nd_entry node) + value_size entry\<rparr>;
         old_seq = nd_dirty_seq node;
         c2 = upd_node key (\<lambda>n. n\<lparr>nd_entry := entry\<rparr>) c1
     in case (old_seq, le_dirty entry) of
          (None, True) \<Rightarrow>
            let (seq, c') = nc_alloc_dirty_seq c2 in
            upd_node key (\<lambda>n. n\<lparr>nd_dirty_seq := Some seq\<rparr>)
              (c'\<lparr>nc_dirty := bt_insert seq key (nc_dirty c')\<rparr>)
        | (Some seq, False) \<Rightarrow>
            upd_node key (\<lambda>n. n\<lparr>nd_dirty_seq := None\<rparr>)
              (c2\<lparr>nc_dirty := bt_remove seq (nc_dirty c2)\<rparr>)
        | _ \<Rightarrow> c2)"

definition put_insert :: "bytes \<Rightarrow> lru_cache_entry \<Rightarrow> named_cache \<Rightarrow> named_cache" where
  "put_insert key entry c =
    (let c1 = c\<lparr>nc_size_bytes := nc_size_bytes c + (length key + value_size entry)\<rparr>;
         (dirty_seq, c2) =
           (if le_dirty entry
            then let (seq, c') = nc_alloc_dirty_seq c1 in
                 (Some seq, c'\<lparr>nc_dirty := bt_insert seq key (nc_dirty c')\<rparr>)
            else (None, c1));
         node = \<lparr>nd_entry = entry, nd_prev = None, nd_next = None, nd_dirty_seq = dirty_seq\<rparr>
     in c2\<lparr>nc_map := bt_insert key node (nc_map c2)\<rparr>)"

definition nc_put :: "bytes \<Rightarrow> lru_cache_entry \<Rightarrow> named_cache \<Rightarrow> named_cache" where
  "nc_put key entry c =
    (case map_of (nc_map c) key of
       Some node \<Rightarrow> nc_link_at_tail key (nc_unlink key (put_update key entry node c))
     | None \<Rightarrow> nc_link_at_tail key (put_insert key entry c))"

definition nc_delete :: "bytes \<Rightarrow> record_context \<Rightarrow> named_cache \<Rightarrow> named_cache" where
  "nc_delete key ctx c = nc_put key (lru_entry_new None True ctx) c"

definition clear_dirty :: "bytes \<Rightarrow> named_cache \<Rightarrow> named_cache" where
  "clear_dirty key c =
     upd_node key (\<lambda>n. n\<lparr>nd_entry := (nd_entry n)\<lparr>le_dirty := False\<rparr>, nd_dirty_seq := None\<rparr>) c"

definition nc_flush :: "named_cache \<Rightarrow> (bytes \<times> lru_cache_entry) list \<times> named_cache" where
  "nc_flush c =
    (let order = map snd (nc_dirty c);
         visited = concat (map (\<lambda>k. case map_of (nc_map c) k of
                                       None \<Rightarrow> [] | Some n \<Rightarrow> [(k, nd_entry n)]) order);
         c1 = foldl (\<lambda>c k. clear_dirty k c) c order
     in (visited, c1\<lparr>nc_dirty := []\<rparr>))"

text \<open>The result of \<^verbatim>\<open>evict\<close>: the bytes freed, the listener calls, the cache; \<^term>\<open>None\<close> is the panic of
  \<^verbatim>\<open>self.map[&key]\<close> on a dangling head.\<close>

definition nc_evict :: "named_cache \<Rightarrow> (nat \<times> (bytes \<times> lru_cache_entry) list \<times> named_cache) option" where
  "nc_evict c =
    (case nc_head c of
       None \<Rightarrow> Some (0, [], c)
     | Some key \<Rightarrow>
        (case map_of (nc_map c) key of
           None \<Rightarrow> None
         | Some node \<Rightarrow>
            let calls = (if le_dirty (nd_entry node) then [(key, nd_entry node)] else []);
                freed = length key + value_size (nd_entry node);
                c1 = nc_unlink key c;
                removed = map_of (nc_map c1) key;
                c2 = c1\<lparr>nc_map := bt_remove key (nc_map c1)\<rparr>;
                c3 = (case removed of
                        Some n \<Rightarrow> (case nd_dirty_seq n of
                                     Some seq \<Rightarrow> c2\<lparr>nc_dirty := bt_remove seq (nc_dirty c2)\<rparr>
                                   | None \<Rightarrow> c2)
                      | None \<Rightarrow> c2)
            in Some (freed, calls, c3\<lparr>nc_size_bytes := nc_size_bytes c3 - freed\<rparr>)))"

section \<open>ThreadCache\<close>

text \<open>The \<^verbatim>\<open>HashMap\<close> of caches is kept sorted by name: its only uses are lookups, a sum and a scan over the
  sorted names.\<close>

record thread_cache =
  tc_caches :: "(string, named_cache) btree"
  tc_max_bytes :: nat

definition tc_new :: "nat \<Rightarrow> thread_cache" where
  "tc_new max_bytes = \<lparr>tc_caches = [], tc_max_bytes = max_bytes\<rparr>"

definition tc_enabled :: "thread_cache \<Rightarrow> bool" where
  "tc_enabled tc \<longleftrightarrow> tc_max_bytes tc > 0"

definition tc_register :: "string \<Rightarrow> thread_cache \<Rightarrow> thread_cache" where
  "tc_register name tc =
    (if map_of (tc_caches tc) name = None
     then tc\<lparr>tc_caches := bt_insert name (nc_new name) (tc_caches tc)\<rparr> else tc)"

definition tc_total_bytes :: "thread_cache \<Rightarrow> nat" where
  "tc_total_bytes tc = bt_sum (\<lambda>_ c. nc_size_bytes c) (tc_caches tc)"

text \<open>One round of the eviction loop: the first non-empty cache in name order evicts its LRU entry.
  \<^term>\<open>None\<close> when no cache evicted anything; the inner option is the panic of \<^verbatim>\<open>evict\<close>.\<close>

fun tc_evict_round ::
  "(string, named_cache) btree \<Rightarrow> ((string \<times> bytes \<times> lru_cache_entry) list \<times> (string, named_cache) btree) option option" where
  "tc_evict_round [] = None"
| "tc_evict_round ((name, c) # cs) =
    (if nc_len c = 0
     then map_option (map_option (\<lambda>(calls, cs'). (calls, (name, c) # cs'))) (tc_evict_round cs)
     else Some (case nc_evict c of
                  None \<Rightarrow> None
                | Some (_, calls, c') \<Rightarrow> Some (map (\<lambda>(k, e). (name, k, e)) calls, (name, c') # cs)))"

partial_function (option) tc_maybe_evict ::
  "thread_cache \<Rightarrow> (string \<times> bytes \<times> lru_cache_entry) list \<Rightarrow>
     ((string \<times> bytes \<times> lru_cache_entry) list \<times> thread_cache) option" where
  "tc_maybe_evict tc calls =
    (if tc_max_bytes tc < tc_total_bytes tc
     then (case tc_evict_round (tc_caches tc) of
             None \<Rightarrow> Some (calls, tc)
           | Some None \<Rightarrow> None
           | Some (Some (calls', cs)) \<Rightarrow> tc_maybe_evict (tc\<lparr>tc_caches := cs\<rparr>) (calls @ calls'))
     else Some (calls, tc))"

section \<open>The abstract cache\<close>

record abs_cache =
  ac_order :: "bytes list"
  ac_entries :: "bytes \<Rightarrow> lru_cache_entry option"
  ac_dirty :: "bytes list"

definition abs_put :: "bytes \<Rightarrow> lru_cache_entry \<Rightarrow> abs_cache \<Rightarrow> abs_cache" where
  "abs_put k e a = a\<lparr>ac_order := removeAll k (ac_order a) @ [k], ac_entries := (ac_entries a)(k \<mapsto> e),
     ac_dirty := (if \<not> le_dirty e then removeAll k (ac_dirty a)
                  else if k \<in> set (ac_dirty a) then ac_dirty a else ac_dirty a @ [k])\<rparr>"

definition abs_promote :: "bytes \<Rightarrow> abs_cache \<Rightarrow> abs_cache" where
  "abs_promote k a =
    (if ac_entries a k = None then a else a\<lparr>ac_order := removeAll k (ac_order a) @ [k]\<rparr>)"

definition abs_flush :: "abs_cache \<Rightarrow> (bytes \<times> lru_cache_entry) list \<times> abs_cache" where
  "abs_flush a =
    (map (\<lambda>k. (k, the (ac_entries a k))) (ac_dirty a),
     a\<lparr>ac_entries := (\<lambda>k. map_option (\<lambda>e. e\<lparr>le_dirty := False\<rparr>) (ac_entries a k)), ac_dirty := []\<rparr>)"

definition abs_evict :: "abs_cache \<Rightarrow> nat \<times> (bytes \<times> lru_cache_entry) list \<times> abs_cache" where
  "abs_evict a =
    (case ac_order a of
       [] \<Rightarrow> (0, [], a)
     | k # ks \<Rightarrow>
        let e = the (ac_entries a k) in
        (length k + value_size e, if le_dirty e then [(k, e)] else [],
         a\<lparr>ac_order := ks, ac_entries := (ac_entries a)(k := None), ac_dirty := removeAll k (ac_dirty a)\<rparr>))"

text \<open>Reading the abstract cache off the representation: the recency list is the chain of successor
  links from the head.\<close>

fun lru_walk :: "nat \<Rightarrow> (bytes \<Rightarrow> node option) \<Rightarrow> bytes option \<Rightarrow> bytes list" where
  "lru_walk 0 m k = []"
| "lru_walk (Suc n) m None = []"
| "lru_walk (Suc n) m (Some k) =
    (case m k of None \<Rightarrow> [] | Some nd \<Rightarrow> k # lru_walk n m (nd_next nd))"

definition lru_order :: "named_cache \<Rightarrow> bytes list" where
  "lru_order c = lru_walk (length (nc_map c)) (map_of (nc_map c)) (nc_head c)"

definition nc_abs :: "named_cache \<Rightarrow> abs_cache" where
  "nc_abs c = \<lparr>ac_order = lru_order c, ac_entries = (\<lambda>k. nc_get k c), ac_dirty = map snd (nc_dirty c)\<rparr>"

section \<open>The invariant\<close>

fun first_or :: "'a list \<Rightarrow> 'a option \<Rightarrow> 'a option" where
  "first_or [] q = q"
| "first_or (k # ks) q = Some k"

fun last_or :: "'a option \<Rightarrow> 'a list \<Rightarrow> 'a option" where
  "last_or p [] = p"
| "last_or p (k # ks) = last_or (Some k) ks"

text \<open>\<open>seg m p ks q\<close>: in the node map \<open>m\<close> the keys \<open>ks\<close> are doubly linked in this order, the first one's
  predecessor being \<open>p\<close> and the last one's successor \<open>q\<close>.\<close>

fun seg :: "(bytes \<Rightarrow> node option) \<Rightarrow> bytes option \<Rightarrow> bytes list \<Rightarrow> bytes option \<Rightarrow> bool" where
  "seg m p [] q = True"
| "seg m p (k # ks) q =
    (case m k of None \<Rightarrow> False
     | Some n \<Rightarrow> nd_prev n = p \<and> nd_next n = first_or ks q \<and> seg m (Some k) ks q)"

definition lru :: "named_cache \<Rightarrow> bytes list \<Rightarrow> bool" where
  "lru c ks \<longleftrightarrow> distinct ks \<and> nc_head c = first_or ks None \<and> nc_tail c = last_or None ks \<and>
     seg (map_of (nc_map c)) None ks None"

definition nc_seq :: "named_cache \<Rightarrow> bytes \<Rightarrow> nat option" where
  "nc_seq c k = Option.bind (map_of (nc_map c) k) nd_dirty_seq"

definition dirty_ok :: "named_cache \<Rightarrow> bool" where
  "dirty_ok c \<longleftrightarrow> bt_ok (nc_dirty c) \<and>
     (\<forall>(s, k) \<in> set (nc_dirty c). nc_seq c k = Some s \<and> s < nc_next_dirty_seq c) \<and>
     (\<forall>(k, n) \<in> set (nc_map c). (le_dirty (nd_entry n) \<longleftrightarrow> nd_dirty_seq n \<noteq> None) \<and>
        (case nd_dirty_seq n of None \<Rightarrow> True | Some s \<Rightarrow> map_of (nc_dirty c) s = Some k))"

definition entry_bytes_of :: "bytes \<Rightarrow> lru_cache_entry \<Rightarrow> nat" where
  "entry_bytes_of k e = length k + value_size e"

definition nc_ok :: "named_cache \<Rightarrow> bool" where
  "nc_ok c \<longleftrightarrow> bt_ok (nc_map c) \<and>
     lru c (lru_order c) \<and> set (lru_order c) = fst ` set (nc_map c) \<and>
     dirty_ok c \<and> nc_size_bytes c = bt_sum entry_bytes_of (nc_all c)"

section \<open>Linked segments\<close>

lemma seg_append [simp]:
  "seg m p (xs @ ys) q \<longleftrightarrow> seg m p xs (first_or ys q) \<and> seg m (last_or p xs) ys q"
proof (induction xs arbitrary: p)
  case (Cons x xs)
  then show ?case
    by (cases xs) (auto split: option.splits)
qed simp

lemma seg_frame [simp]: "k \<notin> set ks \<Longrightarrow> seg (m(k := x)) p ks q = seg m p ks q"
  by (induction ks arbitrary: p) (auto split: option.splits)

lemma seg_dom: "seg m p ks q \<Longrightarrow> k \<in> set ks \<Longrightarrow> m k \<noteq> None"
  by (induction ks arbitrary: p) (auto split: option.splits)

lemma seg_cong:
  "(\<And>k. k \<in> set ks \<Longrightarrow> map_option (\<lambda>n. (nd_prev n, nd_next n)) (m' k) = map_option (\<lambda>n. (nd_prev n, nd_next n)) (m k)) \<Longrightarrow>
   seg m' p ks q = seg m p ks q"
proof (induction ks arbitrary: p)
  case (Cons k ks)
  have "map_option (\<lambda>n. (nd_prev n, nd_next n)) (m' k) = map_option (\<lambda>n. (nd_prev n, nd_next n)) (m k)"
    using Cons.prems by simp
  then show ?case
    using Cons by (cases "m k"; cases "m' k") auto
qed simp

lemma last_or_append [simp]: "last_or p (xs @ ys) = last_or (last_or p xs) ys"
  by (induction xs arbitrary: p) auto

lemma first_or_append [simp]: "first_or (xs @ ys) q = first_or xs (first_or ys q)"
  by (cases xs) auto

lemma last_or_snoc_cases: "last_or p ks = (if ks = [] then p else Some (last ks))"
  by (induction p ks rule: last_or.induct) auto

lemma seg_walk:
  "seg m p ks None \<Longrightarrow> length ks \<le> n \<Longrightarrow> lru_walk n m (first_or ks None) = ks"
proof (induction ks arbitrary: p n)
  case Nil
  then show ?case
    by (cases n) auto
next
  case (Cons k ks)
  then show ?case
    by (cases n) (auto split: option.splits)
qed

lemma lru_order_eq:
  assumes "lru c ks" "set ks = fst ` set (nc_map c)"
  shows "lru_order c = ks"
proof -
  have "length ks = card (fst ` set (nc_map c))"
    using assms by (metis distinct_card lru_def)
  also have "\<dots> \<le> length (nc_map c)"
    by (metis card_length length_map set_map)
  finally show ?thesis
    using assms(1) seg_walk unfolding lru_order_def lru_def by metis
qed

section \<open>Link surgery\<close>

lemma map_of_upd_node [simp]:
  "map_of (nc_map (upd_node k f c)) = (map_of (nc_map c))(k := map_option f (map_of (nc_map c) k))"
  by (auto simp: upd_node_def fun_eq_iff split: option.splits)

lemma upd_node_fields [simp]:
  "nc_head (upd_node k f c) = nc_head c" "nc_tail (upd_node k f c) = nc_tail c"
  "nc_dirty (upd_node k f c) = nc_dirty c" "nc_name (upd_node k f c) = nc_name c"
  "nc_next_dirty_seq (upd_node k f c) = nc_next_dirty_seq c"
  "nc_size_bytes (upd_node k f c) = nc_size_bytes c"
  by (simp_all add: upd_node_def split: option.splits)

lemma upd_node_ok [simp]: "bt_ok (nc_map c) \<Longrightarrow> bt_ok (nc_map (upd_node k f c))"
  by (simp add: upd_node_def split: option.splits)

lemma upd_node_keys [simp]: "fst ` set (nc_map (upd_node k f c)) = fst ` set (nc_map c)"
  by (force simp: upd_node_def split: option.splits dest: map_of_SomeD)

lemma seg_set_next:
  "seg m p (ks @ [k]) q \<Longrightarrow> k \<notin> set ks \<Longrightarrow>
   seg (m(k := map_option (nd_next_update (\<lambda>_. q')) (m k))) p (ks @ [k]) q'"
  by (auto split: option.splits)

lemma seg_set_prev:
  "seg m p (k # ks) q \<Longrightarrow> k \<notin> set ks \<Longrightarrow>
   seg (m(k := map_option (nd_prev_update (\<lambda>_. p')) (m k))) p' (k # ks) q"
  by (auto split: option.splits)

lemma lru_unlink:
  assumes "lru c (xs @ k # ys)"
  shows "lru (nc_unlink k c) (xs @ ys)"
proof -
  let ?m = "map_of (nc_map c)"
  obtain n where n: "?m k = Some n" "nd_prev n = last_or None xs" "nd_next n = first_or ys None"
    and dist: "distinct (xs @ k # ys)" and hd: "nc_head c = first_or (xs @ [k]) None"
    and tl: "nc_tail c = last_or None (k # ys)" and xs: "seg ?m None xs (Some k)"
    and ys: "seg ?m (Some k) ys None"
    using assms by (auto simp: lru_def split: option.splits)
  define f where "f = (if ys = [] then ?m else ?m(hd ys := map_option (nd_prev_update (\<lambda>_. last_or None xs)) (?m (hd ys))))"
  have ys': "seg f (last_or None xs) ys None"
    using ys dist seg_set_prev [of ?m "Some k" "hd ys" "tl ys" None "last_or None xs"]
    by (cases ys) (simp_all add: f_def)
  have xs': "seg f None xs (Some k)"
    using xs dist by (cases ys) (simp_all add: f_def)
  define g where "g = (if xs = [] then f else f(last xs := map_option (nd_next_update (\<lambda>_. first_or ys None)) (f (last xs))))"
  have "seg g None xs (first_or ys None)"
    using xs' dist seg_set_next [of f None "butlast xs" "last xs" "Some k" "first_or ys None"]
    by (cases xs rule: rev_cases) (simp_all add: g_def)
  moreover have "seg g (last_or None xs) ys None"
    using ys' dist by (cases xs rule: rev_cases) (simp_all add: g_def)
  moreover have "seg (map_of (nc_map (nc_unlink k c))) None (xs @ ys) None = seg g None (xs @ ys) None"
  proof (rule seg_cong)
    fix k'
    assume "k' \<in> set (xs @ ys)"
    then show "map_option (\<lambda>n. (nd_prev n, nd_next n)) (map_of (nc_map (nc_unlink k c)) k') =
               map_option (\<lambda>n. (nd_prev n, nd_next n)) (g k')"
      using dist n by (cases xs rule: rev_cases; cases ys)
        (auto simp: nc_unlink_def Let_def f_def g_def option.map_comp comp_def)
  qed
  moreover have "nc_head (nc_unlink k c) = first_or (xs @ ys) None"
    using n hd by (cases xs rule: rev_cases; cases ys) (auto simp: nc_unlink_def Let_def)
  moreover have "nc_tail (nc_unlink k c) = last_or None (xs @ ys)"
    using n tl by (cases xs rule: rev_cases; cases ys) (auto simp: nc_unlink_def Let_def)
  ultimately show ?thesis
    using dist by (simp add: lru_def)
qed

lemma lru_link_at_tail:
  assumes "lru c ks" "k \<notin> set ks" "map_of (nc_map c) k \<noteq> None"
  shows "lru (nc_link_at_tail k c) (ks @ [k])"
proof -
  let ?m = "map_of (nc_map c)"
  have ks: "seg ?m None ks None" "distinct ks" "nc_head c = first_or ks None" "nc_tail c = last_or None ks"
    using assms by (auto simp: lru_def)
  let ?m1 = "?m(k := map_option (\<lambda>n. n\<lparr>nd_prev := last_or None ks, nd_next := None\<rparr>) (?m k))"
  define g where "g = (if ks = [] then ?m1 else ?m1(last ks := map_option (nd_next_update (\<lambda>_. Some k)) (?m1 (last ks))))"
  have "seg g None ks (Some k)"
    using ks assms(2)
    by (cases ks rule: rev_cases) (auto simp: g_def split: option.splits)
  moreover have "seg g (last_or None ks) [k] None"
    using assms by (cases ks rule: rev_cases) (auto simp: g_def)
  moreover have "map_of (nc_map (nc_link_at_tail k c)) = g"
    using ks by (cases ks rule: rev_cases) (simp_all add: nc_link_at_tail_def Let_def g_def)
  moreover have "nc_head (nc_link_at_tail k c) = first_or (ks @ [k]) None"
    using ks by (cases ks rule: rev_cases) (simp_all add: nc_link_at_tail_def Let_def)
  moreover have "nc_tail (nc_link_at_tail k c) = Some k"
    by (simp add: nc_link_at_tail_def Let_def split: option.splits)
  ultimately show ?thesis
    using ks assms(2) by (simp add: lru_def)
qed

text \<open>Link surgery leaves keys, entries and dirty numbers alone.\<close>

lemma unlink_fields [simp]:
  "nc_dirty (nc_unlink k c) = nc_dirty c" "nc_name (nc_unlink k c) = nc_name c"
  "nc_next_dirty_seq (nc_unlink k c) = nc_next_dirty_seq c"
  "nc_size_bytes (nc_unlink k c) = nc_size_bytes c"
  "fst ` set (nc_map (nc_unlink k c)) = fst ` set (nc_map c)"
  "bt_ok (nc_map c) \<Longrightarrow> bt_ok (nc_map (nc_unlink k c))"
  by (simp_all add: nc_unlink_def Let_def split: option.splits)

lemma link_fields [simp]:
  "nc_dirty (nc_link_at_tail k c) = nc_dirty c" "nc_name (nc_link_at_tail k c) = nc_name c"
  "nc_next_dirty_seq (nc_link_at_tail k c) = nc_next_dirty_seq c"
  "nc_size_bytes (nc_link_at_tail k c) = nc_size_bytes c"
  "fst ` set (nc_map (nc_link_at_tail k c)) = fst ` set (nc_map c)"
  "bt_ok (nc_map c) \<Longrightarrow> bt_ok (nc_map (nc_link_at_tail k c))"
  by (simp_all add: nc_link_at_tail_def Let_def split: option.splits)

definition core :: "node \<Rightarrow> lru_cache_entry \<times> nat option" where
  "core n = (nd_entry n, nd_dirty_seq n)"

lemma core_unlink [simp]:
  "map_option core (map_of (nc_map (nc_unlink k c)) k') = map_option core (map_of (nc_map c) k')"
  by (auto simp: nc_unlink_def Let_def core_def [abs_def] option.map_comp comp_def split: option.splits)

lemma core_link [simp]:
  "map_option core (map_of (nc_map (nc_link_at_tail k c)) k') = map_option core (map_of (nc_map c) k')"
  by (auto simp: nc_link_at_tail_def Let_def core_def [abs_def] option.map_comp comp_def split: option.splits)

section \<open>Dirty tracking\<close>

abbreviation cores :: "named_cache \<Rightarrow> bytes \<Rightarrow> (lru_cache_entry \<times> nat option) option" where
  "cores c \<equiv> \<lambda>k. map_option core (map_of (nc_map c) k)"

definition tracks :: "(nat, bytes) btree \<Rightarrow> nat \<Rightarrow> (bytes \<Rightarrow> (lru_cache_entry \<times> nat option) option) \<Rightarrow> bool" where
  "tracks D nx r \<longleftrightarrow> bt_ok D \<and>
     (\<forall>s k. map_of D s = Some k \<longrightarrow> (\<exists>e. r k = Some (e, Some s)) \<and> s < nx) \<and>
     (\<forall>k e sq. r k = Some (e, sq) \<longrightarrow>
        (le_dirty e \<longleftrightarrow> sq \<noteq> None) \<and> (\<forall>s. sq = Some s \<longrightarrow> map_of D s = Some k))"

lemma dirty_ok_tracks:
  assumes "bt_ok (nc_map c)"
  shows "dirty_ok c \<longleftrightarrow> tracks (nc_dirty c) (nc_next_dirty_seq c) (cores c)"
proof -
  have seq: "nc_seq c k = Some s \<longleftrightarrow> (\<exists>e. cores c k = Some (e, Some s))" for k s
    by (cases "map_of (nc_map c) k") (auto simp: nc_seq_def core_def)
  have nodes: "(\<forall>(k, n) \<in> set (nc_map c). P k (nd_entry n) (nd_dirty_seq n)) \<longleftrightarrow>
        (\<forall>k e sq. cores c k = Some (e, sq) \<longrightarrow> P k e sq)" for P
    using assms by (auto simp: core_def bt_ok_map_of_iff [symmetric])
  have dirt: "(\<forall>(s, k) \<in> set (nc_dirty c). Q s k) \<longleftrightarrow> (\<forall>s k. map_of (nc_dirty c) s = Some k \<longrightarrow> Q s k)"
    if "bt_ok (nc_dirty c)" for Q
    using that by (auto simp: bt_ok_map_of_iff)
  have opt: "(case sq of None \<Rightarrow> True | Some s \<Rightarrow> X s) \<longleftrightarrow> (\<forall>s. sq = Some s \<longrightarrow> X s)" for sq :: "nat option" and X
    by (cases sq) auto
  show ?thesis
    unfolding dirty_ok_def tracks_def opt
    by (intro conj_cong refl)
       (simp only: dirt seq, simp only: nodes [of "\<lambda>k e sq. (le_dirty e \<longleftrightarrow> sq \<noteq> None) \<and> (\<forall>s. sq = Some s \<longrightarrow> map_of (nc_dirty c) s = Some k)"])
qed

lemma tracksD:
  assumes "tracks D nx r"
  shows "bt_ok D"
    and "map_of D s = Some k \<Longrightarrow> \<exists>e. r k = Some (e, Some s)"
    and "map_of D s = Some k \<Longrightarrow> s < nx"
    and "r k = Some (e, sq) \<Longrightarrow> le_dirty e \<longleftrightarrow> sq \<noteq> None"
    and "r k = Some (e, Some s) \<Longrightarrow> map_of D s = Some k"
  using assms unfolding tracks_def by blast+

lemma tracksI:
  assumes "bt_ok D"
    and "\<And>s k. map_of D s = Some k \<Longrightarrow> \<exists>e. r k = Some (e, Some s)"
    and "\<And>s k. map_of D s = Some k \<Longrightarrow> s < nx"
    and "\<And>k e sq. r k = Some (e, sq) \<Longrightarrow> le_dirty e \<longleftrightarrow> sq \<noteq> None"
    and "\<And>k e s. r k = Some (e, Some s) \<Longrightarrow> map_of D s = Some k"
  shows "tracks D nx r"
  using assms unfolding tracks_def by blast

lemma tracks_member:
  assumes "tracks D nx r"
  shows "k \<in> set (map snd D) \<longleftrightarrow> (\<exists>e s. r k = Some (e, Some s))"
proof
  assume "k \<in> set (map snd D)"
  then obtain s where "(s, k) \<in> set D" by auto
  then have "map_of D s = Some k"
    using tracksD(1) [OF assms] by (simp add: bt_ok_map_of_iff)
  then show "\<exists>e s. r k = Some (e, Some s)"
    using tracksD(2) [OF assms] by blast
next
  assume "\<exists>e s. r k = Some (e, Some s)"
  then obtain s where "map_of D s = Some k"
    using tracksD(5) [OF assms] by blast
  then show "k \<in> set (map snd D)"
    by (force dest: map_of_SomeD)
qed

lemma bt_insert_last:
  "\<forall>k' \<in> fst ` set m. k' < k \<Longrightarrow> bt_insert k v m = m @ [(k, v)]"
  by (induction k v m rule: bt_insert.induct) auto

lemma tracks_fresh:
  assumes t: "tracks D nx r" and k: "\<And>e' s. r k \<noteq> Some (e', Some s)" and d: "le_dirty e"
  shows "tracks (bt_insert nx k D) (Suc nx) (r(k \<mapsto> (e, Some nx)))" "bt_insert nx k D = D @ [(nx, k)]"
proof -
  have less: "\<forall>s \<in> fst ` set D. s < nx"
    using tracksD(1,3) [OF t] by (auto simp: bt_ok_map_of_iff)
  then show "bt_insert nx k D = D @ [(nx, k)]"
    by (rule bt_insert_last)
  have no_nx: "map_of D nx = None"
    using less by (force simp: map_of_eq_None_iff)
  have notk: "map_of D s \<noteq> Some k" for s
    using tracksD(2) [OF t] k by blast
  show "tracks (bt_insert nx k D) (Suc nx) (r(k \<mapsto> (e, Some nx)))"
    using tracksD(1) [OF t] d no_nx notk
    by (intro tracksI) (auto dest: tracksD(2-) [OF t] split: if_splits simp: less_Suc_eq)
qed

lemma tracks_keep:
  assumes "tracks D nx r" "r k = Some (e', Some s)" "le_dirty e"
  shows "tracks D nx (r(k \<mapsto> (e, Some s)))"
  using tracksD [OF assms(1)] assms(2,3) by (intro tracksI) (fastforce split: if_splits)+

lemma tracks_not_listed:
  "tracks D nx r \<Longrightarrow> (\<And>e' s. r k \<noteq> Some (e', Some s)) \<Longrightarrow> map_of D s \<noteq> Some k"
  using tracksD(2) by blast

lemma tracks_clean:
  assumes t: "tracks D nx r" and "\<And>e' s. r k \<noteq> Some (e', Some s)" "\<not> le_dirty e"
  shows "tracks D nx (r(k \<mapsto> (e, None)))"
  using assms(3) tracks_not_listed [OF assms(1,2)] tracksD(1) [OF t]
  by (intro tracksI) (auto dest: tracksD(2-) [OF t] split: if_splits)

lemma tracks_forget_list:
  assumes t: "tracks D nx r" and k: "r k = Some (e', Some s)"
  shows "map snd (bt_remove s D) = removeAll k (map snd D)"
proof -
  have s: "map_of D s = Some k"
    using tracksD(5) [OF t] k by blast
  have eq: "(fst p \<noteq> s) = (snd p \<noteq> k)" if p: "p \<in> set D" for p
  proof -
    have "map_of D (fst p) = Some (snd p)"
      using tracksD(1) [OF t] p by (simp add: bt_ok_map_of_iff)
    with s k show ?thesis
      using tracksD(2) [OF t, of "fst p" "snd p"] by auto
  qed
  have "bt_remove s D = filter (\<lambda>p. snd p \<noteq> k) D"
    using eq by (auto simp: bt_remove_def split_def intro!: filter_cong)
  then show ?thesis
    by (simp add: removeAll_filter_not_eq filter_map comp_def eq_commute)
qed

lemma tracks_forget:
  assumes t: "tracks D nx r" and k: "r k = Some (e', Some s)"
    and x: "\<And>e sq. x = Some (e, sq) \<Longrightarrow> sq = None \<and> \<not> le_dirty e"
  shows "tracks (bt_remove s D) nx (r(k := x))"
proof -
  have s: "map_of D s = Some k"
    using tracksD(5) [OF t] k by blast
  have other: "k' \<noteq> k" if "map_of D s' = Some k'" "s' \<noteq> s" for s' k'
    using tracksD(2) [OF t that(1)] k that(2) by auto
  have other': "s' \<noteq> s" if "r k' = Some (e, Some s')" "k' \<noteq> k" for e s' k'
    using tracksD(5) [OF t that(1)] s that(2) by auto
  show ?thesis
    using tracksD(1) [OF t] x other other'
    by (intro tracksI) (auto dest: tracksD(2-) [OF t] split: if_splits)
qed

lemma tracks_untracked:
  assumes t: "tracks D nx r" and "\<And>e' s. r k \<noteq> Some (e', Some s)"
  shows "tracks D nx (r(k := None))"
  using tracks_not_listed [OF assms] tracksD(1) [OF t]
  by (intro tracksI) (auto dest: tracksD(2-) [OF t] split: if_splits)

lemma tracks_untracked_dirty:
  assumes "tracks D nx r" "\<And>e' s. r k \<noteq> Some (e', Some s)"
  shows "removeAll k (map snd D) = map snd D"
  using tracks_member [OF assms(1), of k] assms(2) by (simp add: removeAll_id)

section \<open>Preservation and refinement\<close>

lemma nc_all_ok [simp]: "bt_ok (nc_all c) \<longleftrightarrow> bt_ok (nc_map c)"
  by (simp add: nc_all_def)

lemma map_of_nc_all [simp]: "map_of (nc_all c) k = nc_get k c"
  by (simp add: nc_all_def nc_get_def map_of_map)

lemma nc_get_cores: "nc_get k c = map_option fst (cores c k)"
  by (simp add: nc_get_def option.map_comp core_def comp_def)

lemma cores_eq_None [simp]: "map_option core (map_of (nc_map c) k) = None \<longleftrightarrow> nc_get k c = None"
  by (simp add: nc_get_def)

lemma nc_get_keys: "nc_get k c = None \<longleftrightarrow> k \<notin> fst ` set (nc_map c)"
  by (simp add: nc_get_def map_of_eq_None_iff)

text \<open>All of the invariant but the recency list.\<close>

definition body_ok :: "named_cache \<Rightarrow> bool" where
  "body_ok c \<longleftrightarrow> bt_ok (nc_map c) \<and> tracks (nc_dirty c) (nc_next_dirty_seq c) (cores c) \<and>
     nc_size_bytes c = bt_sum entry_bytes_of (nc_all c)"

lemma nc_ok_iff:
  "nc_ok c \<longleftrightarrow> body_ok c \<and> lru c (lru_order c) \<and> set (lru_order c) = fst ` set (nc_map c)"
  unfolding nc_ok_def body_ok_def using dirty_ok_tracks by blast

lemma nc_okI:
  assumes "body_ok c" "lru c ks" "set ks = fst ` set (nc_map c)"
  shows "nc_ok c" "lru_order c = ks"
  using assms lru_order_eq by (auto simp: nc_ok_iff)

lemma nc_okD:
  assumes "nc_ok c"
  shows "body_ok c" "lru c (lru_order c)" "set (lru_order c) = fst ` set (nc_map c)" "bt_ok (nc_map c)"
    "tracks (nc_dirty c) (nc_next_dirty_seq c) (cores c)" "nc_size_bytes c = bt_sum entry_bytes_of (nc_all c)"
  using assms by (auto simp: nc_ok_iff body_ok_def)

lemma nc_all_eqI:
  "bt_ok (nc_map c) \<Longrightarrow> bt_ok (nc_map c') \<Longrightarrow> (\<And>k. nc_get k c = nc_get k c') \<Longrightarrow> nc_all c = nc_all c'"
  by (rule bt_ext) (auto simp: fun_eq_iff)

lemma body_ok_cong:
  assumes "body_ok c" "bt_ok (nc_map c')" "cores c' = cores c" "nc_dirty c' = nc_dirty c"
    "nc_next_dirty_seq c' = nc_next_dirty_seq c" "nc_size_bytes c' = nc_size_bytes c"
  shows "body_ok c'"
proof -
  have "nc_all c' = nc_all c"
    using assms by (intro nc_all_eqI) (auto simp: body_ok_def nc_get_cores fun_eq_iff)
  then show ?thesis
    using assms by (simp add: body_ok_def)
qed

text \<open>Moving a key to the most recently used end.\<close>

lemma promote_ok:
  assumes "body_ok c" "lru c ks" "set ks = fst ` set (nc_map c)" "k \<in> set ks"
  defines "c' \<equiv> nc_link_at_tail k (nc_unlink k c)"
  shows "nc_ok c'" "lru_order c' = removeAll k ks @ [k]" "cores c' = cores c" "nc_dirty c' = nc_dirty c"
proof -
  obtain xs ys where ks: "ks = xs @ k # ys"
    using assms(4) by (auto simp: in_set_conv_decomp)
  have dist: "distinct ks"
    using assms(2) by (simp add: lru_def)
  have rm: "removeAll k ks = xs @ ys"
    using dist by (simp add: ks)
  have keys: "fst ` set (nc_map c') = fst ` set (nc_map c)"
    by (simp add: c'_def)
  show cores: "cores c' = cores c"
    by (simp add: c'_def fun_eq_iff)
  show "nc_dirty c' = nc_dirty c"
    by (simp add: c'_def)
  have "map_of (nc_map (nc_unlink k c)) k \<noteq> None"
    using assms(3,4) by (simp add: map_of_eq_None_iff)
  then have l: "lru c' (removeAll k ks @ [k])"
    using lru_unlink [of c xs k ys] assms(2) dist
    unfolding c'_def rm by (intro lru_link_at_tail) (auto simp: ks)
  have b: "body_ok c'"
    using assms(1) by (rule body_ok_cong) (use assms(1) cores in \<open>auto simp: c'_def body_ok_def\<close>)
  have "set (removeAll k ks @ [k]) = fst ` set (nc_map c')"
    using keys assms(3,4) by auto
  then show "nc_ok c'" "lru_order c' = removeAll k ks @ [k]"
    using nc_okI [OF b l] by blast+
qed

lemma lru_cong:
  assumes "lru c ks" "nc_head c' = nc_head c" "nc_tail c' = nc_tail c"
    "\<And>k. k \<in> set ks \<Longrightarrow> map_option (\<lambda>n. (nd_prev n, nd_next n)) (map_of (nc_map c') k) =
                         map_option (\<lambda>n. (nd_prev n, nd_next n)) (map_of (nc_map c) k)"
  shows "lru c' ks"
  using assms seg_cong [of ks "map_of (nc_map c')" "map_of (nc_map c)"] by (simp add: lru_def)

lemma body_ok_put:
  assumes b: "body_ok c" and ok: "bt_ok (nc_map c')" and cores: "cores c' = (cores c)(k \<mapsto> (e, sq))"
    and tr: "tracks (nc_dirty c') (nc_next_dirty_seq c') (cores c')"
    and sz: "nc_size_bytes c' = (case nc_get k c of
        None \<Rightarrow> nc_size_bytes c + (length k + value_size e)
      | Some e0 \<Rightarrow> nc_size_bytes c - value_size e0 + value_size e)"
  shows "body_ok c'"
proof -
  have okc: "bt_ok (nc_map c)" and szc: "nc_size_bytes c = bt_sum entry_bytes_of (nc_all c)"
    using b by (auto simp: body_ok_def)
  have "map_of (nc_all c') = map_of (bt_insert k e (nc_all c))"
    by (rule ext) (simp add: nc_get_cores cores fun_cong [OF cores])
  then have all: "nc_all c' = bt_insert k e (nc_all c)"
    using ok okc by (intro bt_ext) auto
  have "nc_size_bytes c' = bt_sum entry_bytes_of (nc_all c')"
  proof (cases "nc_get k c")
    case None
    then show ?thesis
      using sz szc bt_sum_insert_new [of "nc_all c" k entry_bytes_of e]
      by (simp add: all entry_bytes_of_def)
  next
    case (Some e0)
    then show ?thesis
      using sz szc okc bt_sum_insert_old [of "nc_all c" k e0 entry_bytes_of e]
        bt_sum_member_le [of "nc_all c" k e0 entry_bytes_of]
      by (simp add: all entry_bytes_of_def)
  qed
  then show ?thesis
    using ok tr by (simp add: body_ok_def)
qed

lemmas put_update_simps = put_update_def Let_def nc_alloc_dirty_seq_def core_def [abs_def] option.map_comp comp_def

lemma put_update_links:
  "nc_head (put_update k e n c) = nc_head c" "nc_tail (put_update k e n c) = nc_tail c"
  "fst ` set (nc_map (put_update k e n c)) = fst ` set (nc_map c)"
  "bt_ok (nc_map c) \<Longrightarrow> bt_ok (nc_map (put_update k e n c))"
  "map_option (\<lambda>n. (nd_prev n, nd_next n)) (map_of (nc_map (put_update k e n c)) k') =
   map_option (\<lambda>n. (nd_prev n, nd_next n)) (map_of (nc_map c) k')"
  by (auto simp: put_update_simps split: option.splits bool.splits)

lemma put_update_body:
  assumes b: "body_ok c" and k: "map_of (nc_map c) k = Some n"
  shows "body_ok (put_update k e n c)"
    and "nc_get k' (put_update k e n c) = (if k' = k then Some e else nc_get k' c)"
    and "map snd (nc_dirty (put_update k e n c)) =
         (if \<not> le_dirty e then removeAll k (map snd (nc_dirty c))
          else if k \<in> set (map snd (nc_dirty c)) then map snd (nc_dirty c) else map snd (nc_dirty c) @ [k])"
proof -
  let ?c = "put_update k e n c"
  have t: "tracks (nc_dirty c) (nc_next_dirty_seq c) (cores c)" and ok: "bt_ok (nc_map c)"
    using b by (auto simp: body_ok_def)
  have ck: "cores c k = Some (nd_entry n, nd_dirty_seq n)"
    using k by (simp add: core_def)
  define sq where "sq = (if le_dirty e then case nd_dirty_seq n of None \<Rightarrow> Some (nc_next_dirty_seq c) | Some s \<Rightarrow> Some s else None)"
  have cores: "cores ?c = (cores c)(k \<mapsto> (e, sq))"
    using k by (auto simp: put_update_simps sq_def fun_eq_iff split: option.splits bool.splits)
  show "nc_get k' ?c = (if k' = k then Some e else nc_get k' c)"
    by (simp add: nc_get_cores fun_cong [OF cores])
  have "tracks (nc_dirty ?c) (nc_next_dirty_seq ?c) (cores ?c) \<and>
    map snd (nc_dirty ?c) =
         (if \<not> le_dirty e then removeAll k (map snd (nc_dirty c))
          else if k \<in> set (map snd (nc_dirty c)) then map snd (nc_dirty c) else map snd (nc_dirty c) @ [k])"
  proof (cases "nd_dirty_seq n")
    case None
    then have un: "\<And>e' s. cores c k \<noteq> Some (e', Some s)"
      using ck by auto
    then have notin: "k \<notin> set (map snd (nc_dirty c))"
      using tracks_member [OF t] by blast
    show ?thesis
    proof (cases "le_dirty e")
      case True
      then show ?thesis
        using None notin tracks_fresh [OF t un True] unfolding cores
        by (simp add: put_update_simps sq_def)
    next
      case False
      then show ?thesis
        using None notin tracks_clean [OF t un False] unfolding cores
        by (simp add: put_update_simps sq_def)
    qed
  next
    case (Some s)
    then have tk: "cores c k = Some (nd_entry n, Some s)"
      using ck by simp
    then have inn: "k \<in> set (map snd (nc_dirty c))"
      using tracks_member [OF t] by blast
    show ?thesis
    proof (cases "le_dirty e")
      case True
      then show ?thesis
        using Some inn tracks_keep [OF t tk True] unfolding cores
        by (simp add: put_update_simps sq_def)
    next
      case False
      then show ?thesis
        using Some tracks_forget [OF t tk, of "Some (e, None)"] tracks_forget_list [OF t tk] unfolding cores
        by (simp add: put_update_simps sq_def)
    qed
  qed
  then have tr: "tracks (nc_dirty ?c) (nc_next_dirty_seq ?c) (cores ?c)"
    and "map snd (nc_dirty ?c) =
         (if \<not> le_dirty e then removeAll k (map snd (nc_dirty c))
          else if k \<in> set (map snd (nc_dirty c)) then map snd (nc_dirty c) else map snd (nc_dirty c) @ [k])"
    by blast+
  then show "map snd (nc_dirty ?c) =
         (if \<not> le_dirty e then removeAll k (map snd (nc_dirty c))
          else if k \<in> set (map snd (nc_dirty c)) then map snd (nc_dirty c) else map snd (nc_dirty c) @ [k])"
    by blast
  have "nc_size_bytes ?c = nc_size_bytes c - value_size (nd_entry n) + value_size e"
    by (auto simp: put_update_simps split: option.splits bool.splits)
  then show "body_ok ?c"
    using b ok k cores tr by (intro body_ok_put [OF b _ cores tr]) (simp_all add: put_update_links nc_get_def)
qed

lemmas put_insert_simps = put_insert_def Let_def nc_alloc_dirty_seq_def core_def [abs_def]

lemma put_insert_body:
  assumes b: "body_ok c" and k: "map_of (nc_map c) k = None"
  shows "body_ok (put_insert k e c)"
    and "nc_get k' (put_insert k e c) = (if k' = k then Some e else nc_get k' c)"
    and "map snd (nc_dirty (put_insert k e c)) =
         (if le_dirty e then map snd (nc_dirty c) @ [k] else map snd (nc_dirty c))"
    and "k \<notin> set (map snd (nc_dirty c))"
proof -
  let ?c = "put_insert k e c"
  have t: "tracks (nc_dirty c) (nc_next_dirty_seq c) (cores c)" and ok: "bt_ok (nc_map c)"
    using b by (auto simp: body_ok_def)
  have un: "\<And>e' s. cores c k \<noteq> Some (e', Some s)"
    using k by auto
  show "k \<notin> set (map snd (nc_dirty c))"
    using tracks_member [OF t] un by blast
  define sq where "sq = (if le_dirty e then Some (nc_next_dirty_seq c) else None)"
  have cores: "cores ?c = (cores c)(k \<mapsto> (e, sq))"
    by (auto simp: put_insert_simps sq_def fun_eq_iff)
  show "nc_get k' ?c = (if k' = k then Some e else nc_get k' c)"
    by (simp add: nc_get_cores fun_cong [OF cores])
  show "map snd (nc_dirty ?c) = (if le_dirty e then map snd (nc_dirty c) @ [k] else map snd (nc_dirty c))"
    using tracks_fresh(2) [OF t un, of e] by (simp add: put_insert_simps)
  have tr: "tracks (nc_dirty ?c) (nc_next_dirty_seq ?c) (cores ?c)"
    using tracks_fresh(1) [OF t un, of e] tracks_clean [OF t un, of e] unfolding cores
    by (simp add: put_insert_simps sq_def)
  have "nc_size_bytes ?c = nc_size_bytes c + (length k + value_size e)" "bt_ok (nc_map ?c)"
    using ok by (simp_all add: put_insert_simps)
  then show "body_ok ?c"
    using k by (intro body_ok_put [OF b _ cores tr]) (simp_all add: nc_get_def)
qed

lemma put_insert_lru:
  assumes "lru c ks" "k \<notin> set ks"
  shows "lru (put_insert k e c) ks" "map_of (nc_map (put_insert k e c)) k \<noteq> None"
    "fst ` set (nc_map (put_insert k e c)) = insert k (fst ` set (nc_map c))"
proof -
  show "lru (put_insert k e c) ks"
    using assms(1) by (rule lru_cong) (use assms(2) in \<open>auto simp: put_insert_simps\<close>)
qed (simp_all add: put_insert_simps)

lemma nc_put_refines:
  assumes ok: "nc_ok c"
  shows "nc_ok (nc_put k e c)" "nc_abs (nc_put k e c) = abs_put k e (nc_abs c)"
proof -
  note c = nc_okD [OF ok]
  have "nc_ok (nc_put k e c) \<and> nc_abs (nc_put k e c) = abs_put k e (nc_abs c)"
  proof (cases "map_of (nc_map c) k")
    case None
    then have knot: "k \<notin> set (lru_order c)"
      using c(3) by (simp add: map_of_eq_None_iff)
    let ?c1 = "put_insert k e c"
    note b = put_insert_body(1-3) [OF c(1) None, where e = e] put_insert_body(4) [OF c(1) None]
    note l = put_insert_lru [OF c(2) knot, of e]
    have put: "nc_put k e c = nc_link_at_tail k ?c1"
      using None by (simp add: nc_put_def)
    have l': "lru (nc_link_at_tail k ?c1) (lru_order c @ [k])"
      using l(1,2) knot by (intro lru_link_at_tail)
    have b': "body_ok (nc_link_at_tail k ?c1)"
      using b(1) by (rule body_ok_cong) (use b(1) in \<open>auto simp: body_ok_def\<close>)
    have keys: "set (lru_order c @ [k]) = fst ` set (nc_map (nc_link_at_tail k ?c1))"
      using c(3) l(3) by simp
    have "nc_get k' (nc_link_at_tail k ?c1) = (if k' = k then Some e else nc_get k' c)" for k'
      using b(2) [of k'] by (simp add: nc_get_cores)
    then show ?thesis
      using nc_okI [OF b' l' keys] b(3,4) knot unfolding put
      by (simp add: nc_abs_def abs_put_def fun_eq_iff)
  next
    case (Some n)
    let ?c1 = "put_update k e n c"
    note b = put_update_body [OF c(1) Some, where e = e]
    have put: "nc_put k e c = nc_link_at_tail k (nc_unlink k ?c1)"
      using Some by (simp add: nc_put_def)
    have l: "lru ?c1 (lru_order c)"
      using c(2) by (rule lru_cong) (simp_all add: put_update_links)
    have keys: "set (lru_order c) = fst ` set (nc_map ?c1)" and kin: "k \<in> set (lru_order c)"
      using c(3) Some by (auto simp: put_update_links dest: map_of_SomeD intro: rev_image_eqI)
    note p = promote_ok [OF b(1) l keys kin, folded put]
    have "nc_get k' (nc_put k e c) = (if k' = k then Some e else nc_get k' c)" for k'
      using b(2) [of k'] fun_cong [OF p(3), of k'] by (simp add: nc_get_cores)
    then show ?thesis
      using p b(3) by (simp add: nc_abs_def abs_put_def fun_eq_iff)
  qed
  then show "nc_ok (nc_put k e c)" "nc_abs (nc_put k e c) = abs_put k e (nc_abs c)"
    by blast+
qed

lemma nc_get_promote_refines:
  assumes ok: "nc_ok c"
  shows "nc_ok (snd (nc_get_promote k c))" "nc_abs (snd (nc_get_promote k c)) = abs_promote k (nc_abs c)"
    "fst (nc_get_promote k c) = nc_get k c"
proof -
  note c = nc_okD [OF ok]
  have "nc_ok (snd (nc_get_promote k c)) \<and> nc_abs (snd (nc_get_promote k c)) = abs_promote k (nc_abs c) \<and>
    fst (nc_get_promote k c) = nc_get k c"
  proof (cases "map_of (nc_map c) k")
    case None
    then show ?thesis
      using ok by (simp add: nc_get_promote_def abs_promote_def nc_abs_def nc_get_def)
  next
    case (Some n)
    then have kin: "k \<in> set (lru_order c)"
      using c(3) by (auto dest: map_of_SomeD intro: rev_image_eqI)
    note p = promote_ok [OF c(1) c(2) c(3) kin]
    have "nc_get k' (nc_link_at_tail k (nc_unlink k c)) = nc_get k' c" for k'
      by (simp add: nc_get_cores)
    then show ?thesis
      using p Some by (simp add: nc_get_promote_def abs_promote_def nc_abs_def nc_get_def Let_def)
  qed
  then show "nc_ok (snd (nc_get_promote k c))" "nc_abs (snd (nc_get_promote k c)) = abs_promote k (nc_abs c)"
    "fst (nc_get_promote k c) = nc_get k c"
    by blast+
qed

subsection \<open>Flush\<close>

definition clean :: "lru_cache_entry \<times> nat option \<Rightarrow> lru_cache_entry \<times> nat option" where
  "clean x = ((fst x)\<lparr>le_dirty := False\<rparr>, None)"

lemma clear_dirty_fields [simp]:
  "nc_head (clear_dirty k c) = nc_head c" "nc_tail (clear_dirty k c) = nc_tail c"
  "nc_dirty (clear_dirty k c) = nc_dirty c" "nc_name (clear_dirty k c) = nc_name c"
  "nc_next_dirty_seq (clear_dirty k c) = nc_next_dirty_seq c"
  "nc_size_bytes (clear_dirty k c) = nc_size_bytes c"
  "fst ` set (nc_map (clear_dirty k c)) = fst ` set (nc_map c)"
  "bt_ok (nc_map c) \<Longrightarrow> bt_ok (nc_map (clear_dirty k c))"
  by (simp_all add: clear_dirty_def)

lemma clear_dirty_nodes:
  "cores (clear_dirty k c) k' = (if k' = k then map_option clean (cores c k) else cores c k')"
  "map_option (\<lambda>n. (nd_prev n, nd_next n)) (map_of (nc_map (clear_dirty k c)) k') =
   map_option (\<lambda>n. (nd_prev n, nd_next n)) (map_of (nc_map c) k')"
  by (auto simp: clear_dirty_def core_def [abs_def] clean_def option.map_comp comp_def)

lemma clean_entry: "\<not> le_dirty e \<Longrightarrow> e\<lparr>le_dirty := False\<rparr> = e"
  by (cases e) simp

lemma clean_idem [simp]: "clean (clean x) = clean x"
  by (simp add: clean_def)

lemma clear_all_fields:
  fixes c :: named_cache
  defines "f \<equiv> foldl (\<lambda>c k. clear_dirty k c)"
  shows "nc_head (f c ks) = nc_head c" "nc_tail (f c ks) = nc_tail c" "nc_dirty (f c ks) = nc_dirty c"
    "nc_next_dirty_seq (f c ks) = nc_next_dirty_seq c" "nc_size_bytes (f c ks) = nc_size_bytes c"
    "fst ` set (nc_map (f c ks)) = fst ` set (nc_map c)" "bt_ok (nc_map c) \<Longrightarrow> bt_ok (nc_map (f c ks))"
    "map_option (\<lambda>n. (nd_prev n, nd_next n)) (map_of (nc_map (f c ks)) k) =
     map_option (\<lambda>n. (nd_prev n, nd_next n)) (map_of (nc_map c) k)"
    "cores (f c ks) k = (if k \<in> set ks then map_option clean (cores c k) else cores c k)"
  unfolding f_def by (induction ks arbitrary: c) (auto simp: clear_dirty_nodes option.map_comp comp_def)

lemma nc_flush_refines:
  assumes ok: "nc_ok c"
  shows "nc_ok (snd (nc_flush c))" "fst (nc_flush c) = fst (abs_flush (nc_abs c))"
    "nc_abs (snd (nc_flush c)) = snd (abs_flush (nc_abs c))"
proof -
  note c = nc_okD [OF ok]
  let ?ks = "map snd (nc_dirty c)"
  let ?f = "foldl (\<lambda>c k. clear_dirty k c) c ?ks"
  let ?c = "snd (nc_flush c)"
  have c': "?c = ?f\<lparr>nc_dirty := []\<rparr>"
    by (simp add: nc_flush_def Let_def)
  have listed: "\<exists>n. map_of (nc_map c) k = Some n \<and> nd_dirty_seq n \<noteq> None" if "k \<in> set ?ks" for k
    using tracks_member [OF c(5), of k] that by (auto simp: core_def)
  have cores: "cores ?c k = map_option clean (cores c k)" for k
  proof (cases "k \<in> set ?ks")
    case False
    then have "cores c k = map_option clean (cores c k)"
    proof (cases "map_of (nc_map c) k")
      case (Some n)
      then have n: "cores c k = Some (nd_entry n, nd_dirty_seq n)"
        by (simp add: core_def)
      then have "nd_dirty_seq n = None"
        using False tracks_member [OF c(5), of k] by (cases "nd_dirty_seq n") auto
      moreover have "\<not> le_dirty (nd_entry n)"
        using tracksD(4) [OF c(5) n] \<open>nd_dirty_seq n = None\<close> by simp
      ultimately show ?thesis
        using Some by (simp add: clean_def core_def clean_entry)
    qed simp
    then show ?thesis
      using False by (simp add: c' clear_all_fields)
  qed (simp add: c' clear_all_fields)
  have get: "nc_get k ?c = map_option (\<lambda>e. e\<lparr>le_dirty := False\<rparr>) (nc_get k c)" for k
    using cores [of k] by (simp add: nc_get_cores option.map_comp comp_def clean_def)
  have okm: "bt_ok (nc_map ?c)" and keys: "fst ` set (nc_map ?c) = fst ` set (nc_map c)"
    using c(4) by (simp_all add: c' clear_all_fields)
  have "map_of (nc_all ?c) = map_of (map (\<lambda>(k, e). (k, e\<lparr>le_dirty := False\<rparr>)) (nc_all c))"
    by (simp add: fun_eq_iff get map_of_map)
  then have all: "nc_all ?c = map (\<lambda>(k, e). (k, e\<lparr>le_dirty := False\<rparr>)) (nc_all c)"
    using okm c(4) by (intro bt_ext) simp_all
  have "bt_sum entry_bytes_of (nc_all ?c) = bt_sum entry_bytes_of (nc_all c)"
    unfolding all bt_sum_def by (simp add: comp_def split_def entry_bytes_of_def value_size_def)
  moreover have "tracks [] nx (cores ?c)" for nx
    using cores by (intro tracksI) (auto simp: clean_def)
  ultimately have b: "body_ok ?c"
    using okm c(6) by (simp add: body_ok_def) (simp add: c' clear_all_fields)
  have l: "lru ?c (lru_order c)"
    using c(2) by (rule lru_cong) (simp_all add: c' clear_all_fields)
  have s: "set (lru_order c) = fst ` set (nc_map ?c)"
    using c(3) keys by simp
  note fin = nc_okI [OF b l s]
  show "nc_ok ?c"
    by (fact fin)
  show "nc_abs ?c = snd (abs_flush (nc_abs c))"
    using fin get by (simp add: nc_abs_def abs_flush_def fun_eq_iff) (simp add: c')
  let ?g = "\<lambda>k. case map_of (nc_map c) k of None \<Rightarrow> [] | Some n \<Rightarrow> [(k, nd_entry n)]"
  have "?g k = [(k, the (nc_get k c))]" if "k \<in> set ?ks" for k
    using listed [OF that] by (auto simp: nc_get_def)
  then have "concat (map ?g ?ks) = concat (map (\<lambda>k. [(k, the (nc_get k c))]) ?ks)"
    by (intro arg_cong [of _ _ concat] map_cong refl)
  then have "concat (map ?g ?ks) = map (\<lambda>k. (k, the (nc_get k c))) ?ks"
    by (simp only: concat_map_singleton)
  then show "fst (nc_flush c) = fst (abs_flush (nc_abs c))"
    by (simp add: nc_flush_def Let_def abs_flush_def nc_abs_def)
qed

subsection \<open>Evict\<close>

lemma nc_evict_refines:
  assumes ok: "nc_ok c"
  shows "\<exists>freed calls c'. nc_evict c = Some (freed, calls, c') \<and> nc_ok c' \<and>
     abs_evict (nc_abs c) = (freed, calls, nc_abs c') \<and> nc_size_bytes c = nc_size_bytes c' + freed"
proof -
  note c = nc_okD [OF ok]
  show ?thesis
  proof (cases "lru_order c")
    case Nil
    then have "nc_head c = None"
      using c(2) by (simp add: lru_def)
    then show ?thesis
      using ok Nil by (simp add: nc_evict_def abs_evict_def nc_abs_def)
  next
    case (Cons k ks)
    then obtain n where hd: "nc_head c = Some k" and n: "map_of (nc_map c) k = Some n" and dist: "distinct (k # ks)"
      using c(2) by (auto simp: lru_def split: option.splits)
    let ?u = "nc_unlink k c"
    have nk: "cores c k = Some (nd_entry n, nd_dirty_seq n)"
      using n by (simp add: core_def)
    then have "map_option core (map_of (nc_map ?u) k) = Some (nd_entry n, nd_dirty_seq n)"
      by (simp only: core_unlink)
    then obtain n' where n': "map_of (nc_map ?u) k = Some n'" "core n' = (nd_entry n, nd_dirty_seq n)"
      by (auto simp del: core_unlink)
    define D where "D = (case nd_dirty_seq n of Some sq \<Rightarrow> bt_remove sq (nc_dirty c) | None \<Rightarrow> nc_dirty c)"
    define freed where "freed = length k + value_size (nd_entry n)"
    define c' where "c' = ?u\<lparr>nc_map := bt_remove k (nc_map ?u), nc_dirty := D,
        nc_size_bytes := nc_size_bytes c - freed\<rparr>"
    have ev: "nc_evict c = Some (freed, if le_dirty (nd_entry n) then [(k, nd_entry n)] else [], c')"
      using hd n n' by (auto simp: nc_evict_def Let_def c'_def D_def freed_def core_def split: option.splits)
    have cores: "cores c' = (cores c)(k := None)"
      using core_unlink [of k c] by (auto simp: c'_def fun_eq_iff)
    have D: "tracks D (nc_next_dirty_seq c) (cores c') \<and> map snd D = removeAll k (map snd (nc_dirty c))"
    proof (cases "nd_dirty_seq n")
      case None
      then have un: "\<And>e' s. cores c k \<noteq> Some (e', Some s)"
        using nk by auto
      show ?thesis
        using tracks_untracked [OF c(5) un] tracks_untracked_dirty [OF c(5) un] None
        by (simp add: cores D_def)
    next
      case (Some sq)
      then have tk: "cores c k = Some (nd_entry n, Some sq)"
        using nk by simp
      show ?thesis
        using tracks_forget [OF c(5) tk, of None] tracks_forget_list [OF c(5) tk] Some
        by (simp add: cores D_def)
    qed
    have okm: "bt_ok (nc_map c')"
      using c(4) by (simp add: c'_def)
    have get: "nc_get k' c' = (if k' = k then None else nc_get k' c)" for k'
      using fun_cong [OF cores, of k'] by (simp add: nc_get_cores)
    have all: "nc_all c' = bt_remove k (nc_all c)"
      using okm c(4) get by (intro bt_ext) (auto simp: fun_eq_iff)
    have sz: "bt_sum entry_bytes_of (nc_all c') + freed = nc_size_bytes c"
      using bt_sum_remove [of "nc_all c" k "nd_entry n" entry_bytes_of] c(4,6) n
      by (simp add: all freed_def entry_bytes_of_def nc_get_def)
    have b: "body_ok c'"
      using okm D sz by (simp add: body_ok_def) (simp add: c'_def)
    have lu: "lru ?u ks"
      using lru_unlink [of c "[]" k ks] c(2) Cons by simp
    have l: "lru c' ks"
      using lu by (rule lru_cong) (use dist in \<open>auto simp: c'_def\<close>)
    have keys: "set ks = fst ` set (nc_map c')"
    proof -
      have "fst ` set (nc_map c') = fst ` set (nc_map c) - {k}"
        by (simp add: c'_def)
      then show ?thesis
        using c(3) Cons dist by auto
    qed
    note fin = nc_okI [OF b l keys]
    have "abs_evict (nc_abs c) =
        (freed, if le_dirty (nd_entry n) then [(k, nd_entry n)] else [], nc_abs c')"
      using Cons n fin D get
      by (simp add: abs_evict_def nc_abs_def Let_def freed_def nc_get_def fun_eq_iff) (simp add: c'_def)
    then show ?thesis
      using ev fin sz by (auto simp: c'_def)
  qed
qed

lemma nc_new_ok [simp]: "nc_ok (nc_new name)"
  by (simp add: nc_ok_def nc_new_def lru_order_def lru_def dirty_ok_def nc_all_def)

section \<open>Whole histories of a cache\<close>

text \<open>Any sequence of cache operations, with the listener calls it produces.\<close>

datatype cache_op =
    Put bytes lru_cache_entry
  | Delete bytes record_context
  | Promote bytes
  | Flush
  | Evict

fun nc_step :: "cache_op \<Rightarrow> named_cache \<Rightarrow> ((bytes \<times> lru_cache_entry) list \<times> named_cache) option" where
  "nc_step (Put k e) c = Some ([], nc_put k e c)"
| "nc_step (Delete k ctx) c = Some ([], nc_delete k ctx c)"
| "nc_step (Promote k) c = Some ([], snd (nc_get_promote k c))"
| "nc_step Flush c = Some (nc_flush c)"
| "nc_step Evict c = map_option snd (nc_evict c)"

fun nc_run :: "cache_op list \<Rightarrow> named_cache \<Rightarrow> ((bytes \<times> lru_cache_entry) list \<times> named_cache) option" where
  "nc_run [] c = Some ([], c)"
| "nc_run (oper # ops) c =
    do { (calls, c') \<leftarrow> nc_step oper c; (calls', c'') \<leftarrow> nc_run ops c'; Some (calls @ calls', c'') }"

fun abs_step :: "cache_op \<Rightarrow> abs_cache \<Rightarrow> (bytes \<times> lru_cache_entry) list \<times> abs_cache" where
  "abs_step (Put k e) a = ([], abs_put k e a)"
| "abs_step (Delete k ctx) a = ([], abs_put k (lru_entry_new None True ctx) a)"
| "abs_step (Promote k) a = ([], abs_promote k a)"
| "abs_step Flush a = abs_flush a"
| "abs_step Evict a = snd (abs_evict a)"

fun abs_run :: "cache_op list \<Rightarrow> abs_cache \<Rightarrow> (bytes \<times> lru_cache_entry) list \<times> abs_cache" where
  "abs_run [] a = ([], a)"
| "abs_run (oper # ops) a =
    (let (calls, a') = abs_step oper a; (calls', a'') = abs_run ops a' in (calls @ calls', a''))"

definition abs_empty :: abs_cache where
  "abs_empty = \<lparr>ac_order = [], ac_entries = (\<lambda>_. None), ac_dirty = []\<rparr>"

lemma nc_step_refines:
  assumes "nc_ok c"
  shows "\<exists>calls c'. nc_step oper c = Some (calls, c') \<and> nc_ok c' \<and> abs_step oper (nc_abs c) = (calls, nc_abs c')"
proof (cases oper)
  case Flush
  then show ?thesis
    using nc_flush_refines [OF assms] by (cases "nc_flush c") (auto simp: prod_eq_iff)
next
  case Evict
  then show ?thesis
    using nc_evict_refines [OF assms] by force
qed (use assms in \<open>simp_all add: nc_put_refines nc_get_promote_refines nc_delete_def\<close>)

lemma nc_run_refines:
  "nc_ok c \<Longrightarrow> \<exists>calls c'. nc_run ops c = Some (calls, c') \<and> nc_ok c' \<and> abs_run ops (nc_abs c) = (calls, nc_abs c')"
proof (induction ops arbitrary: c)
  case (Cons oper ops)
  obtain calls c' where "nc_step oper c = Some (calls, c')" "nc_ok c'" "abs_step oper (nc_abs c) = (calls, nc_abs c')"
    using nc_step_refines [OF Cons.prems] by blast
  moreover obtain calls' c'' where "nc_run ops c' = Some (calls', c'')" "nc_ok c''"
    "abs_run ops (nc_abs c') = (calls', nc_abs c'')"
    using Cons.IH [OF \<open>nc_ok c'\<close>] by blast
  ultimately show ?case
    by simp
qed simp

text \<open>C33: The record cache, run from empty through any sequence of puts, deletes, promoting reads, flushes
  and evictions, never panics, keeps its invariant (the links form one doubly linked list over exactly the
  cached keys, the dirty set numbers exactly the dirty entries, the byte count is the sum of the entries),
  and behaves like the plain list specification: a put or read moves the key to the recent end, an
  already-dirty key keeps its dirty position, a flush reports the dirty entries in the order they became
  dirty, an eviction removes the least recently used entry and reports it if it is dirty.\<close>

theorem named_cache_refines_lru_spec:
  "\<exists>calls c. nc_run ops (nc_new name) = Some (calls, c) \<and> nc_ok c \<and>
     abs_run ops abs_empty = (calls, nc_abs c)"
proof -
  have "nc_abs (nc_new name) = abs_empty"
    by (simp add: nc_abs_def nc_new_def abs_empty_def lru_order_def nc_get_def)
  then show ?thesis
    using nc_run_refines [OF nc_new_ok, of ops name] by simp
qed

section \<open>The byte budget\<close>

definition tc_ok :: "thread_cache \<Rightarrow> bool" where
  "tc_ok tc \<longleftrightarrow> bt_ok (tc_caches tc) \<and> (\<forall>(name, c) \<in> set (tc_caches tc). nc_ok c)"

definition tc_entry :: "(string, named_cache) btree \<Rightarrow> string \<Rightarrow> bytes \<Rightarrow> lru_cache_entry option" where
  "tc_entry cs name k = Option.bind (map_of cs name) (nc_get k)"

lemma value_size_pos: "0 < value_size e"
  by (simp add: value_size_def)

lemma nc_evict_shrinks:
  assumes "nc_ok c" "nc_len c \<noteq> 0"
  shows "\<exists>freed calls c'. nc_evict c = Some (freed, calls, c') \<and> nc_ok c' \<and> nc_size_bytes c' < nc_size_bytes c \<and>
    (\<forall>k e. nc_get k c = Some e \<longrightarrow> le_dirty e \<longrightarrow> nc_get k c' = Some e \<or> (k, e) \<in> set calls)"
proof -
  obtain freed calls c' where ev: "nc_evict c = Some (freed, calls, c')" "nc_ok c'"
    "abs_evict (nc_abs c) = (freed, calls, nc_abs c')" "nc_size_bytes c = nc_size_bytes c' + freed"
    using nc_evict_refines [OF assms(1)] by blast
  have "lru_order c \<noteq> []"
    using nc_okD(3) [OF assms(1)] assms(2) by (auto simp: nc_len_def)
  then obtain k ks where "lru_order c = k # ks"
    by (cases "lru_order c") auto
  then have "freed = length k + value_size (the (nc_get k c))"
    "calls = (if le_dirty (the (nc_get k c)) then [(k, the (nc_get k c))] else [])"
    "nc_get k' c' = (if k' = k then None else nc_get k' c)" for k'
    using ev(3) by (auto simp: abs_evict_def nc_abs_def Let_def fun_eq_iff split: if_splits)
  then show ?thesis
    using ev value_size_pos [of "the (nc_get k c)"] by auto
qed

lemma nc_empty_size: "nc_ok c \<Longrightarrow> nc_len c = 0 \<Longrightarrow> nc_size_bytes c = 0"
  by (simp add: nc_okD nc_len_def nc_all_def)

lemma tc_evict_round_shrinks:
  "\<forall>(name, c) \<in> set cs. nc_ok c \<Longrightarrow> 0 < bt_sum (\<lambda>_ c. nc_size_bytes c) cs \<Longrightarrow>
   \<exists>calls cs'. tc_evict_round cs = Some (Some (calls, cs')) \<and> map fst cs' = map fst cs \<and>
     (\<forall>(name, c) \<in> set cs'. nc_ok c) \<and>
     bt_sum (\<lambda>_ c. nc_size_bytes c) cs' < bt_sum (\<lambda>_ c. nc_size_bytes c) cs \<and>
     (\<forall>name k e. tc_entry cs name k = Some e \<longrightarrow> le_dirty e \<longrightarrow>
        tc_entry cs' name k = Some e \<or> (name, k, e) \<in> set calls)"
proof (induction cs)
  case (Cons p cs)
  obtain name c where p: "p = (name, c)" by force
  show ?case
  proof (cases "nc_len c = 0")
    case True
    have sz: "nc_size_bytes c = 0"
      using nc_empty_size True Cons.prems(1) p by simp
    then have "0 < bt_sum (\<lambda>_ c. nc_size_bytes c) cs"
      using Cons.prems(2) p by (simp add: bt_sum_def)
    then obtain calls cs' where IH: "tc_evict_round cs = Some (Some (calls, cs'))" "map fst cs' = map fst cs"
      "\<forall>(name, c) \<in> set cs'. nc_ok c"
      "bt_sum (\<lambda>_ c. nc_size_bytes c) cs' < bt_sum (\<lambda>_ c. nc_size_bytes c) cs"
      "\<forall>name k e. tc_entry cs name k = Some e \<longrightarrow> le_dirty e \<longrightarrow>
        tc_entry cs' name k = Some e \<or> (name, k, e) \<in> set calls"
      using Cons.IH Cons.prems(1) by auto
    then show ?thesis
      using True p Cons.prems(1) by (auto simp: bt_sum_def tc_entry_def)
  next
    case False
    have "nc_ok c"
      using Cons.prems(1) p by simp
    from nc_evict_shrinks [OF this False] show ?thesis
      using False p Cons.prems(1) by (auto simp: bt_sum_def tc_entry_def image_iff)
  qed
qed simp

lemma tc_maybe_evict_returns:
  assumes "tc_ok tc"
  shows "\<exists>calls tc'. tc_maybe_evict tc acc = Some (acc @ calls, tc') \<and> tc_ok tc' \<and>
     tc_total_bytes tc' \<le> tc_max_bytes tc' \<and> tc_max_bytes tc' = tc_max_bytes tc \<and>
     (\<forall>name k e. tc_entry (tc_caches tc) name k = Some e \<longrightarrow> le_dirty e \<longrightarrow>
        tc_entry (tc_caches tc') name k = Some e \<or> (name, k, e) \<in> set calls)"
  using assms
proof (induction "tc_total_bytes tc" arbitrary: tc acc rule: less_induct)
  case less
  show ?case
  proof (cases "tc_max_bytes tc < tc_total_bytes tc")
    case True
    then have "0 < bt_sum (\<lambda>_ c. nc_size_bytes c) (tc_caches tc)"
      by (simp add: tc_total_bytes_def)
    then obtain calls cs' where r: "tc_evict_round (tc_caches tc) = Some (Some (calls, cs'))"
      "map fst cs' = map fst (tc_caches tc)" "\<forall>(name, c) \<in> set cs'. nc_ok c"
      "bt_sum (\<lambda>_ c. nc_size_bytes c) cs' < bt_sum (\<lambda>_ c. nc_size_bytes c) (tc_caches tc)"
      "\<forall>name k e. tc_entry (tc_caches tc) name k = Some e \<longrightarrow> le_dirty e \<longrightarrow>
        tc_entry cs' name k = Some e \<or> (name, k, e) \<in> set calls"
      using tc_evict_round_shrinks [of "tc_caches tc"] less.prems by (auto simp: tc_ok_def)
    let ?tc = "tc\<lparr>tc_caches := cs'\<rparr>"
    have "tc_total_bytes ?tc < tc_total_bytes tc"
      using r(4) by (simp add: tc_total_bytes_def)
    moreover have "tc_ok ?tc"
      using less.prems r(2,3) by (simp add: tc_ok_def bt_ok_def)
    ultimately obtain calls' tc' where IH: "tc_maybe_evict ?tc (acc @ calls) = Some ((acc @ calls) @ calls', tc')"
      "tc_ok tc'" "tc_total_bytes tc' \<le> tc_max_bytes tc'" "tc_max_bytes tc' = tc_max_bytes ?tc"
      "\<forall>name k e. tc_entry (tc_caches ?tc) name k = Some e \<longrightarrow> le_dirty e \<longrightarrow>
        tc_entry (tc_caches tc') name k = Some e \<or> (name, k, e) \<in> set calls'"
      using less.hyps [of ?tc "acc @ calls"] by blast
    have "tc_maybe_evict tc acc = Some (acc @ (calls @ calls'), tc')"
      using True r(1) IH(1) by (subst tc_maybe_evict.simps) simp
    moreover have "tc_entry (tc_caches tc') name k = Some e \<or> (name, k, e) \<in> set (calls @ calls')"
      if "tc_entry (tc_caches tc) name k = Some e" "le_dirty e" for name k e
    proof -
      have "tc_entry (tc_caches ?tc) name k = Some e \<or> (name, k, e) \<in> set calls"
        using r(5) that by simp
      then show ?thesis
        using IH(5) that(2) by auto
    qed
    ultimately show ?thesis
      using IH(2,3,4) by (intro exI [of _ "calls @ calls'"] exI [of _ tc']) simp
  next
    case False
    then show ?thesis
      using less.prems by (subst tc_maybe_evict.simps) simp
  qed
qed

text \<open>C34: Enforcing the byte budget terminates within it.  From any well-formed thread cache
  \<^verbatim>\<open>maybe_evict\<close> returns (no panic, no endless loop) a well-formed thread cache whose total is at most the
  budget, and no dirty entry is lost: each one is still cached unchanged or was handed to the listener.\<close>

theorem maybe_evict_meets_budget:
  assumes "tc_ok tc"
  shows "\<exists>calls tc'. tc_maybe_evict tc [] = Some (calls, tc') \<and> tc_ok tc' \<and>
     tc_total_bytes tc' \<le> tc_max_bytes tc' \<and> tc_max_bytes tc' = tc_max_bytes tc \<and>
     (\<forall>name k e. tc_entry (tc_caches tc) name k = Some e \<longrightarrow> le_dirty e \<longrightarrow>
        tc_entry (tc_caches tc') name k = Some e \<or> (name, k, e) \<in> set calls)"
  using tc_maybe_evict_returns [OF assms, of "[]"] by simp

lemma maybe_evict_meets_budget_witness:
  "\<exists>tc calls tc'. tc_max_bytes tc < tc_total_bytes tc \<and> tc_maybe_evict tc [] = Some (calls, tc') \<and>
     tc_total_bytes tc' \<le> tc_max_bytes tc'"
proof -
  let ?ctx = "\<lparr>rc_topic = ''in'', rc_partition = 0, rc_offset = 3, rc_timestamp = 5\<rparr>"
  let ?c = "nc_put [1] (lru_entry_new (Some [7]) True ?ctx) (nc_new ''s'')"
  let ?tc = "\<lparr>tc_caches = [(''s'', ?c)], tc_max_bytes = 10\<rparr>"
  have ok: "tc_ok ?tc"
    using nc_put_refines(1) [OF nc_new_ok] by (simp add: tc_ok_def bt_ok_def)
  have "tc_max_bytes ?tc < tc_total_bytes ?tc"
    by code_simp
  then show ?thesis
    using maybe_evict_meets_budget [OF ok] by blast
qed

end
