(* ===== verification/Key_Schemas.thy ===== *)
theory Key_Schemas
  imports BTree_Map
begin

text \<open>
  The composite byte keys of the stores: \<^verbatim>\<open>store/window_schema.rs\<close>, \<^verbatim>\<open>store/session_schema.rs\<close>,
  \<^verbatim>\<open>dsl/processors/outer_join_store.rs\<close> and the id and payload codecs of
  \<^verbatim>\<open>store/join_grace_buffer.rs\<close>.  Rust slices panic out of range: the decoders return \<^term>\<open>None\<close> there.

  The lemmas give the round trips and the order facts the range scans rest on: within one
  serialized key, memcmp order of window keys is \<open>(start, seqnum)\<close> order for non-negative starts, and
  order of session keys is \<open>(end, start)\<close> order.
\<close>

section \<open>Slices\<close>

text \<open>\<^verbatim>\<open>&v[a..b]\<close>, with the out-of-range panic.\<close>

definition slice :: "nat \<Rightarrow> nat \<Rightarrow> bytes \<Rightarrow> bytes option" where
  "slice a b v = (if a \<le> b \<and> b \<le> length v then Some (take (b - a) (drop a v)) else None)"

text \<open>\<^verbatim>\<open>&v[v.len() - n ..]\<close> and \<^verbatim>\<open>&v[.. v.len() - n]\<close>: the subtraction itself panics below zero.\<close>

definition suffix_from :: "nat \<Rightarrow> nat \<Rightarrow> bytes \<Rightarrow> bytes option" where
  "suffix_from n m v = (if n \<le> length v then slice (length v - n) (length v - m) v else None)"

definition prefix_upto :: "nat \<Rightarrow> bytes \<Rightarrow> bytes option" where
  "prefix_upto n v = (if n \<le> length v then Some (take (length v - n) v) else None)"

section \<open>Window keys\<close>

definition SUFFIX_SIZE :: nat where
  "SUFFIX_SIZE = 12"

definition store_key :: "bytes \<Rightarrow> int \<Rightarrow> nat \<Rightarrow> bytes" where
  "store_key key_bytes window_start seqnum = key_bytes @ i64_to_be window_start @ u32_to_be seqnum"

definition window_start_of :: "bytes \<Rightarrow> int option" where
  "window_start_of k = map_option i64_of_be (suffix_from SUFFIX_SIZE 4 k)"

definition key_bytes_of :: "bytes \<Rightarrow> bytes option" where
  "key_bytes_of k = prefix_upto SUFFIX_SIZE k"

definition wrap_value :: "int \<Rightarrow> bytes \<Rightarrow> bytes" where
  "wrap_value record_ts raw = i64_to_be record_ts @ raw"

definition unwrap_value :: "bytes \<Rightarrow> (int \<times> bytes) option" where
  "unwrap_value wrapped = map_option (\<lambda>t. (i64_of_be t, drop 8 wrapped)) (slice 0 8 wrapped)"

section \<open>Session keys\<close>

definition session_key :: "bytes \<Rightarrow> int \<Rightarrow> int \<Rightarrow> bytes" where
  "session_key key_bytes start en = key_bytes @ i64_to_be en @ i64_to_be start"

definition session_end_of :: "bytes \<Rightarrow> int option" where
  "session_end_of k = map_option i64_of_be (suffix_from 16 8 k)"

definition session_start_of :: "bytes \<Rightarrow> int option" where
  "session_start_of k = map_option i64_of_be (suffix_from 8 0 k)"

definition session_key_bytes_of :: "bytes \<Rightarrow> bytes option" where
  "session_key_bytes_of k = prefix_upto 16 k"

section \<open>Outer-join keys\<close>

definition outer_key :: "int \<Rightarrow> bool \<Rightarrow> bytes \<Rightarrow> bytes" where
  "outer_key ts side_left key_bytes = i64_to_be ts @ [if side_left then 0 else 1] @ key_bytes"

definition outer_key_ts :: "bytes \<Rightarrow> int option" where
  "outer_key_ts k = map_option i64_of_be (slice 0 8 k)"

definition outer_key_side_left :: "bytes \<Rightarrow> bool option" where
  "outer_key_side_left k = (if 8 < length k then Some (k ! 8 = 0) else None)"

definition outer_key_key_bytes :: "bytes \<Rightarrow> bytes option" where
  "outer_key_key_bytes k = slice 9 (length k) k"

definition outer_value_left :: "bytes \<Rightarrow> bytes" where
  "outer_value_left raw = 0 # raw"

definition outer_value_right :: "bytes \<Rightarrow> bytes" where
  "outer_value_right raw = 1 # raw"

definition outer_value_decode :: "bytes \<Rightarrow> (bool \<times> bytes) option" where
  "outer_value_decode v = (case v of [] \<Rightarrow> None | t # raw \<Rightarrow> Some (t = 0, raw))"

section \<open>Grace-buffer ids and payloads\<close>

definition encode_id :: "int \<times> nat \<Rightarrow> bytes" where
  "encode_id i = i64_to_be (fst i) @ u32_to_be (snd i)"

definition decode_id :: "bytes \<Rightarrow> (int \<times> nat) option" where
  "decode_id bs =
    do { t \<leftarrow> slice 0 8 bs; s \<leftarrow> slice 8 12 bs; Some (i64_of_be t, u32_of_be s) }"

definition encode_payload :: "bytes \<Rightarrow> bytes \<Rightarrow> bytes option" where
  "encode_payload kb vb =
    (if length kb \<le> u32_max then Some (u32_to_be (length kb) @ kb @ vb) else None)"

definition decode_payload :: "bytes \<Rightarrow> (bytes \<times> bytes) option" where
  "decode_payload bs =
    do { l \<leftarrow> slice 0 4 bs;
         kb \<leftarrow> slice 4 (4 + u32_of_be l) bs;
         vb \<leftarrow> slice (4 + u32_of_be l) (length bs) bs;
         Some (kb, vb) }"

section \<open>Round trips\<close>

lemma slice_0 [simp]: "slice 0 n v = (if n \<le> length v then Some (take n v) else None)"
  by (simp add: slice_def)

lemma length_store_key [simp, len_simps]: "length (store_key kb ws sq) = length kb + 12"
  by (simp add: store_key_def)

lemma window_start_of_store_key [simp, codec_simps]:
  "in_i64 ws \<Longrightarrow> window_start_of (store_key kb ws sq) = Some ws"
  by (simp add: window_start_of_def suffix_from_def slice_def store_key_def SUFFIX_SIZE_def)

lemma key_bytes_of_store_key [simp, codec_simps]: "key_bytes_of (store_key kb ws sq) = Some kb"
  by (simp add: key_bytes_of_def prefix_upto_def store_key_def SUFFIX_SIZE_def)

lemma unwrap_wrap [simp, codec_simps]: "in_i64 t \<Longrightarrow> unwrap_value (wrap_value t raw) = Some (t, raw)"
  by (simp add: unwrap_value_def wrap_value_def)

lemma length_session_key [simp, len_simps]: "length (session_key kb s e) = length kb + 16"
  by (simp add: session_key_def)

lemma session_end_of_key [simp, codec_simps]: "in_i64 e \<Longrightarrow> session_end_of (session_key kb s e) = Some e"
  by (simp add: session_end_of_def suffix_from_def slice_def session_key_def)

lemma session_start_of_key [simp, codec_simps]: "in_i64 s \<Longrightarrow> session_start_of (session_key kb s e) = Some s"
  by (simp add: session_start_of_def suffix_from_def slice_def session_key_def)

lemma session_key_bytes_of_key [simp, codec_simps]: "session_key_bytes_of (session_key kb s e) = Some kb"
  by (simp add: session_key_bytes_of_def prefix_upto_def session_key_def)

lemma outer_key_roundtrip [simp, codec_simps]:
  "in_i64 t \<Longrightarrow> outer_key_ts (outer_key t l kb) = Some t"
  "outer_key_side_left (outer_key t l kb) = Some l"
  "outer_key_key_bytes (outer_key t l kb) = Some kb"
  by (simp_all add: outer_key_ts_def outer_key_side_left_def outer_key_key_bytes_def outer_key_def
      slice_def nth_append)

lemma outer_value_roundtrip [simp, codec_simps]:
  "outer_value_decode (outer_value_left raw) = Some (True, raw)"
  "outer_value_decode (outer_value_right raw) = Some (False, raw)"
  by (simp_all add: outer_value_decode_def outer_value_left_def outer_value_right_def)

lemma length_encode_id [simp, len_simps]: "length (encode_id i) = 12"
  by (simp add: encode_id_def)

lemma decode_encode_id [simp, codec_simps]:
  "in_i64 t \<Longrightarrow> sq \<le> u32_max \<Longrightarrow> decode_id (encode_id (t, sq)) = Some (t, sq)"
  by (simp add: decode_id_def encode_id_def slice_def)

lemma decode_encode_payload [codec_simps]:
  "encode_payload kb vb = Some p \<Longrightarrow> decode_payload p = Some (kb, vb)"
  by (auto simp: decode_payload_def encode_payload_def slice_def split: if_splits)

section \<open>Injectivity and order\<close>

lemma store_key_inj:
  "in_i64 ws \<Longrightarrow> in_i64 ws' \<Longrightarrow> sq \<le> u32_max \<Longrightarrow> sq' \<le> u32_max \<Longrightarrow>
   store_key kb ws sq = store_key kb' ws' sq' \<longleftrightarrow> kb = kb' \<and> ws = ws' \<and> sq = sq'"
proof
  assume r: "in_i64 ws" "in_i64 ws'" "sq \<le> u32_max" "sq' \<le> u32_max"
    and eq: "store_key kb ws sq = store_key kb' ws' sq'"
  have "kb = kb'"
    using arg_cong [OF eq, of key_bytes_of] by simp
  with eq have "i64_to_be ws = i64_to_be ws' \<and> u32_to_be sq = u32_to_be sq'"
    by (simp add: store_key_def)
  with \<open>kb = kb'\<close> r show "kb = kb' \<and> ws = ws' \<and> sq = sq'"
    by (simp add: i64_to_be_inj u32_to_be_inj)
qed simp

lemma session_key_inj:
  "in_i64 s \<Longrightarrow> in_i64 s' \<Longrightarrow> in_i64 e \<Longrightarrow> in_i64 e' \<Longrightarrow>
   session_key kb s e = session_key kb' s' e' \<longleftrightarrow> kb = kb' \<and> s = s' \<and> e = e'"
proof
  assume r: "in_i64 s" "in_i64 s'" "in_i64 e" "in_i64 e'"
    and eq: "session_key kb s e = session_key kb' s' e'"
  show "kb = kb' \<and> s = s' \<and> e = e'"
    using arg_cong [OF eq, of session_key_bytes_of] arg_cong [OF eq, of session_start_of]
      arg_cong [OF eq, of session_end_of] r by simp
qed simp

lemma outer_key_inj:
  "in_i64 t \<Longrightarrow> in_i64 t' \<Longrightarrow> outer_key t l kb = outer_key t' l' kb' \<longleftrightarrow> t = t' \<and> l = l' \<and> kb = kb'"
proof
  assume r: "in_i64 t" "in_i64 t'" and eq: "outer_key t l kb = outer_key t' l' kb'"
  show "t = t' \<and> l = l' \<and> kb = kb'"
    using arg_cong [OF eq, of outer_key_ts] arg_cong [OF eq, of outer_key_side_left]
      arg_cong [OF eq, of outer_key_key_bytes] r by simp
qed simp

lemma encode_id_inj:
  "in_i64 t \<Longrightarrow> in_i64 t' \<Longrightarrow> sq \<le> u32_max \<Longrightarrow> sq' \<le> u32_max \<Longrightarrow>
   encode_id (t, sq) = encode_id (t', sq') \<longleftrightarrow> t = t' \<and> sq = sq'"
  by (simp add: encode_id_def i64_to_be_inj u32_to_be_inj)

text \<open>Within one serialized key, composite window keys sort by window start, then by seqnum.\<close>

lemma store_key_less_iff:
  assumes "0 \<le> ws" "ws \<le> i64_max" "0 \<le> ws'" "ws' \<le> i64_max" "sq \<le> u32_max" "sq' \<le> u32_max"
  shows "store_key kb ws sq < store_key kb ws' sq' \<longleftrightarrow> (ws, sq) < (ws', sq')"
  using assms
  by (auto simp: store_key_def append_less_iff i64_to_be_less_iff u32_to_be_less_iff i64_to_be_inj in_i64_def)

lemma session_key_less_iff:
  assumes "0 \<le> s" "s \<le> i64_max" "0 \<le> s'" "s' \<le> i64_max" "0 \<le> e" "e \<le> i64_max" "0 \<le> e'" "e' \<le> i64_max"
  shows "session_key kb s e < session_key kb s' e' \<longleftrightarrow> (e, s) < (e', s')"
  using assms
  by (auto simp: session_key_def append_less_iff i64_to_be_less_iff i64_to_be_inj in_i64_def)

lemma outer_key_less_iff:
  assumes "0 \<le> t" "t < t'" "t' \<le> i64_max"
  shows "outer_key t l kb < outer_key t' l' kb'"
  using assms by (simp add: outer_key_def append_less_iff i64_to_be_less_iff)

end
