(* ===== verification/Caching_Store.thy ===== *)
theory Caching_Store
  imports Record_Cache Key_Schemas
begin

text \<open>
  \<^verbatim>\<open>store/cache/kv.rs\<close>, \<^verbatim>\<open>store/cache/window.rs\<close> and \<^verbatim>\<open>store/cache/session.rs\<close>: the write-back caching
  wrappers over a byte store.  The three structs have the same fields and, apart from \<^verbatim>\<open>fetch\<close>,
  \<^verbatim>\<open>fetch_all\<close> and \<^verbatim>\<open>find_sessions\<close>, the same method bodies; each method is translated from its own
  file (prefix \<open>ck_\<close>, \<open>cw_\<close>, \<open>cs_\<close>) and \<open>caching_same\<close> records that they agree.

  \<open>ck_view\<close> is the contents a reader sees: the cached entry if there is one, tombstones included, else
  the inner store.  The lemmas show that the wrapper interprets the byte-store contract \<open>byte_kv\<close> over
  this view, that scans and ranges are exactly the view's entries, and that a flush brings the inner store
  up to the view while reporting every dirty key once with its last flushed value.
\<close>

section \<open>CachingKeyValueStore\<close>

record caching_store =
  cs_cache :: named_cache
  cs_inner :: in_memory_bytes
  cs_name :: string

definition ck_with_name :: "named_cache \<Rightarrow> in_memory_bytes \<Rightarrow> string \<Rightarrow> caching_store" where
  "ck_with_name cache inner name = \<lparr>cs_cache = cache, cs_inner = inner, cs_name = name\<rparr>"

definition ck_get :: "bytes \<Rightarrow> caching_store \<Rightarrow> bytes option \<times> caching_store" where
  "ck_get key s =
    (let (hit, cache) = nc_get_promote key (cs_cache s);
         s' = s\<lparr>cs_cache := cache\<rparr>
     in case map_option le_value hit of
          Some value \<Rightarrow> (value, s')
        | None \<Rightarrow> (imb_get (cs_inner s') key, s'))"

definition ck_put :: "bytes \<Rightarrow> bytes \<Rightarrow> record_context \<Rightarrow> caching_store \<Rightarrow> caching_store" where
  "ck_put key value ctx s =
     s\<lparr>cs_cache := nc_put key (lru_entry_new (Some value) True ctx) (cs_cache s)\<rparr>"

definition ck_delete :: "bytes \<Rightarrow> record_context \<Rightarrow> caching_store \<Rightarrow> caching_store" where
  "ck_delete key ctx s = s\<lparr>cs_cache := nc_delete key ctx (cs_cache s)\<rparr>"

text \<open>The overlay loop: cached values win, cached tombstones hide.\<close>

definition overlay :: "(bytes, bytes) btree \<Rightarrow> (bytes \<times> lru_cache_entry) list \<Rightarrow> (bytes, bytes) btree" where
  "overlay merged cached =
    foldl (\<lambda>m (k, e). case le_value e of Some v \<Rightarrow> bt_insert k v m | None \<Rightarrow> bt_remove k m) merged cached"

definition ck_range :: "bytes \<Rightarrow> bytes \<Rightarrow> caching_store \<Rightarrow> entries option" where
  "ck_range lo hi s =
    (let merged = bt_of_list (imb_range lo hi (cs_inner s)) in
     case nc_range lo hi (cs_cache s) of
       None \<Rightarrow> None
     | Some cached \<Rightarrow> Some (overlay merged cached))"

definition write_through :: "(bytes \<times> lru_cache_entry) list \<Rightarrow> in_memory_bytes \<Rightarrow> in_memory_bytes" where
  "write_through collected inner =
    foldl (\<lambda>i (k, e). case le_value e of Some v \<Rightarrow> imb_put k v i | None \<Rightarrow> snd (imb_delete k i)) inner collected"

definition ck_flush :: "caching_store \<Rightarrow> (bytes \<times> lru_cache_entry) list \<times> caching_store" where
  "ck_flush s =
    (let (collected, cache) = nc_flush (cs_cache s) in
     (collected, s\<lparr>cs_cache := cache, cs_inner := write_through collected (cs_inner s)\<rparr>))"

definition ck_put_inner :: "bytes \<Rightarrow> bytes \<Rightarrow> caching_store \<Rightarrow> caching_store" where
  "ck_put_inner key value s = s\<lparr>cs_inner := imb_put key value (cs_inner s)\<rparr>"

definition ck_delete_inner :: "bytes \<Rightarrow> caching_store \<Rightarrow> caching_store" where
  "ck_delete_inner key s = s\<lparr>cs_inner := snd (imb_delete key (cs_inner s))\<rparr>"

definition ck_clear :: "caching_store \<Rightarrow> caching_store" where
  "ck_clear s = s\<lparr>cs_cache := nc_new (cs_name s), cs_inner := imb_clear (cs_inner s)\<rparr>"

definition ck_scan_all :: "caching_store \<Rightarrow> entries" where
  "ck_scan_all s = overlay (bt_of_list (imb_scan_all (cs_inner s))) (nc_all (cs_cache s))"

type_synonym flushed = "bytes \<times> bytes option \<times> bytes option \<times> record_context"

fun flush_old_loop ::
  "(bytes \<times> lru_cache_entry) list \<Rightarrow> in_memory_bytes \<Rightarrow> flushed list \<times> in_memory_bytes" where
  "flush_old_loop [] inner = ([], inner)"
| "flush_old_loop ((k, e) # dirty) inner =
    (let old = imb_get inner k;
         inner' = (case le_value e of Some v \<Rightarrow> imb_put k v inner | None \<Rightarrow> snd (imb_delete k inner));
         (out, inner'') = flush_old_loop dirty inner'
     in ((k, old, le_value e, le_context e) # out, inner''))"

definition ck_flush_with_old :: "caching_store \<Rightarrow> flushed list \<times> caching_store" where
  "ck_flush_with_old s =
    (let (dirty, cache) = nc_flush (cs_cache s);
         (out, inner) = flush_old_loop dirty (cs_inner s)
     in (out, s\<lparr>cs_cache := cache, cs_inner := inner\<rparr>))"

section \<open>CachingWindowStore\<close>

definition cw_get :: "bytes \<Rightarrow> caching_store \<Rightarrow> bytes option \<times> caching_store" where
  "cw_get key s =
    (let (hit, cache) = nc_get_promote key (cs_cache s);
         s' = s\<lparr>cs_cache := cache\<rparr>
     in case map_option le_value hit of
          Some value \<Rightarrow> (value, s')
        | None \<Rightarrow> (imb_get (cs_inner s') key, s'))"

definition cw_range :: "bytes \<Rightarrow> bytes \<Rightarrow> caching_store \<Rightarrow> entries option" where
  "cw_range lo hi s =
    (let merged = bt_of_list (imb_range lo hi (cs_inner s)) in
     case nc_range lo hi (cs_cache s) of
       None \<Rightarrow> None
     | Some cached \<Rightarrow> Some (overlay merged cached))"

definition cw_scan_all :: "caching_store \<Rightarrow> entries" where
  "cw_scan_all s = overlay (bt_of_list (imb_scan_all (cs_inner s))) (nc_all (cs_cache s))"

definition cw_put_inner :: "bytes \<Rightarrow> bytes \<Rightarrow> caching_store \<Rightarrow> caching_store" where
  "cw_put_inner key value s = s\<lparr>cs_inner := imb_put key value (cs_inner s)\<rparr>"

definition cw_delete_inner :: "bytes \<Rightarrow> caching_store \<Rightarrow> caching_store" where
  "cw_delete_inner key s = s\<lparr>cs_inner := snd (imb_delete key (cs_inner s))\<rparr>"

definition cw_clear :: "caching_store \<Rightarrow> caching_store" where
  "cw_clear s = s\<lparr>cs_cache := nc_new (cs_name s), cs_inner := imb_clear (cs_inner s)\<rparr>"

definition cw_put :: "bytes \<Rightarrow> bytes \<Rightarrow> record_context \<Rightarrow> caching_store \<Rightarrow> caching_store" where
  "cw_put key value ctx s =
     s\<lparr>cs_cache := nc_put key (lru_entry_new (Some value) True ctx) (cs_cache s)\<rparr>"

definition cw_delete :: "bytes \<Rightarrow> record_context \<Rightarrow> caching_store \<Rightarrow> caching_store" where
  "cw_delete key ctx s = s\<lparr>cs_cache := nc_delete key ctx (cs_cache s)\<rparr>"

text \<open>Filters that decode a key: one key shorter than the suffix panics the whole filter.\<close>

definition filter_decoded :: "('a \<Rightarrow> bool option) \<Rightarrow> 'a list \<Rightarrow> 'a list option" where
  "filter_decoded P xs =
    (if \<forall>x \<in> set xs. P x \<noteq> None then Some (filter (\<lambda>x. P x = Some True) xs) else None)"

definition cw_merge :: "(bytes \<times> lru_cache_entry) list \<Rightarrow> entries \<Rightarrow> entries" where
  "cw_merge cached from_inner =
    foldl (\<lambda>m (k, e). case le_value e of Some v \<Rightarrow> bt_insert k v m | None \<Rightarrow> bt_remove k m)
      (bt_of_list from_inner) cached"

definition cw_fetch :: "bytes \<Rightarrow> int \<Rightarrow> int \<Rightarrow> caching_store \<Rightarrow> entries option" where
  "cw_fetch key time_from time_to s =
    (let lo = store_key key time_from 0; hi = store_key key (sat_add time_to 1) 0 in
     do { in_cache \<leftarrow> nc_range lo hi (cs_cache s);
          cached \<leftarrow> filter_decoded (\<lambda>(k, _). map_option (\<lambda>kb. kb = key) (key_bytes_of k)) in_cache;
          from_inner \<leftarrow> filter_decoded (\<lambda>(k, _). map_option (\<lambda>kb. kb = key) (key_bytes_of k))
                          (imb_range lo hi (cs_inner s));
          Some (cw_merge cached from_inner) })"

definition cw_fetch_all :: "int \<Rightarrow> int \<Rightarrow> caching_store \<Rightarrow> entries option" where
  "cw_fetch_all time_from time_to s =
    (let in_range = (\<lambda>k. map_option (\<lambda>ws. time_from \<le> ws \<and> ws \<le> time_to) (window_start_of k)) in
     do { cached \<leftarrow> filter_decoded (\<lambda>(k, _). in_range k) (nc_all (cs_cache s));
          from_inner \<leftarrow> filter_decoded (\<lambda>(k, _). in_range k) (imb_scan_all (cs_inner s));
          Some (cw_merge cached from_inner) })"

definition cw_flush :: "caching_store \<Rightarrow> (bytes \<times> lru_cache_entry) list \<times> caching_store" where
  "cw_flush s =
    (let (collected, cache) = nc_flush (cs_cache s) in
     (collected, s\<lparr>cs_cache := cache, cs_inner := write_through collected (cs_inner s)\<rparr>))"

definition cw_flush_with_old :: "caching_store \<Rightarrow> flushed list \<times> caching_store" where
  "cw_flush_with_old s =
    (let (dirty, cache) = nc_flush (cs_cache s);
         (out, inner) = flush_old_loop dirty (cs_inner s)
     in (out, s\<lparr>cs_cache := cache, cs_inner := inner\<rparr>))"

section \<open>CachingSessionStore\<close>

definition cs_get :: "bytes \<Rightarrow> caching_store \<Rightarrow> bytes option \<times> caching_store" where
  "cs_get key s =
    (let (hit, cache) = nc_get_promote key (cs_cache s);
         s' = s\<lparr>cs_cache := cache\<rparr>
     in case map_option le_value hit of
          Some value \<Rightarrow> (value, s')
        | None \<Rightarrow> (imb_get (cs_inner s') key, s'))"

definition cs_range :: "bytes \<Rightarrow> bytes \<Rightarrow> caching_store \<Rightarrow> entries option" where
  "cs_range lo hi s =
    (let merged = bt_of_list (imb_range lo hi (cs_inner s)) in
     case nc_range lo hi (cs_cache s) of
       None \<Rightarrow> None
     | Some cached \<Rightarrow> Some (overlay merged cached))"

definition cs_scan_all :: "caching_store \<Rightarrow> entries" where
  "cs_scan_all s = overlay (bt_of_list (imb_scan_all (cs_inner s))) (nc_all (cs_cache s))"

definition cs_put_inner :: "bytes \<Rightarrow> bytes \<Rightarrow> caching_store \<Rightarrow> caching_store" where
  "cs_put_inner key value s = s\<lparr>cs_inner := imb_put key value (cs_inner s)\<rparr>"

definition cs_delete_inner :: "bytes \<Rightarrow> caching_store \<Rightarrow> caching_store" where
  "cs_delete_inner key s = s\<lparr>cs_inner := snd (imb_delete key (cs_inner s))\<rparr>"

definition cs_clear :: "caching_store \<Rightarrow> caching_store" where
  "cs_clear s = s\<lparr>cs_cache := nc_new (cs_name s), cs_inner := imb_clear (cs_inner s)\<rparr>"

definition cs_put :: "bytes \<Rightarrow> bytes \<Rightarrow> record_context \<Rightarrow> caching_store \<Rightarrow> caching_store" where
  "cs_put key value ctx s =
     s\<lparr>cs_cache := nc_put key (lru_entry_new (Some value) True ctx) (cs_cache s)\<rparr>"

definition cs_remove :: "bytes \<Rightarrow> record_context \<Rightarrow> caching_store \<Rightarrow> caching_store" where
  "cs_remove key ctx s = s\<lparr>cs_cache := nc_delete key ctx (cs_cache s)\<rparr>"

text \<open>The decoding \<^verbatim>\<open>filter_map\<close> at the end of \<^verbatim>\<open>find_sessions\<close>, also used by the typed session store.\<close>

fun decode_sessions :: "int \<Rightarrow> int \<Rightarrow> entries \<Rightarrow> (int \<times> int \<times> bytes) list option" where
  "decode_sessions earliest_end latest_start [] = Some []"
| "decode_sessions earliest_end latest_start ((k, v) # kvs) =
    do { en \<leftarrow> session_end_of k;
         st \<leftarrow> session_start_of k;
         rest \<leftarrow> decode_sessions earliest_end latest_start kvs;
         Some (if earliest_end \<le> en \<and> st \<le> latest_start then (st, en, v) # rest else rest) }"

definition cs_find_sessions :: "bytes \<Rightarrow> int \<Rightarrow> int \<Rightarrow> caching_store \<Rightarrow> (int \<times> int \<times> bytes) list option" where
  "cs_find_sessions key earliest_end latest_start s =
    (let lo = session_key key 0 (max earliest_end 0); hi = session_key key i64_max i64_max;
         same = (\<lambda>k. map_option (\<lambda>kb. kb = key) (session_key_bytes_of k)) in
     do { inner \<leftarrow> filter_decoded (\<lambda>(k, _). same k) (imb_range lo hi (cs_inner s));
          in_cache \<leftarrow> nc_range lo hi (cs_cache s);
          cached \<leftarrow> filter_decoded (\<lambda>(k, _). same k) in_cache;
          decode_sessions earliest_end latest_start (overlay (bt_of_list inner) cached) })"

definition cs_flush :: "caching_store \<Rightarrow> (bytes \<times> lru_cache_entry) list \<times> caching_store" where
  "cs_flush s =
    (let (collected, cache) = nc_flush (cs_cache s) in
     (collected, s\<lparr>cs_cache := cache, cs_inner := write_through collected (cs_inner s)\<rparr>))"

definition cs_flush_with_old :: "caching_store \<Rightarrow> flushed list \<times> caching_store" where
  "cs_flush_with_old s =
    (let (dirty, cache) = nc_flush (cs_cache s);
         (out, inner) = flush_old_loop dirty (cs_inner s)
     in (out, s\<lparr>cs_cache := cache, cs_inner := inner\<rparr>))"

section \<open>The view\<close>

lemma caching_same:
  "cw_get = ck_get" "cw_range = ck_range" "cw_scan_all = ck_scan_all" "cw_put_inner = ck_put_inner"
  "cw_delete_inner = ck_delete_inner" "cw_clear = ck_clear" "cw_put = ck_put" "cw_delete = ck_delete"
  "cw_flush = ck_flush" "cw_flush_with_old = ck_flush_with_old"
  "cs_get = ck_get" "cs_range = ck_range" "cs_scan_all = ck_scan_all" "cs_put_inner = ck_put_inner"
  "cs_delete_inner = ck_delete_inner" "cs_clear = ck_clear" "cs_put = ck_put" "cs_remove = ck_delete"
  "cs_flush = ck_flush" "cs_flush_with_old = ck_flush_with_old"
  unfolding cw_get_def cw_range_def cw_scan_all_def cw_put_inner_def cw_delete_inner_def cw_clear_def
    cw_put_def cw_delete_def cw_flush_def cw_flush_with_old_def cs_get_def cs_range_def cs_scan_all_def
    cs_put_inner_def cs_delete_inner_def cs_clear_def cs_put_def cs_remove_def cs_flush_def
    cs_flush_with_old_def ck_get_def ck_range_def ck_scan_all_def ck_put_inner_def ck_delete_inner_def
    ck_clear_def ck_put_def ck_delete_def ck_flush_def ck_flush_with_old_def
  by (simp_all add: fun_eq_iff)

definition ck_view :: "caching_store \<Rightarrow> bytes \<Rightarrow> bytes option" where
  "ck_view s k = (case nc_get k (cs_cache s) of Some e \<Rightarrow> le_value e | None \<Rightarrow> imb_get (cs_inner s) k)"

text \<open>Clean cached entries agree with the inner store.\<close>

definition coherent :: "caching_store \<Rightarrow> bool" where
  "coherent s \<longleftrightarrow> (\<forall>(k, e) \<in> set (nc_all (cs_cache s)). \<not> le_dirty e \<longrightarrow> imb_get (cs_inner s) k = le_value e)"

definition ck_ok :: "caching_store \<Rightarrow> bool" where
  "ck_ok s \<longleftrightarrow> nc_ok (cs_cache s) \<and> imb_ok (cs_inner s) \<and> coherent s"

lemma coherent_iff:
  "nc_ok (cs_cache s) \<Longrightarrow> coherent s \<longleftrightarrow>
   (\<forall>k e. nc_get k (cs_cache s) = Some e \<longrightarrow> \<not> le_dirty e \<longrightarrow> imb_get (cs_inner s) k = le_value e)"
  using nc_okD(4) [of "cs_cache s"] by (force simp: coherent_def bt_ok_map_of_iff [symmetric])

lemma nc_get_put: "nc_ok c \<Longrightarrow> nc_get k' (nc_put k e c) = (if k' = k then Some e else nc_get k' c)"
  using nc_put_refines(2) [of c k e] by (simp add: nc_abs_def abs_put_def fun_eq_iff)

lemma nc_get_promoted: "nc_ok c \<Longrightarrow> nc_get k' (snd (nc_get_promote k c)) = nc_get k' c"
  using nc_get_promote_refines(2) [of c k] by (simp add: nc_abs_def abs_promote_def fun_eq_iff split: if_splits)

lemma nc_get_flushed:
  "nc_ok c \<Longrightarrow> nc_get k (snd (nc_flush c)) = map_option (\<lambda>e. e\<lparr>le_dirty := False\<rparr>) (nc_get k c)"
  using nc_flush_refines(3) [of c] by (simp add: nc_abs_def abs_flush_def fun_eq_iff)

lemma nc_get_new [simp]: "nc_get k (nc_new name) = None"
  by (simp add: nc_get_def nc_new_def)

lemma lru_entry_new_fields [simp]:
  "le_value (lru_entry_new v d ctx) = v" "le_dirty (lru_entry_new v d ctx) = d" "le_context (lru_entry_new v d ctx) = ctx"
  by (simp_all add: lru_entry_new_def)

subsection \<open>Reads\<close>

lemma ck_get_view: "ck_ok s \<Longrightarrow> fst (ck_get k s) = ck_view s k"
  by (simp add: ck_get_def ck_view_def ck_ok_def nc_get_promote_refines(3) Let_def split_def split: option.splits)

lemma ck_get_state:
  assumes "ck_ok s"
  shows "ck_ok (snd (ck_get k s))" "ck_view (snd (ck_get k s)) = ck_view s" "cs_inner (snd (ck_get k s)) = cs_inner s"
proof -
  have s': "snd (ck_get k s) = s\<lparr>cs_cache := snd (nc_get_promote k (cs_cache s))\<rparr>"
    by (simp add: ck_get_def Let_def split_def split: option.splits)
  then show "cs_inner (snd (ck_get k s)) = cs_inner s"
    by simp
  have ok: "nc_ok (cs_cache s)"
    using assms by (simp add: ck_ok_def)
  show "ck_view (snd (ck_get k s)) = ck_view s"
    using ok by (simp add: s' ck_view_def fun_eq_iff nc_get_promoted split: option.splits)
  show "ck_ok (snd (ck_get k s))"
    using assms ok nc_get_promote_refines(1) [OF ok, of k] by (simp add: s' ck_ok_def coherent_iff nc_get_promoted)
qed

lemma overlay_ok [simp]: "bt_ok m \<Longrightarrow> bt_ok (overlay m c)"
  unfolding overlay_def by (induction c arbitrary: m) (auto split: option.splits prod.splits)

lemma map_of_overlay:
  "map_of (overlay m c) k =
    (case map_of (rev c) k of Some e \<Rightarrow> le_value e | None \<Rightarrow> map_of m k)"
proof (induction c rule: rev_induct)
  case (snoc p c)
  then show ?case
    by (cases p) (auto simp: overlay_def split: option.splits)
qed (simp add: overlay_def)

lemma map_of_rev_ok: "bt_ok m \<Longrightarrow> map_of (rev m) = map_of m"
  using bt_of_list_id [of m] map_of_bt_of_list [of m] by simp

lemma ck_scan_all_view:
  assumes "ck_ok s"
  shows "bt_ok (ck_scan_all s)" "map_of (ck_scan_all s) = ck_view s"
proof -
  have ok: "bt_ok (nc_map (cs_cache s))" "bt_ok (imb_scan_all (cs_inner s))"
    using assms by (auto simp: ck_ok_def nc_okD imb_defs)
  then show "bt_ok (ck_scan_all s)"
    by (simp add: ck_scan_all_def)
  show "map_of (ck_scan_all s) = ck_view s"
    using ok by (auto simp: fun_eq_iff ck_scan_all_def map_of_overlay map_of_rev_ok ck_view_def imb_defs split: option.splits)
qed

lemma nc_range_Some:
  "lo \<le> hi \<Longrightarrow> nc_range lo hi c = Some (bt_range lo hi (nc_all c))"
  by (auto simp: nc_range_def nc_all_def bt_range_def filter_map comp_def split_def)

text \<open>A merged range is the view cut to the bounds; a lower bound above the upper one panics in the cache.\<close>

lemma ck_range_view:
  assumes "ck_ok s"
  shows "ck_range lo hi s = (if lo \<le> hi then Some (bt_range lo hi (ck_scan_all s)) else None)"
proof (cases "lo \<le> hi")
  case True
  have ok: "bt_ok (nc_all (cs_cache s))" "bt_ok (imb_scan_all (cs_inner s))"
    using assms by (auto simp: ck_ok_def nc_okD imb_defs)
  let ?m = "overlay (bt_of_list (imb_range lo hi (cs_inner s))) (bt_range lo hi (nc_all (cs_cache s)))"
  have "?m = bt_range lo hi (ck_scan_all s)"
  proof (rule bt_ext)
    show "bt_ok ?m" "bt_ok (bt_range lo hi (ck_scan_all s))"
      using ck_scan_all_view(1) [OF assms] by simp_all
    show "map_of ?m = map_of (bt_range lo hi (ck_scan_all s))"
      using ok ck_scan_all_view(2) [OF assms]
      by (auto simp: fun_eq_iff map_of_overlay map_of_rev_ok imb_range_bt ck_view_def imb_defs split: option.splits)
  qed
  then show ?thesis
    using True by (simp add: ck_range_def nc_range_Some)
next
  case False
  then show ?thesis
    by (simp add: ck_range_def nc_range_def)
qed

subsection \<open>Writes\<close>

lemma ck_put_ok:
  assumes "ck_ok s"
  shows "ck_ok (ck_put k v ctx s)" "ck_view (ck_put k v ctx s) = (ck_view s)(k \<mapsto> v)"
    "ck_ok (ck_delete k ctx s)" "ck_view (ck_delete k ctx s) = (ck_view s)(k := None)"
proof -
  have ok: "nc_ok (cs_cache s)" and co: "coherent s" and i: "imb_ok (cs_inner s)"
    using assms by (simp_all add: ck_ok_def)
  note ok' = nc_put_refines(1) [OF ok]
  show "ck_ok (ck_put k v ctx s)"
    using co i ok' ok by (simp add: ck_ok_def ck_put_def coherent_iff nc_get_put)
  show "ck_ok (ck_delete k ctx s)"
    using co i ok' ok by (simp add: ck_ok_def ck_delete_def nc_delete_def coherent_iff nc_get_put)
  show "ck_view (ck_put k v ctx s) = (ck_view s)(k \<mapsto> v)"
    using ok by (simp add: fun_eq_iff ck_view_def ck_put_def nc_get_put split: option.splits)
  show "ck_view (ck_delete k ctx s) = (ck_view s)(k := None)"
    using ok by (simp add: fun_eq_iff ck_view_def ck_delete_def nc_delete_def nc_get_put split: option.splits)
qed

lemma ck_clear_ok: "ck_ok s \<Longrightarrow> ck_ok (ck_clear s)" "ck_ok s \<Longrightarrow> ck_view (ck_clear s) = Map.empty"
  using imb.inv_clr imb.get_clr
  by (auto simp: ck_ok_def ck_clear_def coherent_iff ck_view_def fun_eq_iff)

text \<open>The caching wrapper fulfils the byte-store contract over its view, for every record context a write
  is stamped with.\<close>

interpretation ck: byte_kv ck_ok ck_view "\<lambda>k v. ck_put k v ctx" "\<lambda>k s. (ck_view s k, ck_delete k ctx s)"
    ck_scan_all ck_clear for ctx
  by unfold_locales (simp_all add: ck_put_ok ck_clear_ok ck_scan_all_view)

subsection \<open>Flush\<close>

lemma dirty_keys:
  assumes "nc_ok c"
  shows "distinct (map snd (nc_dirty c))"
    and "k \<in> set (map snd (nc_dirty c)) \<longleftrightarrow> (\<exists>e. nc_get k c = Some e \<and> le_dirty e)"
proof -
  note t = nc_okD(5) [OF assms]
  have "s = s'" if "(s, k) \<in> set (nc_dirty c)" "(s', k) \<in> set (nc_dirty c)" for s s' k
    using that tracksD(1,2) [OF t] by (simp add: bt_ok_map_of_iff [symmetric]) (metis option.inject prod.inject)
  moreover have "distinct (nc_dirty c)"
    using bt_ok_distinct [OF tracksD(1) [OF t]] by (simp add: distinct_map)
  ultimately show "distinct (map snd (nc_dirty c))"
    by (auto simp: distinct_map inj_on_def)
  have "(\<exists>e s. cores c k = Some (e, Some s)) \<longleftrightarrow> (\<exists>e. nc_get k c = Some e \<and> le_dirty e)"
  proof (cases "map_of (nc_map c) k")
    case (Some n)
    then have "cores c k = Some (nd_entry n, nd_dirty_seq n)"
      by (simp add: core_def)
    from tracksD(4) [OF t this] show ?thesis
      using Some by (auto simp: nc_get_def core_def)
  qed (simp add: nc_get_def)
  then show "k \<in> set (map snd (nc_dirty c)) \<longleftrightarrow> (\<exists>e. nc_get k c = Some e \<and> le_dirty e)"
    using tracks_member [OF t] by simp
qed

lemma flushed_entries:
  assumes "nc_ok c"
  shows "fst (nc_flush c) = map (\<lambda>k. (k, the (nc_get k c))) (map snd (nc_dirty c))"
    and "distinct (map fst (fst (nc_flush c)))"
    and "map_of (fst (nc_flush c)) k =
         (case nc_get k c of Some e \<Rightarrow> if le_dirty e then Some e else None | None \<Rightarrow> None)"
proof -
  show eq: "fst (nc_flush c) = map (\<lambda>k. (k, the (nc_get k c))) (map snd (nc_dirty c))"
    using nc_flush_refines(2) [OF assms] by (simp add: abs_flush_def nc_abs_def)
  show "distinct (map fst (fst (nc_flush c)))"
    using dirty_keys(1) [OF assms] by (simp add: eq comp_def)
  have "map_of (map (\<lambda>k. (k, f k)) ks) k = (if k \<in> set ks then Some (f k) else None)" for f :: "bytes \<Rightarrow> lru_cache_entry" and ks
    by (induction ks) auto
  then show "map_of (fst (nc_flush c)) k =
         (case nc_get k c of Some e \<Rightarrow> if le_dirty e then Some e else None | None \<Rightarrow> None)"
    using dirty_keys(2) [OF assms, of k] unfolding eq by (auto simp del: map_map split: option.splits)
qed

lemma write_through_ok [simp]: "imb_ok i \<Longrightarrow> imb_ok (write_through es i)"
  unfolding write_through_def
  by (induction es arbitrary: i) (auto simp: imb.inv_put imb.inv_del split: option.splits)

lemma write_through_get:
  "imb_ok i \<Longrightarrow> imb_get (write_through es i) k =
    (case map_of (rev es) k of Some e \<Rightarrow> le_value e | None \<Rightarrow> imb_get i k)"
proof (induction es rule: rev_induct)
  case (snoc p es)
  obtain k' e where "p = (k', e)" by force
  moreover have "imb_ok (write_through es i)"
    using snoc.prems by simp
  ultimately show ?case
    using snoc by (auto simp: write_through_def imb.get_put imb.get_del split: option.splits)
qed (simp add: write_through_def)

lemma map_of_rev_distinct: "distinct (map fst xs) \<Longrightarrow> map_of (rev xs) = map_of xs"
  by (simp add: map_of_inject_set rev_map [symmetric])

lemma ck_flush_view:
  assumes "ck_ok s"
  shows "ck_ok (snd (ck_flush s))" "ck_view (snd (ck_flush s)) = ck_view s"
    "imb_get (cs_inner (snd (ck_flush s))) = ck_view s" "imb_ok (cs_inner (snd (ck_flush s)))"
proof -
  let ?c = "cs_cache s" and ?i = "cs_inner s"
  have ok: "nc_ok ?c" and i: "imb_ok ?i" and co: "coherent s"
    using assms by (simp_all add: ck_ok_def)
  let ?i' = "write_through (fst (nc_flush ?c)) ?i"
  have s': "snd (ck_flush s) = s\<lparr>cs_cache := snd (nc_flush ?c), cs_inner := ?i'\<rparr>"
    by (simp add: ck_flush_def split_def Let_def)
  have i': "imb_get ?i' k = ck_view s k" for k
    using co ok i flushed_entries(3) [OF ok, of k] map_of_rev_distinct [OF flushed_entries(2) [OF ok]]
    by (auto simp: write_through_get ck_view_def coherent_iff split: option.splits)
  show "imb_get (cs_inner (snd (ck_flush s))) = ck_view s"
    by (simp add: s' i' fun_eq_iff)
  show "imb_ok (cs_inner (snd (ck_flush s)))"
    using i by (simp add: s')
  show "ck_view (snd (ck_flush s)) = ck_view s"
    using ok by (auto simp: fun_eq_iff s' ck_view_def [of "s\<lparr>cs_cache := _, cs_inner := _\<rparr>"] nc_get_flushed i'
        ck_view_def [of s] split: option.splits)
  show "ck_ok (snd (ck_flush s))"
    using ok i nc_flush_refines(1) [OF ok]
    by (auto simp: ck_ok_def s' coherent_iff nc_get_flushed i' ck_view_def)
qed

lemma flush_old_loop_eq:
  "imb_ok i \<Longrightarrow> distinct (map fst es) \<Longrightarrow>
   flush_old_loop es i = (map (\<lambda>(k, e). (k, imb_get i k, le_value e, le_context e)) es, write_through es i)"
proof (induction es arbitrary: i)
  case (Cons p es)
  obtain k e where p: "p = (k, e)" by force
  let ?i = "case le_value e of Some v \<Rightarrow> imb_put k v i | None \<Rightarrow> snd (imb_delete k i)"
  have ok: "imb_ok ?i"
    using Cons.prems(1) by (simp add: imb.inv_put imb.inv_del split: option.splits)
  have same: "imb_get ?i k' = imb_get i k'" if "k' \<in> fst ` set es" for k'
    using that Cons.prems p by (auto simp: imb.get_put imb.get_del split: option.splits)
  have "map (\<lambda>(k, e). (k, imb_get ?i k, le_value e, le_context e)) es =
        map (\<lambda>(k, e). (k, imb_get i k, le_value e, le_context e)) es"
    using same by (force intro!: map_cong)
  then show ?case
    using Cons.IH [OF ok] Cons.prems(2) by (simp add: p write_through_def Let_def)
qed (simp add: write_through_def)

lemma ck_flush_with_old_eq:
  assumes "ck_ok s"
  shows "ck_flush_with_old s =
    (map (\<lambda>k. (k, imb_get (cs_inner s) k, ck_view s k, le_context (the (nc_get k (cs_cache s)))))
       (map snd (nc_dirty (cs_cache s))),
     snd (ck_flush s))"
proof -
  have ok: "nc_ok (cs_cache s)" and i: "imb_ok (cs_inner s)"
    using assms by (simp_all add: ck_ok_def)
  have eq: "flush_old_loop (fst (nc_flush (cs_cache s))) (cs_inner s) =
    (map (\<lambda>(k, e). (k, imb_get (cs_inner s) k, le_value e, le_context e)) (fst (nc_flush (cs_cache s))),
     write_through (fst (nc_flush (cs_cache s))) (cs_inner s))"
    using flush_old_loop_eq [OF i flushed_entries(2) [OF ok]] .
  have view: "le_value (the (nc_get k (cs_cache s))) = ck_view s k"
    if "k \<in> set (map snd (nc_dirty (cs_cache s)))" for k
    using that dirty_keys(2) [OF ok, of k] by (auto simp: ck_view_def)
  have "map (\<lambda>(k, e). (k, imb_get (cs_inner s) k, le_value e, le_context e)) (fst (nc_flush (cs_cache s))) =
    map (\<lambda>k. (k, imb_get (cs_inner s) k, ck_view s k, le_context (the (nc_get k (cs_cache s)))))
       (map snd (nc_dirty (cs_cache s)))"
    unfolding flushed_entries(1) [OF ok] map_map by (intro map_cong) (use view in auto)
  then show ?thesis
    using eq by (simp add: ck_flush_with_old_def ck_flush_def split_def Let_def)
qed

section \<open>Caching is transparent\<close>

text \<open>Requests against a byte store and their responses, run on the caching wrapper and on a plain
  \<^verbatim>\<open>InMemoryBytes\<close>.\<close>

datatype store_req =
    Get bytes
  | PutReq bytes bytes record_context
  | DeleteReq bytes record_context
  | Range bytes bytes
  | ScanAll
  | FlushReq

datatype store_resp = Val "bytes option" | Entries entries | Done

fun cached_step :: "store_req \<Rightarrow> caching_store \<Rightarrow> (store_resp \<times> caching_store) option" where
  "cached_step (Get k) s = Some (Val (fst (ck_get k s)), snd (ck_get k s))"
| "cached_step (PutReq k v ctx) s = Some (Done, ck_put k v ctx s)"
| "cached_step (DeleteReq k ctx) s = Some (Done, ck_delete k ctx s)"
| "cached_step (Range lo hi) s = map_option (\<lambda>es. (Entries es, s)) (ck_range lo hi s)"
| "cached_step ScanAll s = Some (Entries (ck_scan_all s), s)"
| "cached_step FlushReq s = Some (Done, snd (ck_flush s))"

fun plain_step :: "store_req \<Rightarrow> in_memory_bytes \<Rightarrow> store_resp \<times> in_memory_bytes" where
  "plain_step (Get k) p = (Val (imb_get p k), p)"
| "plain_step (PutReq k v ctx) p = (Done, imb_put k v p)"
| "plain_step (DeleteReq k ctx) p = (Done, snd (imb_delete k p))"
| "plain_step (Range lo hi) p = (Entries (imb_range lo hi p), p)"
| "plain_step ScanAll p = (Entries (imb_scan_all p), p)"
| "plain_step FlushReq p = (Done, p)"

fun cached_run :: "store_req list \<Rightarrow> caching_store \<Rightarrow> (store_resp list \<times> caching_store) option" where
  "cached_run [] s = Some ([], s)"
| "cached_run (r # rs) s =
    do { (a, s') \<leftarrow> cached_step r s; (as, s'') \<leftarrow> cached_run rs s'; Some (a # as, s'') }"

fun plain_run :: "store_req list \<Rightarrow> in_memory_bytes \<Rightarrow> store_resp list \<times> in_memory_bytes" where
  "plain_run [] p = ([], p)"
| "plain_run (r # rs) p =
    (let (a, p') = plain_step r p; (as, p'') = plain_run rs p' in (a # as, p''))"

fun ordered_req :: "store_req \<Rightarrow> bool" where
  "ordered_req (Range lo hi) = (lo \<le> hi)"
| "ordered_req _ = True"

text \<open>The simulation: the plain store holds what the wrapper's readers see.\<close>

definition simulates :: "caching_store \<Rightarrow> in_memory_bytes \<Rightarrow> bool" where
  "simulates s p \<longleftrightarrow> ck_ok s \<and> imb_ok p \<and> imb_get p = ck_view s"

lemma simulates_scan: "simulates s p \<Longrightarrow> ck_scan_all s = imb_scan_all p"
  unfolding simulates_def
  by (rule bt_ext) (simp_all add: ck_scan_all_view imb.scan_ok imb.scan_get)

lemma cached_step_simulates:
  assumes "simulates s p" "ordered_req r"
  shows "\<exists>s'. cached_step r s = Some (fst (plain_step r p), s') \<and> simulates s' (snd (plain_step r p))"
proof (cases r)
  case (Range lo hi)
  then show ?thesis
    using assms simulates_scan [OF assms(1)] by (simp add: simulates_def ck_range_view imb_range_bt)
qed (use assms simulates_scan [OF assms(1)] in
      \<open>auto simp: simulates_def ck_get_view ck_get_state ck_put_ok ck_flush_view imb.inv_put imb.inv_del imb.get_put imb.get_del\<close>)

lemma cached_run_simulates:
  "simulates s p \<Longrightarrow> \<forall>r \<in> set rs. ordered_req r \<Longrightarrow>
   \<exists>s'. cached_run rs s = Some (fst (plain_run rs p), s') \<and> simulates s' (snd (plain_run rs p))"
proof (induction rs arbitrary: s p)
  case (Cons r rs)
  obtain s1 where "cached_step r s = Some (fst (plain_step r p), s1)" "simulates s1 (snd (plain_step r p))"
    using cached_step_simulates [of s p r] Cons.prems by auto
  moreover obtain s2 where "cached_run rs s1 = Some (fst (plain_run rs (snd (plain_step r p))), s2)"
    "simulates s2 (snd (plain_run rs (snd (plain_step r p))))"
    using Cons.IH [OF calculation(2)] Cons.prems(2) by auto
  ultimately show ?case
    by (simp add: split_def Let_def)
qed simp

text \<open>C31: Caching is transparent.  A caching store over an inner store answers any sequence of gets, puts,
  deletes, range scans, full scans and flushes exactly as the plain inner store would have, and once it is
  flushed the inner store equals the plain store that saw all the writes.  (Ranges have their bounds in
  order; the cached range scan panics otherwise.)\<close>

theorem caching_store_transparent:
  assumes "imb_ok p" "\<forall>r \<in> set rs. ordered_req r"
  shows "\<exists>s. cached_run rs (ck_with_name (nc_new name) p name) = Some (fst (plain_run rs p), s) \<and>
    cs_inner (snd (ck_flush s)) = snd (plain_run rs p)"
proof -
  have "simulates (ck_with_name (nc_new name) p name) p"
    using assms(1) by (simp add: simulates_def ck_with_name_def ck_ok_def coherent_iff ck_view_def fun_eq_iff)
  from cached_run_simulates [OF this assms(2)] obtain s
    where s: "cached_run rs (ck_with_name (nc_new name) p name) = Some (fst (plain_run rs p), s)"
      "simulates s (snd (plain_run rs p))"
    by blast
  have "cs_inner (snd (ck_flush s)) = snd (plain_run rs p)"
    using s(2) by (intro imb_scan_inj bt_ext) (simp_all add: simulates_def ck_flush_view imb.scan_ok imb.scan_get)
  then show ?thesis
    using s(1) by blast
qed

lemma caching_store_transparent_witness:
  "\<forall>ctx. \<exists>s. cached_run [PutReq [1] [7] ctx, Range [0] [2], DeleteReq [1] ctx, Get [1], FlushReq, ScanAll]
         (ck_with_name (nc_new ''t'') (imb_put [3] [9] imb_new) ''t'') =
       Some ([Done, Entries [([1], [7])], Done, Val None, Done, Entries [([3], [9])]], s)"
proof
  fix ctx
  let ?rs = "[PutReq [1] [7] ctx, Range [0] [2], DeleteReq [1] ctx, Get [1], FlushReq, ScanAll]"
  have "imb_ok (imb_put [3] [9] imb_new)" "\<forall>r \<in> set ?rs. ordered_req r"
    by (simp_all add: imb.inv_put)
  moreover have "fst (plain_run ?rs (imb_put [3] [9] imb_new)) =
      [Done, Entries [([1], [7])], Done, Val None, Done, Entries [([3], [9])]]"
    by (simp add: imb_defs bt_remove_def)
  ultimately show "\<exists>s. cached_run ?rs (ck_with_name (nc_new ''t'') (imb_put [3] [9] imb_new) ''t'') =
       Some ([Done, Entries [([1], [7])], Done, Val None, Done, Entries [([3], [9])]], s)"
    using caching_store_transparent [of "imb_put [3] [9] imb_new" ?rs "''t''"] by auto
qed

text \<open>C32: Flushing with old values reports each dirty key exactly once, in the order the keys became dirty,
  with the value the inner store held before the flush as the old value and the current value (\<^term>\<open>None\<close>
  for a tombstone) as the new one, and leaves the store as a plain flush does: the inner store equal to what
  readers saw.\<close>

theorem flush_with_old_reports_once:
  assumes "ck_ok s"
  shows "\<exists>ks out s'. ck_flush_with_old s = (out, s') \<and> distinct ks \<and>
    set ks = {k. \<exists>e. nc_get k (cs_cache s) = Some e \<and> le_dirty e} \<and>
    map (\<lambda>(k, old, new, _). (k, old, new)) out = map (\<lambda>k. (k, imb_get (cs_inner s) k, ck_view s k)) ks \<and>
    ck_view s' = ck_view s \<and> imb_get (cs_inner s') = ck_view s \<and> nc_dirty (cs_cache s') = []"
proof -
  have ok: "nc_ok (cs_cache s)"
    using assms by (simp add: ck_ok_def)
  have "nc_dirty (cs_cache (snd (ck_flush s))) = []"
    by (simp add: ck_flush_def split_def Let_def nc_flush_def)
  then show ?thesis
    using ck_flush_with_old_eq [OF assms] dirty_keys [OF ok] ck_flush_view [OF assms]
    by (intro exI [of _ "map snd (nc_dirty (cs_cache s))"]) (auto simp: comp_def)
qed

lemma flush_with_old_reports_once_witness:
  "\<exists>out s'. ck_flush_with_old (ck_put [1] [7] \<lparr>rc_topic = ''t'', rc_partition = 0, rc_offset = 1, rc_timestamp = 2\<rparr>
       (ck_with_name (nc_new ''s'') (imb_put [1] [9] imb_new) ''s'')) = (out, s') \<and>
     imb_get (cs_inner s') [1] = Some [7]"
proof -
  let ?base = "ck_with_name (nc_new ''s'') (imb_put [1] [9] imb_new) ''s''"
  let ?s = "ck_put [1] [7] \<lparr>rc_topic = ''t'', rc_partition = 0, rc_offset = 1, rc_timestamp = 2\<rparr> ?base"
  have ok: "ck_ok ?base"
    by (simp add: ck_with_name_def ck_ok_def coherent_iff imb.inv_put)
  have "ck_view ?s [1] = Some [7]"
    using ck_put_ok(2) [OF ok] by simp
  moreover obtain out s' where "ck_flush_with_old ?s = (out, s')" "imb_get (cs_inner s') = ck_view ?s"
    using flush_with_old_reports_once [OF ck_put_ok(1) [OF ok]] by blast
  ultimately show ?thesis
    by simp
qed

text \<open>A range request with its lower bound above its upper bound panics in the cached store, while the
  plain store answers it with no entries.\<close>

lemma cached_range_panics:
  "hi < lo \<Longrightarrow> ck_range lo hi s = None \<and> imb_range lo hi p = []"
  by (auto simp: ck_range_def nc_range_def imb_range_def filter_empty_conv)

end
