(* ===== verification/Serdes.thy ===== *)
theory Serdes
  imports Rust_Prelude
begin

text \<open>
  \<^verbatim>\<open>processor/serde.rs\<close>: the trait \<^verbatim>\<open>Serde<T>\<close> as a record of its two methods, the built-in serdes, and
  the contract typed stores rely on, the locale \<open>serde_contract\<close>: on valid values deserialization undoes
  serialization.  \<^verbatim>\<open>valid\<close> carves the Rust type out of the HOL type (the \<^verbatim>\<open>i64\<close> range in \<^typ>\<open>int\<close>, the
  UTF-8 strings in \<^typ>\<open>string\<close>).  The built-in serdes interpret the contract.
\<close>

record 'a serde =
  sd_ser :: "string \<Rightarrow> 'a \<Rightarrow> bytes"
  sd_de :: "string \<Rightarrow> bytes \<Rightarrow> 'a option"

definition BytesSerde :: "bytes serde" where
  "BytesSerde = \<lparr>sd_ser = (\<lambda>_ v. v), sd_de = (\<lambda>_ bs. Some bs)\<rparr>"

definition StringSerde :: "string serde" where
  "StringSerde = \<lparr>sd_ser = (\<lambda>_ v. str_bytes v), sd_de = (\<lambda>_ bs. utf8_decode bs)\<rparr>"

definition I64Serde :: "int serde" where
  "I64Serde = \<lparr>sd_ser = (\<lambda>_ v. i64_to_be v),
     sd_de = (\<lambda>_ bs. if length bs = 8 then Some (i64_of_be bs) else None)\<rparr>"

locale serde_contract =
  fixes sd :: "'a serde" and valid :: "'a \<Rightarrow> bool"
  assumes roundtrip: "valid x \<Longrightarrow> sd_de sd t (sd_ser sd t x) = Some x"
begin

lemma ser_inj: "valid x \<Longrightarrow> valid y \<Longrightarrow> sd_ser sd t x = sd_ser sd t y \<longleftrightarrow> x = y"
  by (metis option.inject roundtrip)

lemma map_option_roundtrip:
  "(\<And>x. ox = Some x \<Longrightarrow> valid x) \<Longrightarrow>
   Option.bind (map_option (sd_ser sd t) ox) (sd_de sd t) = ox"
  by (cases ox) (simp_all add: roundtrip)

end

interpretation bytes_serde: serde_contract BytesSerde "\<lambda>_. True"
  by unfold_locales (simp add: BytesSerde_def)

interpretation string_serde: serde_contract StringSerde "\<lambda>s. utf8_valid (str_bytes s)"
  by unfold_locales (simp add: StringSerde_def utf8_decode_str_bytes)

interpretation i64_serde: serde_contract I64Serde in_i64
  by unfold_locales (simp add: I64Serde_def)

end
