(* ===== verification/Kv_Store.thy ===== *)
theory Kv_Store
  imports Caching_Store Serdes
begin

text \<open>
  \<^verbatim>\<open>store/kv.rs\<close>: the typed key-value store \<^verbatim>\<open>KeyValueBytesStore\<close> over a plain or cached backing, with
  its changelog hooks, snapshot and restore.  (\<^verbatim>\<open>store/api.rs\<close> declares the traits.)

  An \<^verbatim>\<open>expect\<close> on a failed deserialization is a panic: typed operations return \<^term>\<open>None\<close> there.
  \<^verbatim>\<open>get(&self)\<close> on a cached backing moves the key to the recent end of the LRU list, so reads return the
  store as well.

  The lemmas show that the backing interprets the byte-store contract, that the typed store behaves as a
  finite map from keys to values (reads see all writes, cached or not), and that replaying the changelog
  it emits rebuilds its contents.
\<close>

section \<open>Backing\<close>

datatype backing = Plain in_memory_bytes | Cached caching_store

fun backing_get :: "bytes \<Rightarrow> backing \<Rightarrow> bytes option \<times> backing" where
  "backing_get key (Plain b) = (imb_get b key, Plain b)"
| "backing_get key (Cached c) = (let (v, c') = ck_get key c in (v, Cached c'))"

fun backing_range :: "bytes \<Rightarrow> bytes \<Rightarrow> backing \<Rightarrow> entries option" where
  "backing_range lo hi (Plain b) = Some (imb_range lo hi b)"
| "backing_range lo hi (Cached c) = ck_range lo hi c"

fun backing_scan_all :: "backing \<Rightarrow> entries" where
  "backing_scan_all (Plain b) = imb_scan_all b"
| "backing_scan_all (Cached c) = ck_scan_all c"

fun backing_approx_len :: "backing \<Rightarrow> nat" where
  "backing_approx_len (Plain b) = imb_approx_len b"
| "backing_approx_len (Cached c) = length (ck_scan_all c)"

fun backing_put :: "bytes \<Rightarrow> bytes \<Rightarrow> record_context \<Rightarrow> backing \<Rightarrow> backing" where
  "backing_put key value ctx (Plain b) = Plain (imb_put key value b)"
| "backing_put key value ctx (Cached c) = Cached (ck_put key value ctx c)"

fun backing_delete :: "bytes \<Rightarrow> record_context \<Rightarrow> backing \<Rightarrow> bytes option \<times> backing" where
  "backing_delete key ctx (Plain b) = (let (prev, b') = imb_delete key b in (prev, Plain b'))"
| "backing_delete key ctx (Cached c) =
    (let (prev, c') = ck_get key c in (prev, Cached (ck_delete key ctx c')))"

fun backing_apply :: "bytes \<Rightarrow> bytes option \<Rightarrow> backing \<Rightarrow> backing" where
  "backing_apply key (Some v) (Plain b) = Plain (imb_put key v b)"
| "backing_apply key None (Plain b) = Plain (snd (imb_delete key b))"
| "backing_apply key (Some v) (Cached c) = Cached (ck_put_inner key v c)"
| "backing_apply key None (Cached c) = Cached (ck_delete_inner key c)"

fun backing_clear :: "backing \<Rightarrow> backing" where
  "backing_clear (Plain b) = Plain (imb_clear b)"
| "backing_clear (Cached c) = Cached (ck_clear c)"

definition backing_snapshot :: "backing \<Rightarrow> bytes option" where
  "backing_snapshot b = encode_byte_entries (backing_scan_all b)"

definition backing_restore :: "bytes \<Rightarrow> backing \<Rightarrow> backing result" where
  "backing_restore data b =
    (case decode_byte_entries data of
       Inl e \<Rightarrow> Inl e
     | Inr entries \<Rightarrow> Inr (foldl (\<lambda>b (key, value). backing_apply key (Some value) b) (backing_clear b) entries))"

section \<open>KeyValueBytesStore\<close>

record ('k, 'v) kv_store =
  kv_name :: string
  kv_changelog_topic :: string
  kv_backing :: backing
  kv_key_serde :: "'k serde"
  kv_value_serde :: "'v serde"
  kv_changelog :: "(bytes \<times> bytes option) list"
  kv_logging :: bool
  kv_pending_ctx :: "record_context option"

definition kv_new ::
  "string \<Rightarrow> in_memory_bytes \<Rightarrow> 'k serde \<Rightarrow> 'v serde \<Rightarrow> string \<Rightarrow> ('k, 'v) kv_store" where
  "kv_new name backend key_serde value_serde changelog_topic =
    \<lparr>kv_name = name, kv_changelog_topic = changelog_topic, kv_backing = Plain backend,
     kv_key_serde = key_serde, kv_value_serde = value_serde, kv_changelog = [], kv_logging = True,
     kv_pending_ctx = None\<rparr>"

definition kv_enable_cache :: "named_cache \<Rightarrow> ('k, 'v) kv_store \<Rightarrow> ('k, 'v) kv_store" where
  "kv_enable_cache cache s =
    (case kv_backing s of
       Plain backend \<Rightarrow> s\<lparr>kv_backing := Cached (ck_with_name cache backend (kv_name s))\<rparr>
     | Cached _ \<Rightarrow> s)"

definition kv_is_cached :: "('k, 'v) kv_store \<Rightarrow> bool" where
  "kv_is_cached s = (case kv_backing s of Cached _ \<Rightarrow> True | Plain _ \<Rightarrow> False)"

definition kv_in_memory :: "string \<Rightarrow> 'k serde \<Rightarrow> 'v serde \<Rightarrow> string \<Rightarrow> ('k, 'v) kv_store" where
  "kv_in_memory name key_serde value_serde changelog_topic =
     kv_new name imb_new key_serde value_serde changelog_topic"

definition kv_write_ctx :: "('k, 'v) kv_store \<Rightarrow> record_context" where
  "kv_write_ctx s =
    (case kv_pending_ctx s of
       Some ctx \<Rightarrow> ctx
     | None \<Rightarrow> \<lparr>rc_topic = kv_changelog_topic s, rc_partition = 0, rc_offset = 0, rc_timestamp = 0\<rparr>)"

definition kv_take_changelog :: "('k, 'v) kv_store \<Rightarrow> (bytes \<times> bytes option) list \<times> ('k, 'v) kv_store" where
  "kv_take_changelog s = (kv_changelog s, s\<lparr>kv_changelog := []\<rparr>)"

definition kv_apply_changelog :: "bytes \<Rightarrow> bytes option \<Rightarrow> ('k, 'v) kv_store \<Rightarrow> ('k, 'v) kv_store" where
  "kv_apply_changelog key value s = s\<lparr>kv_backing := backing_apply key value (kv_backing s)\<rparr>"

definition kv_set_logging :: "bool \<Rightarrow> ('k, 'v) kv_store \<Rightarrow> ('k, 'v) kv_store" where
  "kv_set_logging on s = s\<lparr>kv_logging := on\<rparr>"

definition kv_set_record_context :: "record_context \<Rightarrow> ('k, 'v) kv_store \<Rightarrow> ('k, 'v) kv_store" where
  "kv_set_record_context ctx s = s\<lparr>kv_pending_ctx := Some ctx\<rparr>"

text \<open>\<^verbatim>\<open>dsl/processors/change.rs\<close>: the value a table propagates.\<close>

record 'v change =
  ch_old :: "'v option"
  ch_new :: "'v option"

definition change_update :: "'v option \<Rightarrow> 'v \<Rightarrow> 'v change" where
  "change_update old new = \<lparr>ch_old = old, ch_new = Some new\<rparr>"

definition change_tombstone :: "'v option \<Rightarrow> 'v change" where
  "change_tombstone old = \<lparr>ch_old = old, ch_new = None\<rparr>"

definition is_tombstone :: "'v change \<Rightarrow> bool" where
  "is_tombstone c \<longleftrightarrow> ch_new c = None"

definition change_map :: "('v \<Rightarrow> 'w) \<Rightarrow> 'v change \<Rightarrow> 'w change" where
  "change_map f c = \<lparr>ch_old = map_option f (ch_old c), ch_new = map_option f (ch_new c)\<rparr>"

text \<open>A deserialization under \<^verbatim>\<open>expect\<close>, lifted over an optional value: the outer option is the panic.\<close>

definition de_opt :: "'a serde \<Rightarrow> string \<Rightarrow> bytes option \<Rightarrow> 'a option option" where
  "de_opt sd t ob = (case ob of None \<Rightarrow> Some None | Some b \<Rightarrow> map_option Some (sd_de sd t b))"

text \<open>A record forwarded to a child node: the child, the key, the change and the timestamp.\<close>

type_synonym ('k, 'v) forwarded = "nat \<times> 'k \<times> 'v change \<times> int"

definition kv_forward :: "('k, 'v) kv_store \<Rightarrow> flushed \<Rightarrow> nat \<Rightarrow> ('k, 'v) forwarded option" where
  "kv_forward s fl child =
    (case fl of (kb, old_vb, new_vb, ctx) \<Rightarrow>
      do { k \<leftarrow> sd_de (kv_key_serde s) (kv_changelog_topic s) kb;
           old \<leftarrow> de_opt (kv_value_serde s) (kv_changelog_topic s) old_vb;
           new \<leftarrow> de_opt (kv_value_serde s) (kv_changelog_topic s) new_vb;
           Some (child, k, \<lparr>ch_old = old, ch_new = new\<rparr>, rc_timestamp ctx) })"

fun collect_opt :: "'a option list \<Rightarrow> 'a list option" where
  "collect_opt [] = Some []"
| "collect_opt (x # xs) = do { y \<leftarrow> x; ys \<leftarrow> collect_opt xs; Some (y # ys) }"

definition kv_flush_cache_into ::
  "nat list \<Rightarrow> ('k, 'v) kv_store \<Rightarrow> (('k, 'v) forwarded list \<times> ('k, 'v) kv_store) option" where
  "kv_flush_cache_into children s =
    (case kv_backing s of
       Plain _ \<Rightarrow> Some ([], s)
     | Cached cache \<Rightarrow>
        let (drained, cache') = ck_flush_with_old cache;
            log = (if kv_logging s then map (\<lambda>(kb, _, new_vb, _). (kb, new_vb)) drained else [])
        in do { pushed \<leftarrow> collect_opt (concat (map (\<lambda>fl. map (kv_forward s fl) children) drained));
                Some (pushed, s\<lparr>kv_backing := Cached cache', kv_changelog := kv_changelog s @ log\<rparr>) })"

definition kv_clear :: "('k, 'v) kv_store \<Rightarrow> ('k, 'v) kv_store" where
  "kv_clear s = s\<lparr>kv_backing := backing_clear (kv_backing s), kv_changelog := []\<rparr>"

definition kv_snapshot :: "('k, 'v) kv_store \<Rightarrow> bytes option" where
  "kv_snapshot s = backing_snapshot (kv_backing s)"

definition kv_restore_snapshot :: "bytes \<Rightarrow> ('k, 'v) kv_store \<Rightarrow> ('k, 'v) kv_store result" where
  "kv_restore_snapshot data s =
    (case backing_restore data (kv_backing s) of
       Inl e \<Rightarrow> Inl e
     | Inr b \<Rightarrow> Inr (s\<lparr>kv_backing := b, kv_changelog := []\<rparr>))"

definition kv_get :: "'k \<Rightarrow> ('k, 'v) kv_store \<Rightarrow> ('v option \<times> ('k, 'v) kv_store) option" where
  "kv_get key s =
    (let kb = sd_ser (kv_key_serde s) (kv_changelog_topic s) key;
         (vb, b) = backing_get kb (kv_backing s)
     in map_option (\<lambda>v. (v, s\<lparr>kv_backing := b\<rparr>)) (de_opt (kv_value_serde s) (kv_changelog_topic s) vb))"

definition kv_put :: "'k \<Rightarrow> 'v \<Rightarrow> ('k, 'v) kv_store \<Rightarrow> ('k, 'v) kv_store" where
  "kv_put key value s =
    (let kb = sd_ser (kv_key_serde s) (kv_changelog_topic s) key;
         vb = sd_ser (kv_value_serde s) (kv_changelog_topic s) value
     in case kv_backing s of
          Plain _ \<Rightarrow>
            let s' = s\<lparr>kv_backing := backing_put kb vb (kv_write_ctx s) (kv_backing s)\<rparr>
            in if kv_logging s then s'\<lparr>kv_changelog := kv_changelog s' @ [(kb, Some vb)]\<rparr> else s'
        | Cached _ \<Rightarrow> s\<lparr>kv_backing := backing_put kb vb (kv_write_ctx s) (kv_backing s)\<rparr>)"

definition kv_delete :: "'k \<Rightarrow> ('k, 'v) kv_store \<Rightarrow> ('v option \<times> ('k, 'v) kv_store) option" where
  "kv_delete key s =
    (let kb = sd_ser (kv_key_serde s) (kv_changelog_topic s) key;
         ctx = kv_write_ctx s;
         cached = kv_is_cached s;
         (prev, b) = backing_delete kb ctx (kv_backing s);
         s' = s\<lparr>kv_backing := b\<rparr>
     in map_option
          (\<lambda>p. (p, if kv_logging s' \<and> \<not> cached then s'\<lparr>kv_changelog := kv_changelog s' @ [(kb, None)]\<rparr> else s'))
          (de_opt (kv_value_serde s) (kv_changelog_topic s) prev))"

definition kv_decode_entry :: "('k, 'v) kv_store \<Rightarrow> bytes \<times> bytes \<Rightarrow> ('k \<times> 'v) option" where
  "kv_decode_entry s kv =
    do { k \<leftarrow> sd_de (kv_key_serde s) (kv_changelog_topic s) (fst kv);
         v \<leftarrow> sd_de (kv_value_serde s) (kv_changelog_topic s) (snd kv);
         Some (k, v) }"

definition kv_range :: "'k \<Rightarrow> 'k \<Rightarrow> ('k, 'v) kv_store \<Rightarrow> ('k \<times> 'v) list option" where
  "kv_range lo hi s =
    (let lo_b = sd_ser (kv_key_serde s) (kv_changelog_topic s) lo;
         hi_b = sd_ser (kv_key_serde s) (kv_changelog_topic s) hi
     in do { es \<leftarrow> backing_range lo_b hi_b (kv_backing s); collect_opt (map (kv_decode_entry s) es) })"

section \<open>Interactive queries\<close>

definition kv_iq_get :: "bytes \<Rightarrow> ('k, 'v) kv_store \<Rightarrow> bytes option \<times> backing" where
  "kv_iq_get key s = backing_get key (kv_backing s)"

definition kv_iq_range :: "bytes \<Rightarrow> bytes \<Rightarrow> ('k, 'v) kv_store \<Rightarrow> entries option" where
  "kv_iq_range lo hi s = backing_range lo (hi @ [0]) (kv_backing s)"

definition kv_iq_all :: "('k, 'v) kv_store \<Rightarrow> entries" where
  "kv_iq_all s = backing_scan_all (kv_backing s)"

definition kv_iq_approx_count :: "('k, 'v) kv_store \<Rightarrow> nat" where
  "kv_iq_approx_count s = backing_approx_len (kv_backing s)"

text \<open>\<^verbatim>\<open>iq2_execute\<close>.  A key arrives as \<^verbatim>\<open>Box<dyn Any>\<close>: \<^term>\<open>None\<close> is a value of another type, which the
  downcast rejects.  \<^verbatim>\<open>OtherQuery\<close> stands for the query kinds this store does not answer.  The outermost option
  is the panic of a failed deserialization.\<close>

type_synonym 'k any_key = "'k option"

datatype 'k iq2_query =
    KeyQuery "'k any_key"
  | RangeQuery "'k any_key option" "'k any_key option" bool
  | OtherQuery

datatype iq2_failure = KeyTypeMismatch | UnknownQueryType

datatype ('k, 'v) iq2_answer = ValueAnswer "'v option" | RowsAnswer "('k \<times> 'v) list"

definition iq2_ser :: "('k, 'v) kv_store \<Rightarrow> 'k any_key \<Rightarrow> iq2_failure + bytes" where
  "iq2_ser s b =
    (case b of None \<Rightarrow> Inl KeyTypeMismatch | Some k \<Rightarrow> Inr (sd_ser (kv_key_serde s) (kv_changelog_topic s) k))"

definition iq2_bound :: "('k, 'v) kv_store \<Rightarrow> 'k any_key option \<Rightarrow> iq2_failure + bytes option" where
  "iq2_bound s b = (case b of None \<Rightarrow> Inr None | Some k \<Rightarrow> map_sum id Some (iq2_ser s k))"

definition kv_iq2_rows :: "bytes option \<Rightarrow> bytes option \<Rightarrow> ('k, 'v) kv_store \<Rightarrow> ('k \<times> 'v) list option" where
  "kv_iq2_rows lo_b hi_b s =
     collect_opt (map (kv_decode_entry s)
       (filter (\<lambda>(kb, _). (case lo_b of None \<Rightarrow> True | Some l \<Rightarrow> \<not> kb < l) \<and>
                          (case hi_b of None \<Rightarrow> True | Some h \<Rightarrow> \<not> h < kb))
          (backing_scan_all (kv_backing s))))"

definition kv_iq2_execute ::
  "'k iq2_query \<Rightarrow> ('k, 'v) kv_store \<Rightarrow> (iq2_failure + ('k, 'v) iq2_answer) option" where
  "kv_iq2_execute query s =
    (case query of
       KeyQuery key \<Rightarrow>
         (case iq2_ser s key of
            Inl e \<Rightarrow> Some (Inl e)
          | Inr kb \<Rightarrow> map_option (\<lambda>v. Inr (ValueAnswer v))
              (de_opt (kv_value_serde s) (kv_changelog_topic s) (fst (backing_get kb (kv_backing s)))))
     | RangeQuery lo hi descending \<Rightarrow>
         (case iq2_bound s lo of
            Inl e \<Rightarrow> Some (Inl e)
          | Inr lo_b \<Rightarrow>
             (case iq2_bound s hi of
                Inl e \<Rightarrow> Some (Inl e)
              | Inr hi_b \<Rightarrow>
                  map_option (\<lambda>rows. Inr (RowsAnswer (if descending then rev rows else rows)))
                    (kv_iq2_rows lo_b hi_b s)))
     | OtherQuery \<Rightarrow> Some (Inl UnknownQueryType))"

section \<open>The backing is a byte store\<close>

fun backing_ok :: "backing \<Rightarrow> bool" where
  "backing_ok (Plain b) = imb_ok b"
| "backing_ok (Cached c) = ck_ok c"

fun backing_view :: "backing \<Rightarrow> bytes \<Rightarrow> bytes option" where
  "backing_view (Plain b) = imb_get b"
| "backing_view (Cached c) = ck_view c"

text \<open>What is below the cache: the part a changelog describes.\<close>

fun backing_durable :: "backing \<Rightarrow> bytes \<Rightarrow> bytes option" where
  "backing_durable (Plain b) = imb_get b"
| "backing_durable (Cached c) = imb_get (cs_inner c)"

fun cached_keys :: "backing \<Rightarrow> bytes set" where
  "cached_keys (Plain b) = {}"
| "cached_keys (Cached c) = {k. nc_get k (cs_cache c) \<noteq> None}"

lemma backing_get_view:
  assumes "backing_ok b"
  shows "fst (backing_get k b) = backing_view b k" "backing_ok (snd (backing_get k b))"
    "backing_view (snd (backing_get k b)) = backing_view b"
    "backing_durable (snd (backing_get k b)) = backing_durable b"
    "cached_keys (snd (backing_get k b)) = cached_keys b"
    "(\<exists>c. snd (backing_get k b) = Cached c) \<longleftrightarrow> (\<exists>c. b = Cached c)"
proof -
  have "nc_get k' (cs_cache (snd (ck_get k c))) = nc_get k' (cs_cache c)" if "ck_ok c" for c k'
    using that nc_get_promoted [of "cs_cache c" k' k]
    by (simp add: ck_get_def ck_ok_def Let_def split_def split: option.splits)
  then show "fst (backing_get k b) = backing_view b k" "backing_ok (snd (backing_get k b))"
    "backing_view (snd (backing_get k b)) = backing_view b"
    "backing_durable (snd (backing_get k b)) = backing_durable b"
    "cached_keys (snd (backing_get k b)) = cached_keys b"
    "(\<exists>c. snd (backing_get k b) = Cached c) \<longleftrightarrow> (\<exists>c. b = Cached c)"
    using assms by (cases b; simp add: ck_get_view ck_get_state split_def Let_def)+
qed

lemma backing_put_view:
  assumes "backing_ok b"
  shows "backing_ok (backing_put k v ctx b)"
    "backing_view (backing_put k v ctx b) = (backing_view b)(k \<mapsto> v)"
    "cached_keys (backing_put k v ctx b) \<subseteq> insert k (cached_keys b)"
proof -
  show "backing_ok (backing_put k v ctx b)" "backing_view (backing_put k v ctx b) = (backing_view b)(k \<mapsto> v)"
    using assms by (cases b; simp add: imb.inv_put imb.get_put ck_put_ok)+
  show "cached_keys (backing_put k v ctx b) \<subseteq> insert k (cached_keys b)"
    using assms by (cases b) (auto simp: ck_put_def nc_get_put ck_ok_def)
qed

lemma backing_delete_view:
  assumes "backing_ok b"
  shows "fst (backing_delete k ctx b) = backing_view b k"
    "backing_ok (snd (backing_delete k ctx b))"
    "backing_view (snd (backing_delete k ctx b)) = (backing_view b)(k := None)"
    "cached_keys (snd (backing_delete k ctx b)) \<subseteq> insert k (cached_keys b)"
proof -
  show "fst (backing_delete k ctx b) = backing_view b k" "backing_ok (snd (backing_delete k ctx b))"
    "backing_view (snd (backing_delete k ctx b)) = (backing_view b)(k := None)"
    using assms by (cases b; simp add: imb.inv_del imb.get_del imb.del_old ck_get_view ck_get_state ck_put_ok split_def Let_def)+
  show "cached_keys (snd (backing_delete k ctx b)) \<subseteq> insert k (cached_keys b)"
  proof (cases b)
    case (Cached c)
    then have ok: "nc_ok (cs_cache c)" "nc_ok (cs_cache (snd (ck_get k c)))"
      using assms ck_get_state(1) [of c k] by (auto simp: ck_ok_def)
    have "nc_get k' (cs_cache (snd (ck_get k c))) = nc_get k' (cs_cache c)" for k'
      using ok(1) nc_get_promoted [of "cs_cache c" k' k]
      by (simp add: ck_get_def Let_def split_def split: option.splits)
    then show ?thesis
      using ok Cached by (auto simp: split_def Let_def ck_delete_def nc_delete_def nc_get_put)
  qed (simp add: split_def Let_def)
qed

lemma backing_durable_write [simp]:
  "backing_durable (backing_put k v ctx (Cached c)) = backing_durable (Cached c)"
  "ck_ok c \<Longrightarrow> backing_durable (snd (backing_delete k ctx (Cached c))) = backing_durable (Cached c)"
  by (simp_all add: ck_put_def ck_delete_def split_def Let_def ck_get_state)

lemma backing_clear_view:
  "backing_ok b \<Longrightarrow> backing_ok (backing_clear b)" "backing_ok b \<Longrightarrow> backing_view (backing_clear b) = Map.empty"
  by (cases b; simp add: ck_clear_ok imb.inv_clr imb.get_clr)+

lemma backing_scan_view:
  "backing_ok b \<Longrightarrow> bt_ok (backing_scan_all b)" "backing_ok b \<Longrightarrow> map_of (backing_scan_all b) = backing_view b"
  by (cases b; simp add: imb.scan_ok imb.scan_get ck_scan_all_view)+

interpretation bk: byte_kv backing_ok backing_view "\<lambda>k v. backing_put k v ctx" "\<lambda>k. backing_delete k ctx"
    backing_scan_all backing_clear for ctx
  by unfold_locales
     (simp_all add: backing_put_view backing_delete_view backing_clear_view backing_scan_view)

text \<open>Restoring writes below an empty cache, so the view is exactly what was written.\<close>

lemma backing_apply_uncached:
  assumes "backing_ok b" "cached_keys b = {}"
  shows "backing_ok (backing_apply k ov b)" "cached_keys (backing_apply k ov b) = {}"
    "backing_view (backing_apply k ov b) = (backing_view b)(k := ov)"
proof -
  have "backing_ok (backing_apply k ov b) \<and> cached_keys (backing_apply k ov b) = {} \<and>
    backing_view (backing_apply k ov b) = (backing_view b)(k := ov)"
  proof (cases b)
    case (Plain i)
    then show ?thesis
      using assms by (cases ov) (simp_all add: imb.inv_put imb.inv_del imb.get_put imb.get_del)
  next
    case (Cached c)
    then have "nc_get k' (cs_cache c) = None" for k'
      using assms(2) by auto
    then show ?thesis
      using assms(1) Cached
      by (cases ov) (simp_all add: ck_put_inner_def ck_delete_inner_def ck_ok_def coherent_iff ck_view_def
          fun_eq_iff imb.inv_put imb.inv_del imb.get_put imb.get_del)
  qed
  then show "backing_ok (backing_apply k ov b)" "cached_keys (backing_apply k ov b) = {}"
    "backing_view (backing_apply k ov b) = (backing_view b)(k := ov)"
    by blast+
qed

lemma backing_apply_all:
  "backing_ok b \<Longrightarrow> cached_keys b = {} \<Longrightarrow>
   backing_ok (foldl (\<lambda>b (k, v). backing_apply k (Some v) b) b es) \<and>
   backing_view (foldl (\<lambda>b (k, v). backing_apply k (Some v) b) b es) = backing_view b ++ map_of (rev es)"
proof (induction es arbitrary: b)
  case (Cons p es)
  obtain k v where p: "p = (k, v)" by force
  note a = backing_apply_uncached [OF Cons.prems, of k "Some v"]
  show ?case
    using Cons.IH [OF a(1,2)] a(3) by (auto simp: p map_add_def fun_eq_iff split: option.splits)
qed simp

lemma cached_keys_clear [simp]: "cached_keys (backing_clear b) = {}"
  by (cases b) (simp_all add: ck_clear_def)

lemma backing_restore_snapshot:
  assumes "backing_ok b" "backing_ok b0" "backing_snapshot b = Some data"
  shows "\<exists>b'. backing_restore data b0 = Inr b' \<and> backing_ok b' \<and> backing_view b' = backing_view b"
proof -
  let ?es = "backing_scan_all b"
  let ?b = "foldl (\<lambda>b (k, v). backing_apply k (Some v) b) (backing_clear b0) ?es"
  have "backing_restore data b0 = Inr ?b"
    using assms(3) by (simp add: backing_restore_def backing_snapshot_def decode_encode_byte_entries)
  moreover have "backing_ok ?b \<and> backing_view ?b = Map.empty ++ map_of (rev ?es)"
    using backing_apply_all [of "backing_clear b0" ?es] backing_clear_view [OF assms(2)] by simp
  moreover have "map_of (rev ?es) = backing_view b"
    using backing_scan_view [OF assms(1)] by (simp add: map_of_rev_ok)
  ultimately show ?thesis
    by simp
qed

section \<open>Histories of a typed store\<close>

datatype ('k, 'v) kv_op =
    KGet 'k
  | KPut 'k 'v
  | KDelete 'k
  | KContext record_context
  | KFlush
  | KTake

text \<open>One operation: its response (for reads and deletes), the changelog records drained, the changes
  forwarded to the child nodes, and the store.\<close>

fun kv_step :: "nat list \<Rightarrow> ('k, 'v) kv_op \<Rightarrow> ('k, 'v) kv_store \<Rightarrow>
    ('v option list \<times> (bytes \<times> bytes option) list \<times> ('k, 'v) forwarded list \<times> ('k, 'v) kv_store) option" where
  "kv_step cs (KGet k) s = map_option (\<lambda>(v, s'). ([v], [], [], s')) (kv_get k s)"
| "kv_step cs (KPut k v) s = Some ([], [], [], kv_put k v s)"
| "kv_step cs (KDelete k) s = map_option (\<lambda>(v, s'). ([v], [], [], s')) (kv_delete k s)"
| "kv_step cs (KContext ctx) s = Some ([], [], [], kv_set_record_context ctx s)"
| "kv_step cs KFlush s = map_option (\<lambda>(fw, s'). ([], [], fw, s')) (kv_flush_cache_into cs s)"
| "kv_step cs KTake s = (let (log, s') = kv_take_changelog s in Some ([], log, [], s'))"

fun kv_run :: "nat list \<Rightarrow> ('k, 'v) kv_op list \<Rightarrow> ('k, 'v) kv_store \<Rightarrow>
    ('v option list \<times> (bytes \<times> bytes option) list \<times> ('k, 'v) forwarded list \<times> ('k, 'v) kv_store) option" where
  "kv_run cs [] s = Some ([], [], [], s)"
| "kv_run cs (oper # ops) s =
    do { (r, log, fw, s') \<leftarrow> kv_step cs oper s;
         (r', log', fw', s'') \<leftarrow> kv_run cs ops s';
         Some (r @ r', log @ log', fw @ fw', s'') }"

text \<open>The specification: a finite map.\<close>

fun map_step :: "('k, 'v) kv_op \<Rightarrow> ('k \<Rightarrow> 'v option) \<Rightarrow> 'v option list \<times> ('k \<Rightarrow> 'v option)" where
  "map_step (KGet k) m = ([m k], m)"
| "map_step (KPut k v) m = ([], m(k \<mapsto> v))"
| "map_step (KDelete k) m = ([m k], m(k := None))"
| "map_step (KContext _) m = ([], m)"
| "map_step KFlush m = ([], m)"
| "map_step KTake m = ([], m)"

fun map_run :: "('k, 'v) kv_op list \<Rightarrow> ('k \<Rightarrow> 'v option) \<Rightarrow> 'v option list \<times> ('k \<Rightarrow> 'v option)" where
  "map_run [] m = ([], m)"
| "map_run (oper # ops) m =
    (let (r, m') = map_step oper m; (r', m'') = map_run ops m' in (r @ r', m''))"

fun op_valid :: "('k \<Rightarrow> bool) \<Rightarrow> ('v \<Rightarrow> bool) \<Rightarrow> ('k, 'v) kv_op \<Rightarrow> bool" where
  "op_valid vk vv (KGet k) = vk k"
| "op_valid vk vv (KPut k v) = (vk k \<and> vv v)"
| "op_valid vk vv (KDelete k) = vk k"
| "op_valid vk vv _ = True"

lemma kv_run_append:
  "kv_run cs (xs @ ys) s =
    do { (r, l, f, s1) \<leftarrow> kv_run cs xs s; (r', l', f', s2) \<leftarrow> kv_run cs ys s1; Some (r @ r', l @ l', f @ f', s2) }"
  by (induction xs arbitrary: s) (auto split: option.splits bind_splits)

text \<open>A consistent stream of changes: each one's old value is what the changes before it left.\<close>

fun apply_changes :: "('k \<times> 'v change) list \<Rightarrow> ('k \<Rightarrow> 'v option) \<Rightarrow> ('k \<Rightarrow> 'v option) option" where
  "apply_changes [] m = Some m"
| "apply_changes ((k, c) # cs) m = (if m k = ch_old c then apply_changes cs (m(k := ch_new c)) else None)"

lemma apply_changes_append:
  "apply_changes (xs @ ys) m = Option.bind (apply_changes xs m) (apply_changes ys)"
  by (induction xs arbitrary: m) auto

definition changes_to :: "nat \<Rightarrow> ('k, 'v) forwarded list \<Rightarrow> ('k \<times> 'v change) list" where
  "changes_to c fw = map (\<lambda>(_, k, ch, _). (k, ch)) (filter (\<lambda>(c', _). c' = c) fw)"

lemma changes_to_append [simp]: "changes_to c (xs @ ys) = changes_to c xs @ changes_to c ys"
  by (simp add: changes_to_def)

lemma changes_to_Nil [simp]: "changes_to c [] = []"
  by (simp add: changes_to_def)

text \<open>A byte map and a typed map holding the same entries.\<close>

definition typed_as ::
  "('k \<Rightarrow> bytes) \<Rightarrow> ('k \<Rightarrow> bool) \<Rightarrow> ('v \<Rightarrow> bytes) \<Rightarrow> ('v \<Rightarrow> bool) \<Rightarrow> (bytes \<Rightarrow> bytes option) \<Rightarrow> ('k \<Rightarrow> 'v option) \<Rightarrow> bool" where
  "typed_as sk vk sv vv f m \<longleftrightarrow>
     (\<forall>kb vb. f kb = Some vb \<longrightarrow> (\<exists>k v. vk k \<and> vv v \<and> kb = sk k \<and> vb = sv v \<and> m k = Some v)) \<and>
     (\<forall>k v. m k = Some v \<longrightarrow> vk k \<and> vv v \<and> f (sk k) = Some (sv v))"

lemma typed_as_empty [simp]: "typed_as sk vk sv vv Map.empty Map.empty"
  by (simp add: typed_as_def)

lemma typed_as_get:
  assumes "typed_as sk vk sv vv f m" "vk k" "\<And>x y. vk x \<Longrightarrow> vk y \<Longrightarrow> sk x = sk y \<Longrightarrow> x = y"
  shows "f (sk k) = map_option sv (m k)"
proof (cases "m k")
  case None
  show ?thesis
  proof (cases "f (sk k)")
    case (Some vb)
    then obtain k' v where "vk k'" "sk k = sk k'" "m k' = Some v"
      using assms(1) unfolding typed_as_def by blast
    then have "k = k'"
      using assms(2,3) by blast
    then show ?thesis
      using None \<open>m k' = Some v\<close> by simp
  qed (simp add: None)
next
  case (Some v)
  then show ?thesis
    using assms(1) unfolding typed_as_def by simp
qed

lemma typed_as_valid:
  "typed_as sk vk sv vv f m \<Longrightarrow> m k = Some v \<Longrightarrow> vk k \<and> vv v"
  unfolding typed_as_def by blast

lemma typed_as_upd:
  assumes t: "typed_as sk vk sv vv f m" and k: "vk k" and v: "\<And>x. ov = Some x \<Longrightarrow> vv x"
    and inj: "\<And>x y. vk x \<Longrightarrow> vk y \<Longrightarrow> sk x = sk y \<Longrightarrow> x = y"
  shows "typed_as sk vk sv vv (f(sk k := map_option sv ov)) (m(k := ov))"
  unfolding typed_as_def
proof (intro conjI allI impI)
  fix kb vb
  assume f: "(f(sk k := map_option sv ov)) kb = Some vb"
  show "\<exists>k' v'. vk k' \<and> vv v' \<and> kb = sk k' \<and> vb = sv v' \<and> (m(k := ov)) k' = Some v'"
  proof (cases "kb = sk k")
    case True
    then show ?thesis
      using f k v by auto
  next
    case False
    then have "f kb = Some vb"
      using f by simp
    then obtain k' v' where "vk k'" "vv v'" "kb = sk k'" "vb = sv v'" "m k' = Some v'"
      using t unfolding typed_as_def by blast
    then show ?thesis
      using False by auto
  qed
next
  fix k' v'
  assume m: "(m(k := ov)) k' = Some v'"
  have "(k' = k \<and> ov = Some v') \<or> (k' \<noteq> k \<and> m k' = Some v')"
    using m by (auto split: if_splits)
  then show "vk k'" "vv v'" "(f(sk k := map_option sv ov)) (sk k') = Some (sv v')"
    using k v t inj [of k' k] unfolding typed_as_def by auto
qed

text \<open>The store holds the typed map \<open>m\<close> for its readers and \<open>d\<close> below the cache.\<close>

definition kv_holds ::
  "'k serde \<Rightarrow> ('k \<Rightarrow> bool) \<Rightarrow> 'v serde \<Rightarrow> ('v \<Rightarrow> bool) \<Rightarrow> ('k, 'v) kv_store \<Rightarrow> ('k \<Rightarrow> 'v option) \<Rightarrow> ('k \<Rightarrow> 'v option) \<Rightarrow> bool" where
  "kv_holds ks vk vs vv s m d \<longleftrightarrow>
     kv_key_serde s = ks \<and> kv_value_serde s = vs \<and> backing_ok (kv_backing s) \<and>
     typed_as (sd_ser ks (kv_changelog_topic s)) vk (sd_ser vs (kv_changelog_topic s)) vv (backing_view (kv_backing s)) m \<and>
     typed_as (sd_ser ks (kv_changelog_topic s)) vk (sd_ser vs (kv_changelog_topic s)) vv (backing_durable (kv_backing s)) d \<and>
     (\<forall>kb \<in> cached_keys (kv_backing s). \<exists>k. vk k \<and> kb = sd_ser ks (kv_changelog_topic s) k) \<and>
     (\<not> kv_is_cached s \<longrightarrow> d = m)"

text \<open>What an operation does to the durable part: the drained and buffered changelog describes it, and so do
  the forwarded changes.\<close>

definition logs :: "(bytes \<Rightarrow> bytes option) \<Rightarrow> (bytes \<times> bytes option) list \<Rightarrow> (bytes \<Rightarrow> bytes option) \<Rightarrow> bool" where
  "logs f log g \<longleftrightarrow> (\<forall>kb. g kb = (case log_view log kb of None \<Rightarrow> f kb | Some v \<Rightarrow> v))"

lemma logs_Nil [simp]: "logs f [] g \<longleftrightarrow> g = f"
  by (auto simp: logs_def)

lemma logs_append: "logs f xs g \<Longrightarrow> logs g ys h \<Longrightarrow> logs f (xs @ ys) h"
  by (simp add: logs_def log_view_append split: option.splits)

lemma logs_single [simp]: "logs f [(k, ov)] (f(k := ov))"
  by (simp add: logs_def log_view_def)

lemma collect_opt_map_Some:
  "(\<And>x. x \<in> set xs \<Longrightarrow> f x = Some (h x)) \<Longrightarrow> collect_opt (map f xs) = Some (map h xs)"
  by (induction xs) simp_all

lemma concat_map_product: "concat (map (\<lambda>x. map (f x) ys) xs) = map (\<lambda>(x, y). f x y) (List.product xs ys)"
  by (induction xs) (simp_all add: comp_def)

lemma apply_changes_distinct:
  "distinct ks \<Longrightarrow> (\<And>k. k \<in> set ks \<Longrightarrow> d' k = d k) \<Longrightarrow>
   apply_changes (map (\<lambda>k. (k, \<lparr>ch_old = d k, ch_new = m k\<rparr>)) ks) d' =
     Some (\<lambda>k. if k \<in> set ks then m k else d' k)"
proof (induction ks arbitrary: d')
  case (Cons k ks)
  have "apply_changes (map (\<lambda>k. (k, \<lparr>ch_old = d k, ch_new = m k\<rparr>)) ks) (d'(k := m k)) =
     Some (\<lambda>x. if x \<in> set ks then m x else (d'(k := m k)) x)"
    using Cons.prems by (intro Cons.IH) auto
  then show ?case
    using Cons.prems by (auto simp: fun_eq_iff)
qed simp

lemma filter_product_snd:
  "distinct ys \<Longrightarrow> y \<in> set ys \<Longrightarrow>
   map fst (filter (\<lambda>(x, y'). y' = y) (List.product xs ys)) = xs"
proof (induction xs)
  case (Cons x xs)
  have "filter (\<lambda>y'. y' = y) ys = [y]"
    using Cons.prems by (induction ys) (auto simp: filter_empty_conv)
  then show ?case
    using Cons by (simp add: filter_map comp_def)
qed simp

text \<open>A scan of a backing that holds a typed map is the image of a list of typed entries in key order.\<close>

lemma typed_list:
  assumes t: "typed_as sk vk sv vv (map_of es) m" and ok: "bt_ok es"
    and inj: "\<And>x y. vk x \<Longrightarrow> vk y \<Longrightarrow> sk x = sk y \<Longrightarrow> x = y"
  obtains L where "es = map (\<lambda>(k, v). (sk k, sv v)) L" "\<And>k v. (k, v) \<in> set L \<longleftrightarrow> m k = Some v"
    "\<And>k v. (k, v) \<in> set L \<Longrightarrow> vk k \<and> vv v" "sorted_wrt (\<lambda>p q. sk (fst p) < sk (fst q)) L"
proof -
  have "\<forall>e \<in> set es. \<exists>p. vk (fst p) \<and> vv (snd p) \<and> e = (sk (fst p), sv (snd p)) \<and> m (fst p) = Some (snd p)"
  proof
    fix e
    assume "e \<in> set es"
    then have "map_of es (fst e) = Some (snd e)"
      by (simp add: bt_ok_map_of_iff [OF ok])
    then obtain k v where "vk k" "vv v" "fst e = sk k" "snd e = sv v" "m k = Some v"
      using t unfolding typed_as_def by blast
    then show "\<exists>p. vk (fst p) \<and> vv (snd p) \<and> e = (sk (fst p), sv (snd p)) \<and> m (fst p) = Some (snd p)"
      by (intro exI [of _ "(k, v)"]) (simp add: prod_eq_iff)
  qed
  then obtain f where f: "\<forall>e \<in> set es. vk (fst (f e)) \<and> vv (snd (f e)) \<and> e = (sk (fst (f e)), sv (snd (f e))) \<and> m (fst (f e)) = Some (snd (f e))"
    by (rule bchoice [THEN exE])
  define L where "L = map f es"
  have es: "es = map (\<lambda>(k, v). (sk k, sv v)) L"
    using f by (simp add: L_def split_def map_idI)
  have L1: "m k = Some v \<and> vk k \<and> vv v" if kv: "(k, v) \<in> set L" for k v
  proof -
    obtain e where "e \<in> set es" "(k, v) = f e"
      using kv unfolding L_def by (metis image_iff list.set_map)
    then show ?thesis
      using f by (metis fst_conv snd_conv)
  qed
  have L2: "(k, v) \<in> set L" if mk: "m k = Some v" for k v
  proof -
    have "map_of es (sk k) = Some (sv v)" "vk k"
      using t mk unfolding typed_as_def by auto
    then have "(sk k, sv v) \<in> set es"
      by (simp add: map_of_SomeD)
    then obtain k' v' where kv': "(k', v') \<in> set L" "sk k' = sk k"
      unfolding es by (auto simp: image_iff)
    have "k' = k"
      using inj [of k' k] L1 [OF kv'(1)] kv'(2) \<open>vk k\<close> by simp
    then show ?thesis
      using L1 [OF kv'(1)] kv'(1) mk by simp
  qed
  have "sorted_wrt (\<lambda>p q. sk (fst p) < sk (fst q)) L"
    using ok by (simp add: bt_ok_def es sorted_wrt_map comp_def split_def)
  then show thesis
    using that [of L] es L1 L2 by blast
qed

lemma collect_opt_typed:
  "(\<And>k v. (k, v) \<in> set L \<Longrightarrow> F (sk k, sv v) = Some (G k v)) \<Longrightarrow>
   collect_opt (map F (map (\<lambda>(k, v). (sk k, sv v)) L)) = Some (map (\<lambda>(k, v). G k v) L)"
  by (induction L) (auto split: prod.splits)

lemma backing_range_view:
  "backing_ok b \<Longrightarrow> lo \<le> hi \<Longrightarrow> backing_range lo hi b = Some (bt_range lo hi (backing_scan_all b))"
  by (cases b) (simp_all add: imb_range_bt ck_range_view)

lemma bt_range_map:
  "bt_range lo hi (map (\<lambda>(k, v). (sk k, sv v)) L) = map (\<lambda>(k, v). (sk k, sv v)) (filter (\<lambda>(k, v). lo \<le> sk k \<and> sk k < hi) L)"
  by (simp add: bt_range_def filter_map comp_def split_def)

locale kv_serdes = key: serde_contract ks vk + val: serde_contract vs vv
  for ks :: "'k serde" and vk :: "'k \<Rightarrow> bool" and vs :: "'v serde" and vv :: "'v \<Rightarrow> bool"
begin

lemma key_inj: "vk x \<Longrightarrow> vk y \<Longrightarrow> sd_ser ks t x = sd_ser ks t y \<Longrightarrow> x = y"
  using key.ser_inj by blast

lemma de_opt_ser: "(\<And>v. ov = Some v \<Longrightarrow> vv v) \<Longrightarrow> de_opt vs t (map_option (sd_ser vs t) ov) = Some ov"
  by (cases ov) (simp_all add: de_opt_def val.roundtrip)

lemma holds_get:
  assumes h: "kv_holds ks vk vs vv s m d" and k: "vk k"
  shows "\<exists>s'. kv_get k s = Some (m k, s') \<and> kv_holds ks vk vs vv s' m d \<and>
    kv_changelog s' = kv_changelog s \<and> kv_logging s' = kv_logging s \<and> kv_is_cached s' = kv_is_cached s \<and>
    backing_durable (kv_backing s') = backing_durable (kv_backing s)"
proof -
  let ?t = "kv_changelog_topic s" and ?b = "kv_backing s"
  have b: "backing_ok ?b" and view: "typed_as (sd_ser ks ?t) vk (sd_ser vs ?t) vv (backing_view ?b) m"
    and sd: "kv_key_serde s = ks" "kv_value_serde s = vs"
    using h by (auto simp: kv_holds_def)
  note g = backing_get_view [OF b, of "sd_ser ks ?t k"]
  have "fst (backing_get (sd_ser ks ?t k) ?b) = map_option (sd_ser vs ?t) (m k)"
    using g(1) typed_as_get [OF view k key_inj] by simp
  moreover have "de_opt vs ?t (map_option (sd_ser vs ?t) (m k)) = Some (m k)"
    using typed_as_valid [OF view] by (intro de_opt_ser) blast
  ultimately have "kv_get k s = Some (m k, s\<lparr>kv_backing := snd (backing_get (sd_ser ks ?t k) ?b)\<rparr>)"
    using sd by (simp add: kv_get_def Let_def split_def)
  moreover have "kv_is_cached (s\<lparr>kv_backing := snd (backing_get (sd_ser ks ?t k) ?b)\<rparr>) = kv_is_cached s"
    by (cases ?b) (simp_all add: kv_is_cached_def split_def Let_def)
  ultimately show ?thesis
    using h g by (auto simp: kv_holds_def)
qed

lemma holds_put:
  assumes h: "kv_holds ks vk vs vv s m d" and k: "vk k" "vv v"
  defines "s' \<equiv> kv_put k v s"
  shows "\<exists>d' log. kv_holds ks vk vs vv s' (m(k \<mapsto> v)) d' \<and> kv_changelog s' = kv_changelog s @ log \<and>
    kv_logging s' = kv_logging s \<and> kv_is_cached s' = kv_is_cached s \<and>
    (kv_logging s \<longrightarrow> logs (backing_durable (kv_backing s)) log (backing_durable (kv_backing s'))) \<and>
    (kv_is_cached s \<longrightarrow> d' = d)"
proof -
  let ?t = "kv_changelog_topic s" and ?b = "kv_backing s"
  let ?kb = "sd_ser ks ?t k" and ?vb = "sd_ser vs ?t v"
  have b: "backing_ok ?b" and view: "typed_as (sd_ser ks ?t) vk (sd_ser vs ?t) vv (backing_view ?b) m"
    and sd: "kv_key_serde s = ks" "kv_value_serde s = vs"
    using h by (auto simp: kv_holds_def)
  let ?b' = "backing_put ?kb ?vb (kv_write_ctx s) ?b"
  note p = backing_put_view [OF b, of ?kb ?vb "kv_write_ctx s"]
  have view': "typed_as (sd_ser ks ?t) vk (sd_ser vs ?t) vv (backing_view ?b') (m(k \<mapsto> v))"
    using typed_as_upd [OF view k(1), of "Some v"] k(2) key_inj by (simp add: p(2))
  have keys: "\<forall>kb \<in> cached_keys ?b'. \<exists>k. vk k \<and> kb = sd_ser ks ?t k"
    using h p(3) k(1) by (auto simp: kv_holds_def)
  show ?thesis
  proof (cases ?b)
    case (Plain i)
    then have "s' = s\<lparr>kv_backing := ?b', kv_changelog := kv_changelog s @ (if kv_logging s then [(?kb, Some ?vb)] else [])\<rparr>"
      using sd by (simp add: s'_def kv_put_def Let_def)
    moreover have "backing_durable ?b' = (backing_durable ?b)(?kb \<mapsto> ?vb)" "backing_durable ?b' = backing_view ?b'"
      using p(2) Plain by simp_all
    ultimately show ?thesis
      using Plain h p(1) view' keys sd
      by (intro exI [of _ "m(k \<mapsto> v)"] exI [of _ "if kv_logging s then [(?kb, Some ?vb)] else []"])
         (simp add: kv_holds_def kv_is_cached_def)
  next
    case (Cached c)
    then have "s' = s\<lparr>kv_backing := ?b'\<rparr>"
      using sd by (simp add: s'_def kv_put_def Let_def)
    then show ?thesis
      using Cached h p(1) view' keys sd
      by (intro exI [of _ d] exI [of _ "[]"]) (simp add: kv_holds_def kv_is_cached_def ck_put_def)
  qed
qed

lemma holds_delete:
  assumes h: "kv_holds ks vk vs vv s m d" and k: "vk k"
  shows "\<exists>s' d' log. kv_delete k s = Some (m k, s') \<and> kv_holds ks vk vs vv s' (m(k := None)) d' \<and>
    kv_changelog s' = kv_changelog s @ log \<and> kv_logging s' = kv_logging s \<and> kv_is_cached s' = kv_is_cached s \<and>
    (kv_logging s \<longrightarrow> logs (backing_durable (kv_backing s)) log (backing_durable (kv_backing s'))) \<and>
    (kv_is_cached s \<longrightarrow> d' = d)"
proof -
  let ?t = "kv_changelog_topic s" and ?b = "kv_backing s"
  let ?kb = "sd_ser ks ?t k"
  have b: "backing_ok ?b" and view: "typed_as (sd_ser ks ?t) vk (sd_ser vs ?t) vv (backing_view ?b) m"
    and sd: "kv_key_serde s = ks" "kv_value_serde s = vs"
    using h by (auto simp: kv_holds_def)
  let ?b' = "snd (backing_delete ?kb (kv_write_ctx s) ?b)"
  note p = backing_delete_view [OF b, of ?kb "kv_write_ctx s"]
  have old: "de_opt vs ?t (fst (backing_delete ?kb (kv_write_ctx s) ?b)) = Some (m k)"
    using de_opt_ser [of "m k" ?t] typed_as_valid [OF view] typed_as_get [OF view k key_inj] by (simp add: p(1))
  have view': "typed_as (sd_ser ks ?t) vk (sd_ser vs ?t) vv (backing_view ?b') (m(k := None))"
    using typed_as_upd [OF view k, of None] key_inj by (simp add: p(3))
  have keys: "\<forall>kb \<in> cached_keys ?b'. \<exists>k. vk k \<and> kb = sd_ser ks ?t k"
    using h p(4) k by (auto simp: kv_holds_def)
  let ?log = "if kv_logging s \<and> \<not> kv_is_cached s then [(?kb, None)] else []"
  let ?s = "s\<lparr>kv_backing := ?b', kv_changelog := kv_changelog s @ ?log\<rparr>"
  have del: "kv_delete k s = Some (m k, ?s)"
    using old sd by (simp add: kv_delete_def Let_def split_def)
  show ?thesis
  proof (cases ?b)
    case (Plain i)
    have "backing_durable ?b' = (backing_durable ?b)(?kb := None)" "backing_durable ?b' = backing_view ?b'"
      using p(3) Plain by (simp_all add: split_def Let_def)
    then show ?thesis
      using Plain h p(2) view' keys sd del
      by (intro exI [of _ ?s] exI [of _ "m(k := None)"] exI [of _ ?log])
         (simp add: kv_holds_def kv_is_cached_def split_def Let_def)
  next
    case (Cached c)
    then have "backing_durable ?b' = backing_durable ?b" "\<exists>c'. ?b' = Cached c'"
      using b by (simp_all add: split_def Let_def ck_delete_def ck_get_state)
    then show ?thesis
      using Cached h p(2) view' keys sd del
      by (intro exI [of _ ?s] exI [of _ d] exI [of _ ?log]) (auto simp: kv_holds_def kv_is_cached_def)
  qed
qed

lemma typed_agree:
  assumes view: "typed_as (sd_ser ks t) vk (sd_ser vs t) vv f m"
    and dur: "typed_as (sd_ser ks t) vk (sd_ser vs t) vv f' d"
    and same: "vk k \<Longrightarrow> f (sd_ser ks t k) = f' (sd_ser ks t k)"
  shows "d k = m k"
proof (cases "vk k")
  case True
  then have "map_option (sd_ser vs t) (d k) = map_option (sd_ser vs t) (m k)"
    using same typed_as_get [OF view _ key_inj] typed_as_get [OF dur _ key_inj] by simp
  then have "de_opt vs t (map_option (sd_ser vs t) (d k)) = de_opt vs t (map_option (sd_ser vs t) (m k))"
    by simp
  then show ?thesis
    using de_opt_ser [of "d k" t] de_opt_ser [of "m k" t] typed_as_valid [OF view] typed_as_valid [OF dur] by simp
next
  case False
  then show ?thesis
    using typed_as_valid [OF view, of k] typed_as_valid [OF dur, of k] by (cases "m k"; cases "d k") auto
qed

lemma forward_typed:
  assumes h: "kv_holds ks vk vs vv s m d" and k: "vk k"
  defines "t \<equiv> kv_changelog_topic s"
  shows "kv_forward s (sd_ser ks t k, backing_durable (kv_backing s) (sd_ser ks t k),
           backing_view (kv_backing s) (sd_ser ks t k), ctx) child =
         Some (child, k, \<lparr>ch_old = d k, ch_new = m k\<rparr>, rc_timestamp ctx)"
proof -
  have view: "typed_as (sd_ser ks t) vk (sd_ser vs t) vv (backing_view (kv_backing s)) m"
    and dur: "typed_as (sd_ser ks t) vk (sd_ser vs t) vv (backing_durable (kv_backing s)) d"
    and sd: "kv_key_serde s = ks" "kv_value_serde s = vs"
    using h by (auto simp: kv_holds_def t_def)
  have "de_opt vs t (backing_view (kv_backing s) (sd_ser ks t k)) = Some (m k)"
    using de_opt_ser [of "m k" t] typed_as_valid [OF view] typed_as_get [OF view k key_inj] by simp
  moreover have "de_opt vs t (backing_durable (kv_backing s) (sd_ser ks t k)) = Some (d k)"
    using de_opt_ser [of "d k" t] typed_as_valid [OF dur] typed_as_get [OF dur k key_inj] by simp
  ultimately show ?thesis
    using sd key.roundtrip [OF k] by (simp add: kv_forward_def t_def [symmetric])
qed

lemma holds_flush:
  assumes h: "kv_holds ks vk vs vv s m d" and cs: "distinct cs"
  shows "\<exists>fw s' log. kv_flush_cache_into cs s = Some (fw, s') \<and> kv_holds ks vk vs vv s' m m \<and>
    kv_changelog s' = kv_changelog s @ log \<and> kv_logging s' = kv_logging s \<and> kv_is_cached s' = kv_is_cached s \<and>
    (kv_logging s \<longrightarrow> logs (backing_durable (kv_backing s)) log (backing_durable (kv_backing s'))) \<and>
    (kv_is_cached s \<longrightarrow> (\<forall>c \<in> set cs. apply_changes (changes_to c fw) d = Some m)) \<and>
    (\<not> kv_is_cached s \<longrightarrow> fw = []) \<and> (\<forall>f \<in> set fw. vk (fst (snd f)))"
proof (cases "kv_backing s")
  case (Plain b)
  then show ?thesis
    using h by (auto simp: kv_flush_cache_into_def kv_holds_def kv_is_cached_def)
next
  case (Cached c)
  let ?t = "kv_changelog_topic s"
  let ?keys = "map snd (nc_dirty (cs_cache c))"
  let ?ctx = "\<lambda>kb. le_context (the (nc_get kb (cs_cache c)))"
  let ?c' = "snd (ck_flush c)"
  have ok: "ck_ok c" and view: "typed_as (sd_ser ks ?t) vk (sd_ser vs ?t) vv (ck_view c) m"
    and dur: "typed_as (sd_ser ks ?t) vk (sd_ser vs ?t) vv (imb_get (cs_inner c)) d"
    and keys: "\<forall>kb. nc_get kb (cs_cache c) \<noteq> None \<longrightarrow> (\<exists>k. vk k \<and> kb = sd_ser ks ?t k)"
    and sd: "kv_key_serde s = ks" "kv_value_serde s = vs"
    using h Cached by (auto simp: kv_holds_def)
  note dirty = dirty_keys [of "cs_cache c"]
  have okc: "nc_ok (cs_cache c)"
    using ok by (simp add: ck_ok_def)
  define g where "g kb = the (sd_de ks ?t kb)" for kb
  have g: "vk (g kb) \<and> kb = sd_ser ks ?t (g kb)" if "kb \<in> set ?keys" for kb
  proof -
    have "nc_get kb (cs_cache c) \<noteq> None"
      using dirty(2) [OF okc] that by auto
    then obtain k where "vk k" "kb = sd_ser ks ?t k"
      using keys by blast
    then show ?thesis
      by (simp add: g_def key.roundtrip)
  qed
  let ?drained = "map (\<lambda>kb. (kb, imb_get (cs_inner c) kb, ck_view c kb, ?ctx kb)) ?keys"
  have fl: "ck_flush_with_old c = (?drained, ?c')"
    by (rule ck_flush_with_old_eq [OF ok])
  let ?out = "\<lambda>kb child. (child, g kb, \<lparr>ch_old = d (g kb), ch_new = m (g kb)\<rparr>, rc_timestamp (?ctx kb))"
  let ?F = "\<lambda>kb. kv_forward s (kb, imb_get (cs_inner c) kb, ck_view c kb, ?ctx kb)"
  have out: "?F kb child = Some (?out kb child)" if kb: "kb \<in> set ?keys" for kb child
    using forward_typed [OF h, of "g kb" "?ctx kb" child] g [OF kb] Cached by (metis backing_view.simps(2) backing_durable.simps(2))
  define fw where "fw = map (\<lambda>(kb, child). ?out kb child) (List.product ?keys cs)"
  have "collect_opt (concat (map (\<lambda>fl. map (kv_forward s fl) cs) ?drained)) =
        collect_opt (map (\<lambda>(kb, child). ?F kb child) (List.product ?keys cs))"
    using concat_map_product [of ?F cs ?keys] by (simp add: comp_def)
  also have "\<dots> = Some fw"
    unfolding fw_def by (rule collect_opt_map_Some) (use out in auto)
  finally have coll: "collect_opt (concat (map (\<lambda>fl. map (kv_forward s fl) cs) ?drained)) = Some fw" .
  define log where "log = (if kv_logging s then map (\<lambda>kb. (kb, ck_view c kb)) ?keys else [])"
  define s' where "s' = s\<lparr>kv_backing := Cached ?c', kv_changelog := kv_changelog s @ log\<rparr>"
  have flush: "kv_flush_cache_into cs s = Some (fw, s')"
    using Cached coll by (simp add: kv_flush_cache_into_def fl log_def s'_def comp_def)
  note v = ck_flush_view [OF ok]
  have keys': "\<forall>kb. nc_get kb (cs_cache ?c') \<noteq> None \<longrightarrow> (\<exists>k. vk k \<and> kb = sd_ser ks ?t k)"
    using keys nc_get_flushed [OF okc] by (simp add: ck_flush_def split_def Let_def)
  have holds: "kv_holds ks vk vs vv s' m m"
    using v view keys' sd by (simp add: kv_holds_def s'_def kv_is_cached_def)
  have clean: "imb_get (cs_inner c) kb = ck_view c kb" if "kb \<notin> set ?keys" for kb
    using ok that dirty(2) [OF okc, of kb] by (auto simp: ck_ok_def coherent_iff ck_view_def split: option.splits)
  have lv: "log_view (map (\<lambda>kb. (kb, f kb)) xs) kb = (if kb \<in> set xs then Some (f kb) else None)" for f xs and kb :: bytes
    by (induction xs rule: rev_induct) (auto simp: log_view_def)
  have "logs (imb_get (cs_inner c)) (map (\<lambda>kb. (kb, ck_view c kb)) ?keys) (imb_get (cs_inner ?c'))"
    using clean v(3) lv [of "ck_view c" ?keys] by (simp add: logs_def del: map_map)
  then have logs: "kv_logging s \<longrightarrow> logs (backing_durable (kv_backing s)) log (backing_durable (kv_backing s'))"
    using Cached by (simp add: log_def s'_def)
  have "apply_changes (changes_to ch fw) d = Some m" if ch: "ch \<in> set cs" for ch
  proof -
    have "changes_to ch fw =
        map (\<lambda>kb. (g kb, \<lparr>ch_old = d (g kb), ch_new = m (g kb)\<rparr>)) (map fst (filter (\<lambda>(kb, child). child = ch) (List.product ?keys cs)))"
      by (simp add: changes_to_def fw_def filter_map comp_def split_def)
    also have "\<dots> = map (\<lambda>k. (k, \<lparr>ch_old = d k, ch_new = m k\<rparr>)) (map g ?keys)"
      using filter_product_snd [OF cs ch, of ?keys] by simp
    finally have eq: "changes_to ch fw = map (\<lambda>k. (k, \<lparr>ch_old = d k, ch_new = m k\<rparr>)) (map g ?keys)" .
    have "inj_on g (set ?keys)"
      by (rule inj_on_inverseI [of _ "sd_ser ks ?t"]) (metis g)
    then have inj: "distinct (map g ?keys)"
      using dirty(1) [OF okc] by (simp only: distinct_map)
    have same: "(if k \<in> set (map g ?keys) then m k else d k) = m k" for k
    proof (cases "k \<in> set (map g ?keys)")
      case False
      have "ck_view c (sd_ser ks ?t k) = imb_get (cs_inner c) (sd_ser ks ?t k)" if k: "vk k"
      proof (rule clean [symmetric], rule)
        assume "sd_ser ks ?t k \<in> set ?keys"
        then have "g (sd_ser ks ?t k) \<in> set (map g ?keys)"
          by (simp only: set_map imageI)
        then show False
          using False k by (simp only: g_def key.roundtrip option.sel)
      qed
      then show ?thesis
        using False typed_agree [OF view dur] by simp
    qed simp
    show ?thesis
      unfolding eq using apply_changes_distinct [OF inj, of d d m] same by (simp add: fun_eq_iff del: map_map)
  qed
  moreover have "\<forall>f \<in> set fw. vk (fst (snd f))"
    using g [unfolded set_map] unfolding fw_def set_product set_map by fastforce
  ultimately show ?thesis
    using flush holds logs Cached by (intro exI [of _ fw] exI [of _ s'] exI [of _ log]) (simp add: s'_def kv_is_cached_def)
qed

lemma holds_range:
  assumes h: "kv_holds ks vk vs vv s m d" and le: "kv_is_cached s \<longrightarrow> sd_ser ks (kv_changelog_topic s) lo \<le> sd_ser ks (kv_changelog_topic s) hi"
  defines "sk \<equiv> sd_ser ks (kv_changelog_topic s)"
  shows "\<exists>rows. kv_range lo hi s = Some rows \<and> sorted_wrt (\<lambda>p q. sk (fst p) < sk (fst q)) rows \<and>
    set rows = {(k, v). m k = Some v \<and> sk lo \<le> sk k \<and> sk k < sk hi}"
proof -
  let ?t = "kv_changelog_topic s" and ?b = "kv_backing s"
  have b: "backing_ok ?b" and sd: "kv_key_serde s = ks" "kv_value_serde s = vs"
    and view: "typed_as sk vk (sd_ser vs ?t) vv (map_of (backing_scan_all ?b)) m"
    using h backing_scan_view(2) [of ?b] by (auto simp: kv_holds_def sk_def)
  have inj: "\<And>x y. vk x \<Longrightarrow> vk y \<Longrightarrow> sk x = sk y \<Longrightarrow> x = y"
    unfolding sk_def by (rule key_inj)
  obtain L where L: "backing_scan_all ?b = map (\<lambda>(k, v). (sk k, sd_ser vs ?t v)) L" "\<And>k v. (k, v) \<in> set L \<longleftrightarrow> m k = Some v"
      "\<And>k v. (k, v) \<in> set L \<Longrightarrow> vk k \<and> vv v" "sorted_wrt (\<lambda>p q. sk (fst p) < sk (fst q)) L"
    using typed_list [OF view backing_scan_view(1) [OF b] inj] by blast
  have dec: "kv_decode_entry s (sk k, sd_ser vs ?t v) = Some (k, v)" if "(k, v) \<in> set L" for k v
    using L(3) [OF that] by (simp add: kv_decode_entry_def sk_def sd key.roundtrip val.roundtrip)
  let ?rows = "filter (\<lambda>(k, v). sk lo \<le> sk k \<and> sk k < sk hi) L"
  have "backing_range (sk lo) (sk hi) ?b = Some (bt_range (sk lo) (sk hi) (backing_scan_all ?b))"
    using le b by (cases ?b) (simp_all add: imb_range_bt ck_range_view kv_is_cached_def sk_def)
  moreover have "collect_opt (map (kv_decode_entry s) (map (\<lambda>(k, v). (sk k, sd_ser vs ?t v)) ?rows)) = Some (map (\<lambda>(k, v). (k, v)) ?rows)"
    by (rule collect_opt_typed) (simp add: dec)
  ultimately have "kv_range lo hi s = Some ?rows"
    using sd by (simp add: kv_range_def Let_def L(1) bt_range_map sk_def [symmetric] del: map_map)
  moreover have "set ?rows = {(k, v). m k = Some v \<and> sk lo \<le> sk k \<and> sk k < sk hi}"
    using L(2) by auto
  ultimately show ?thesis
    using sorted_wrt_filter [OF L(4)] by blast
qed

lemma holds_step:
  assumes h: "kv_holds ks vk vs vv s m d" and v: "op_valid vk vv oper" and cs: "distinct cs"
  shows "\<exists>log fw s' d'. kv_step cs oper s = Some (fst (map_step oper m), log, fw, s') \<and>
    kv_holds ks vk vs vv s' (snd (map_step oper m)) d' \<and>
    kv_logging s' = kv_logging s \<and> kv_is_cached s' = kv_is_cached s \<and>
    (\<forall>base pre. kv_logging s \<longrightarrow> logs base (pre @ kv_changelog s) (backing_durable (kv_backing s)) \<longrightarrow>
       logs base (pre @ log @ kv_changelog s') (backing_durable (kv_backing s'))) \<and>
    (kv_is_cached s \<longrightarrow> (\<forall>c \<in> set cs. apply_changes (changes_to c fw) d = Some d')) \<and>
    (oper = KFlush \<longrightarrow> d' = snd (map_step oper m)) \<and> (\<forall>f \<in> set fw. vk (fst (snd f)))"
proof (cases oper)
  case (KGet k)
  then show ?thesis
    using holds_get [OF h, of k] v by fastforce
next
  case (KPut k x)
  with v obtain d' log where p: "kv_holds ks vk vs vv (kv_put k x s) (m(k \<mapsto> x)) d'"
    "kv_changelog (kv_put k x s) = kv_changelog s @ log" "kv_logging (kv_put k x s) = kv_logging s"
    "kv_is_cached (kv_put k x s) = kv_is_cached s"
    "kv_logging s \<longrightarrow> logs (backing_durable (kv_backing s)) log (backing_durable (kv_backing (kv_put k x s)))"
    "kv_is_cached s \<longrightarrow> d' = d"
    using holds_put [OF h, of k x] by auto
  then show ?thesis
    using KPut logs_append by (intro exI [of _ "[]"] exI [of _ "kv_put k x s"] exI [of _ d']) fastforce
next
  case (KDelete k)
  with v obtain s' d' log where p: "kv_delete k s = Some (m k, s')" "kv_holds ks vk vs vv s' (m(k := None)) d'"
    "kv_changelog s' = kv_changelog s @ log" "kv_logging s' = kv_logging s" "kv_is_cached s' = kv_is_cached s"
    "kv_logging s \<longrightarrow> logs (backing_durable (kv_backing s)) log (backing_durable (kv_backing s'))"
    "kv_is_cached s \<longrightarrow> d' = d"
    using holds_delete [OF h, of k] by auto
  then show ?thesis
    using KDelete logs_append by (intro exI [of _ "[]"] exI [of _ s'] exI [of _ d']) fastforce
next
  case (KContext ctx)
  then show ?thesis
    using h by (intro exI [of _ "[]"] exI [of _ "kv_set_record_context ctx s"] exI [of _ d])
      (simp add: kv_set_record_context_def kv_holds_def kv_is_cached_def)
next
  case KFlush
  obtain fw s' log where f: "kv_flush_cache_into cs s = Some (fw, s')" "kv_holds ks vk vs vv s' m m"
    "kv_changelog s' = kv_changelog s @ log" "kv_logging s' = kv_logging s" "kv_is_cached s' = kv_is_cached s"
    "kv_logging s \<longrightarrow> logs (backing_durable (kv_backing s)) log (backing_durable (kv_backing s'))"
    "kv_is_cached s \<longrightarrow> (\<forall>c \<in> set cs. apply_changes (changes_to c fw) d = Some m)" "\<forall>f \<in> set fw. vk (fst (snd f))"
    using holds_flush [OF h cs] by blast
  then show ?thesis
    using KFlush logs_append by (intro exI [of _ "[]"] exI [of _ fw] exI [of _ s'] exI [of _ m]) fastforce
next
  case KTake
  then show ?thesis
    using h by (intro exI [of _ "kv_changelog s"] exI [of _ "[]"] exI [of _ "s\<lparr>kv_changelog := []\<rparr>"] exI [of _ d])
      (simp add: kv_take_changelog_def kv_holds_def kv_is_cached_def)
qed

lemma holds_run:
  "kv_holds ks vk vs vv s m d \<Longrightarrow> \<forall>oper \<in> set ops. op_valid vk vv oper \<Longrightarrow> distinct cs \<Longrightarrow>
   \<exists>log fw s' d'. kv_run cs ops s = Some (fst (map_run ops m), log, fw, s') \<and>
    kv_holds ks vk vs vv s' (snd (map_run ops m)) d' \<and>
    kv_logging s' = kv_logging s \<and> kv_is_cached s' = kv_is_cached s \<and>
    (\<forall>base pre. kv_logging s \<longrightarrow> logs base (pre @ kv_changelog s) (backing_durable (kv_backing s)) \<longrightarrow>
       logs base (pre @ log @ kv_changelog s') (backing_durable (kv_backing s'))) \<and>
    (kv_is_cached s \<longrightarrow> (\<forall>c \<in> set cs. apply_changes (changes_to c fw) d = Some d')) \<and> (\<forall>f \<in> set fw. vk (fst (snd f)))"
proof (induction ops arbitrary: s m d)
  case (Cons oper ops)
  obtain log fw s1 d1 where st: "kv_step cs oper s = Some (fst (map_step oper m), log, fw, s1)"
    "kv_holds ks vk vs vv s1 (snd (map_step oper m)) d1" "kv_logging s1 = kv_logging s" "kv_is_cached s1 = kv_is_cached s"
    "\<forall>base pre. kv_logging s \<longrightarrow> logs base (pre @ kv_changelog s) (backing_durable (kv_backing s)) \<longrightarrow>
       logs base (pre @ log @ kv_changelog s1) (backing_durable (kv_backing s1))"
    "kv_is_cached s \<longrightarrow> (\<forall>c \<in> set cs. apply_changes (changes_to c fw) d = Some d1)" "\<forall>f \<in> set fw. vk (fst (snd f))"
    using holds_step [OF Cons.prems(1) _ Cons.prems(3), of oper] Cons.prems(2) by auto
  obtain log' fw' s2 d2 where rn: "kv_run cs ops s1 = Some (fst (map_run ops (snd (map_step oper m))), log', fw', s2)"
    "kv_holds ks vk vs vv s2 (snd (map_run ops (snd (map_step oper m)))) d2"
    "kv_logging s2 = kv_logging s1" "kv_is_cached s2 = kv_is_cached s1"
    "\<forall>base pre. kv_logging s1 \<longrightarrow> logs base (pre @ kv_changelog s1) (backing_durable (kv_backing s1)) \<longrightarrow>
       logs base (pre @ log' @ kv_changelog s2) (backing_durable (kv_backing s2))"
    "kv_is_cached s1 \<longrightarrow> (\<forall>c \<in> set cs. apply_changes (changes_to c fw') d1 = Some d2)" "\<forall>f \<in> set fw'. vk (fst (snd f))"
    using Cons.IH [OF st(2)] Cons.prems(2,3) by auto
  have "logs base (pre @ (log @ log') @ kv_changelog s2) (backing_durable (kv_backing s2))"
    if "kv_logging s" "logs base (pre @ kv_changelog s) (backing_durable (kv_backing s))" for base pre
    using st(3,5) rn(5) that by (metis append_assoc)
  moreover have "apply_changes (changes_to c (fw @ fw')) d = Some d2" if "kv_is_cached s" "c \<in> set cs" for c
    using st(4,6) rn(6) that by (simp add: apply_changes_append)
  moreover have "\<forall>f \<in> set (fw @ fw'). vk (fst (snd f))"
    using st(7) rn(7) by auto
  ultimately show ?case
    using st(1-4) rn(1-4) by (intro exI [of _ "log @ log'"] exI [of _ "fw @ fw'"] exI [of _ s2] exI [of _ d2])
      (simp add: split_def Let_def)
qed auto

end

interpretation string_i64: kv_serdes StringSerde "\<lambda>s. utf8_valid (str_bytes s)" I64Serde in_i64
  by unfold_locales

section \<open>Properties\<close>

text \<open>A fresh store, with or without a record cache.\<close>

definition kv_fresh :: "bool \<Rightarrow> string \<Rightarrow> 'k serde \<Rightarrow> 'v serde \<Rightarrow> string \<Rightarrow> ('k, 'v) kv_store" where
  "kv_fresh cached name ks vs topic =
    (let s = kv_in_memory name ks vs topic in if cached then kv_enable_cache (nc_new name) s else s)"

lemma kv_fresh_holds: "kv_holds ks vk vs vv (kv_fresh cached name ks vs topic) Map.empty Map.empty"
proof -
  have e: "imb_get imb_new = Map.empty"
    by (simp add: imb_defs fun_eq_iff)
  have "ck_ok (ck_with_name (nc_new name) imb_new name)" "ck_view (ck_with_name (nc_new name) imb_new name) = Map.empty"
    using e by (simp_all add: ck_ok_def ck_with_name_def coherent_iff ck_view_def fun_eq_iff)
  then show ?thesis
    using e by (simp add: kv_fresh_def kv_in_memory_def kv_new_def kv_enable_cache_def kv_holds_def Let_def ck_with_name_def)
qed

lemma kv_fresh_fields [simp]:
  "kv_changelog (kv_fresh cached name ks vs topic) = []" "kv_logging (kv_fresh cached name ks vs topic)"
  "kv_is_cached (kv_fresh cached name ks vs topic) = cached"
  "backing_durable (kv_backing (kv_fresh cached name ks vs topic)) = Map.empty"
  by (auto simp: kv_fresh_def kv_in_memory_def kv_new_def kv_enable_cache_def kv_is_cached_def Let_def
      ck_with_name_def imb_defs fun_eq_iff)

lemma kv_step_topic: "kv_step cs oper s = Some (r, log, fw, s') \<Longrightarrow> kv_changelog_topic s' = kv_changelog_topic s"
  by (cases oper) (auto simp: kv_get_def kv_put_def kv_delete_def kv_set_record_context_def kv_flush_cache_into_def kv_take_changelog_def
      Let_def split_def split: option.splits backing.splits bind_splits)

lemma kv_run_topic: "kv_run cs ops s = Some (r, log, fw, s') \<Longrightarrow> kv_changelog_topic s' = kv_changelog_topic s"
proof (induction ops arbitrary: s r log fw)
  case (Cons oper ops)
  then show ?case
    using kv_step_topic by (fastforce split: bind_splits)
qed simp

text \<open>C1: The typed key-value store is a finite map.  With serdes that round-trip on the values used, any
  sequence of gets, puts, deletes, context updates, cache flushes and changelog drains on a fresh store, cached
  or not, runs without a panic and returns exactly what a finite map returns: a read sees the latest write or
  delete of its key, and a delete returns the value it removed.  A range read, which leaves the store as it is, may
  follow at any point: it returns exactly the entries of the map from the lower bound to before the upper one, in
  the order of the serialized keys.  On a cached store the bounds must be in order, since the cache panics otherwise.\<close>

theorem kv_store_refines_map:
  assumes "serde_contract ks vk" "serde_contract vs vv" "\<forall>oper \<in> set ops. op_valid vk vv oper" "distinct cs"
  shows "\<exists>log fw s'. kv_run cs ops (kv_fresh cached name ks vs topic) =
    Some (fst (map_run ops Map.empty), log, fw, s') \<and>
    (\<forall>lo hi. (cached \<longrightarrow> sd_ser ks topic lo \<le> sd_ser ks topic hi) \<longrightarrow>
       (\<exists>rows. kv_range lo hi s' = Some rows \<and> sorted_wrt (\<lambda>p q. sd_ser ks topic (fst p) < sd_ser ks topic (fst q)) rows \<and>
          set rows = {(k, v). snd (map_run ops Map.empty) k = Some v \<and> sd_ser ks topic lo \<le> sd_ser ks topic k \<and> sd_ser ks topic k < sd_ser ks topic hi}))"
proof -
  have S: "kv_serdes ks vk vs vv"
    using assms(1,2) by (rule kv_serdes.intro)
  obtain log fw s' d where s': "kv_run cs ops (kv_fresh cached name ks vs topic) = Some (fst (map_run ops Map.empty), log, fw, s')"
      "kv_holds ks vk vs vv s' (snd (map_run ops Map.empty)) d" "kv_is_cached s' = kv_is_cached (kv_fresh cached name ks vs topic)"
    using kv_serdes.holds_run [OF S kv_fresh_holds assms(3,4)] by blast
  have "kv_changelog_topic s' = topic"
    using kv_run_topic [OF s'(1)] by (simp add: kv_fresh_def kv_in_memory_def kv_new_def kv_enable_cache_def Let_def)
  then show ?thesis
    using s'(1,3) kv_serdes.holds_range [OF S s'(2)] by simp
qed

definition kv_sample_ops :: "(string, int) kv_op list" where
  "kv_sample_ops = [KPut ''a'' 5, KGet ''a'', KFlush, KDelete ''a'', KGet ''a'', KPut ''b'' 7, KPut ''c'' 8]"

lemma kv_sample_ops_ok: "\<forall>oper \<in> set kv_sample_ops. op_valid (\<lambda>s. utf8_valid (str_bytes s)) in_i64 oper"
  by (simp add: kv_sample_ops_def in_i64_def str_bytes_def)

lemma kv_sample_map: "map_run kv_sample_ops Map.empty = ([Some 5, Some 5, None], [''b'' \<mapsto> 7, ''c'' \<mapsto> 8])"
  by (simp add: kv_sample_ops_def fun_upd_idem)

lemma kv_store_refines_map_witness:
  "\<exists>log fw s' rows. kv_run [4] kv_sample_ops (kv_fresh True ''agg'' StringSerde I64Serde ''agg-changelog'') = Some ([Some 5, Some 5, None], log, fw, s') \<and>
    kv_range ''a'' ''c'' s' = Some rows \<and> set rows = {(''b'', 7)}"
proof -
  let ?ser = "sd_ser StringSerde ''agg-changelog''" and ?m = "[''b'' \<mapsto> 7, ''c'' \<mapsto> 8 :: int]"
  have ser: "?ser ''a'' \<le> ?ser ''b''" "?ser ''b'' < ?ser ''c''" "?ser ''a'' \<le> ?ser ''c''"
    by (simp_all add: StringSerde_def str_bytes_def)
  then have rows: "{(k, v). ?m k = Some v \<and> ?ser ''a'' \<le> ?ser k \<and> ?ser k < ?ser ''c''} = {(''b'', 7)}"
    by (auto split: if_splits)
  have "distinct [4 :: nat]"
    by simp
  from kv_store_refines_map [OF string_serde.serde_contract_axioms i64_serde.serde_contract_axioms kv_sample_ops_ok this, of True "''agg''" "''agg-changelog''"]
  show ?thesis
    unfolding kv_sample_map fst_conv snd_conv
  proof (elim exE conjE)
    fix log fw s'
    assume run: "kv_run [4] kv_sample_ops (kv_fresh True ''agg'' StringSerde I64Serde ''agg-changelog'') = Some ([Some 5, Some 5, None], log, fw, s')"
      and range: "\<forall>lo hi. (True \<longrightarrow> ?ser lo \<le> ?ser hi) \<longrightarrow> (\<exists>rows. kv_range lo hi s' = Some rows \<and>
        sorted_wrt (\<lambda>p q. ?ser (fst p) < ?ser (fst q)) rows \<and> set rows = {(k, v). ?m k = Some v \<and> ?ser lo \<le> ?ser k \<and> ?ser k < ?ser hi})"
    obtain rows where "kv_range ''a'' ''c'' s' = Some rows" "set rows = {(''b'', 7)}"
      using range [rule_format, of "''a''" "''c''"] ser(3) unfolding rows by blast
    then show ?thesis
      using run by blast
  qed
qed

lemma typed_as_unique:
  assumes "typed_as sk vk sv vv f m" "typed_as sk vk sv vv g m"
  shows "f = g"
proof (rule ext)
  have "g kb = f kb" if "typed_as sk vk sv vv f m" "typed_as sk vk sv vv g m" "f kb = Some vb" for f g kb vb
    using that unfolding typed_as_def by metis
  then show "f kb = g kb" for kb
    using assms by (cases "f kb"; cases "g kb") metis+
qed

text \<open>Replaying a changelog into a store, as the restore path does.\<close>

definition kv_replay :: "(bytes \<times> bytes option) list \<Rightarrow> ('k, 'v) kv_store \<Rightarrow> ('k, 'v) kv_store" where
  "kv_replay log s = foldl (\<lambda>s (k, v). kv_apply_changelog k v s) s log"

lemma kv_replay_view:
  assumes "backing_ok (kv_backing s)" "cached_keys (kv_backing s) = {}"
  shows "backing_ok (kv_backing (kv_replay log s)) \<and> cached_keys (kv_backing (kv_replay log s)) = {} \<and>
    logs (backing_view (kv_backing s)) log (backing_view (kv_backing (kv_replay log s)))"
proof (induction log rule: rev_induct)
  case (snoc p log)
  obtain k ov where p: "p = (k, ov)" by force
  let ?s = "kv_replay log s"
  have s': "kv_replay (log @ [p]) s = ?s\<lparr>kv_backing := backing_apply k ov (kv_backing ?s)\<rparr>"
    by (simp add: kv_replay_def p kv_apply_changelog_def)
  note a = backing_apply_uncached [of "kv_backing ?s" k ov]
  have "logs (backing_view (kv_backing ?s)) [p] (backing_view (backing_apply k ov (kv_backing ?s)))"
    using a(3) snoc p by simp
  then have "logs (backing_view (kv_backing s)) (log @ [p]) (backing_view (kv_backing (kv_replay (log @ [p]) s)))"
    using snoc logs_append by (auto simp: s')
  then show ?case
    using a(1,2) snoc by (simp add: s')
qed (use assms in \<open>simp add: kv_replay_def\<close>)

lemma kv_replay_fresh:
  assumes "logs Map.empty log g"
  shows "backing_view (kv_backing (kv_replay log (kv_fresh cached name ks vs topic))) = g"
proof -
  let ?r = "kv_fresh cached name ks vs topic"
  have "backing_ok (kv_backing ?r)" "backing_view (kv_backing ?r) = Map.empty" "cached_keys (kv_backing ?r) = {}"
    using kv_fresh_holds [of ks "\<lambda>_. True" vs "\<lambda>_. True" cached name topic]
    by (auto simp: kv_holds_def typed_as_def fun_eq_iff kv_fresh_def kv_in_memory_def kv_new_def
        kv_enable_cache_def Let_def ck_with_name_def)
  then have "logs Map.empty log (backing_view (kv_backing (kv_replay log ?r)))"
    using kv_replay_view [of ?r log] by simp
  then show ?thesis
    using assms by (simp add: logs_def fun_eq_iff)
qed

context kv_serdes
begin

text \<open>A history that ends with a flush and a drain: what is below the cache is everything, the drained records
  describe it, and so do the forwarded changes.\<close>

lemma holds_run_flush:
  assumes v: "\<forall>oper \<in> set ops. op_valid vk vv oper" and cs: "distinct cs"
  defines "m \<equiv> snd (map_run ops Map.empty)"
  shows "\<exists>log fw s'. kv_run cs (ops @ [KFlush, KTake]) (kv_fresh cached name ks vs topic) =
      Some (fst (map_run ops Map.empty), log, fw, s') \<and>
    kv_holds ks vk vs vv s' m m \<and> logs Map.empty log (backing_durable (kv_backing s')) \<and>
    (cached \<longrightarrow> (\<forall>c \<in> set cs. apply_changes (changes_to c fw) Map.empty = Some m)) \<and>
    (\<forall>f \<in> set fw. vk (fst (snd f)))"
proof -
  let ?init = "kv_fresh cached name ks vs topic"
  obtain l1 f1 s1 d1 where r: "kv_run cs ops ?init = Some (fst (map_run ops Map.empty), l1, f1, s1)"
    "kv_holds ks vk vs vv s1 m d1" "kv_logging s1 = kv_logging ?init" "kv_is_cached s1 = kv_is_cached ?init"
    "\<forall>base pre. kv_logging ?init \<longrightarrow> logs base (pre @ kv_changelog ?init) (backing_durable (kv_backing ?init)) \<longrightarrow>
       logs base (pre @ l1 @ kv_changelog s1) (backing_durable (kv_backing s1))"
    "kv_is_cached ?init \<longrightarrow> (\<forall>c \<in> set cs. apply_changes (changes_to c f1) Map.empty = Some d1)"
    "\<forall>f \<in> set f1. vk (fst (snd f))"
    using holds_run [OF kv_fresh_holds v cs] unfolding m_def by blast
  have log1: "logs Map.empty (l1 @ kv_changelog s1) (backing_durable (kv_backing s1))"
    using r(5) [rule_format, of Map.empty "[]"] by simp
  obtain fw s2 l2 where f: "kv_flush_cache_into cs s1 = Some (fw, s2)" "kv_holds ks vk vs vv s2 m m"
    "kv_changelog s2 = kv_changelog s1 @ l2"
    "logs (backing_durable (kv_backing s1)) l2 (backing_durable (kv_backing s2))"
    "kv_is_cached s1 \<longrightarrow> (\<forall>c \<in> set cs. apply_changes (changes_to c fw) d1 = Some m)" "\<forall>f \<in> set fw. vk (fst (snd f))"
    using holds_flush [OF r(2) cs] r(3) by auto
  have "kv_run cs (ops @ [KFlush, KTake]) ?init =
      Some (fst (map_run ops Map.empty), l1 @ kv_changelog s2, f1 @ fw, s2\<lparr>kv_changelog := []\<rparr>)"
    using r(1) f(1) by (simp add: kv_run_append kv_take_changelog_def)
  moreover have "logs Map.empty (l1 @ kv_changelog s2) (backing_durable (kv_backing s2))"
    using logs_append [OF log1 f(4)] f(3) by simp
  moreover have "apply_changes (changes_to c (f1 @ fw)) Map.empty = Some m" if "cached" "c \<in> set cs" for c
    using r(4,6) f(5) that by (simp add: apply_changes_append)
  moreover have "kv_holds ks vk vs vv (s2\<lparr>kv_changelog := []\<rparr>) m m"
    using f(2) by (simp add: kv_holds_def kv_is_cached_def)
  moreover have "\<forall>x \<in> set (f1 @ fw). vk (fst (snd x))"
    using r(7) f(6) by auto
  ultimately show ?thesis
    by (intro exI [of _ "l1 @ kv_changelog s2"] exI [of _ "f1 @ fw"] exI [of _ "s2\<lparr>kv_changelog := []\<rparr>"]) simp
qed

end

text \<open>C2: The changelog rebuilds the store.  After any such history that ends with a flush and a drain, replaying
  all drained changelog records, in order, into a fresh store gives a store with exactly the same contents, whether
  either of the two stores is cached or not.\<close>

theorem kv_changelog_rebuilds_store:
  assumes "serde_contract ks vk" "serde_contract vs vv" "\<forall>oper \<in> set ops. op_valid vk vv oper" "distinct cs"
  shows "\<exists>r log fw s'. kv_run cs (ops @ [KFlush, KTake]) (kv_fresh cached name ks vs topic) = Some (r, log, fw, s') \<and>
    backing_view (kv_backing (kv_replay log (kv_fresh cached' name ks vs topic))) = backing_view (kv_backing s')"
proof -
  note S = kv_serdes.intro [OF assms(1,2)]
  obtain r log fw s' where r: "kv_run cs (ops @ [KFlush, KTake]) (kv_fresh cached name ks vs topic) = Some (r, log, fw, s')"
    "kv_holds ks vk vs vv s' (snd (map_run ops Map.empty)) (snd (map_run ops Map.empty))"
    "logs Map.empty log (backing_durable (kv_backing s'))"
    using kv_serdes.holds_run_flush [OF S assms(3,4)] by metis
  have "backing_view (kv_backing s') = backing_durable (kv_backing s')"
    using r(2) typed_as_unique unfolding kv_holds_def by blast
  then show ?thesis
    using r(1) kv_replay_fresh [OF r(3)] by auto
qed

lemma kv_changelog_rebuilds_store_witness:
  "\<exists>r log fw s'. kv_run [4] ([KPut ''a'' 5, KPut ''b'' 6, KDelete ''a''] @ [KFlush, KTake])
       (kv_fresh True ''agg'' StringSerde I64Serde ''cl'') = Some (r, log, fw, s') \<and>
     backing_view (kv_backing (kv_replay log (kv_fresh False ''agg'' StringSerde I64Serde ''cl''))) =
       backing_view (kv_backing s')"
  by (rule kv_changelog_rebuilds_store [OF string_serde.serde_contract_axioms i64_serde.serde_contract_axioms])
     (simp_all add: in_i64_def str_bytes_def)

text \<open>C3: A cached store forwards a consistent table.  Over any history, the changes forwarded to a child node
  form a proper update stream: each change's old value is the value the earlier changes left for that key, so
  applying them in order never meets a mismatch, and after a final flush they add up to the store's contents.\<close>

theorem kv_forwarded_changes_consistent:
  assumes "serde_contract ks vk" "serde_contract vs vv" "\<forall>oper \<in> set ops. op_valid vk vv oper" "distinct cs"
    and "c \<in> set cs"
  shows "\<exists>r log fw s'. kv_run cs (ops @ [KFlush, KTake]) (kv_fresh True name ks vs topic) = Some (r, log, fw, s') \<and>
    apply_changes (changes_to c fw) Map.empty = Some (snd (map_run ops Map.empty))"
  using kv_serdes.holds_run_flush [OF kv_serdes.intro [OF assms(1,2)] assms(3,4), of True name topic] assms(5) by blast

lemma kv_forwarded_changes_consistent_witness:
  "\<exists>r log fw s'. kv_run [4] ([KPut ''a'' 5, KFlush, KPut ''a'' 7] @ [KFlush, KTake])
       (kv_fresh True ''agg'' StringSerde I64Serde ''cl'') = Some (r, log, fw, s') \<and>
     apply_changes (changes_to 4 fw) Map.empty = Some [''a'' \<mapsto> 7]"
  using kv_forwarded_changes_consistent [OF string_serde.serde_contract_axioms i64_serde.serde_contract_axioms,
      of "[KPut ''a'' 5, KFlush, KPut ''a'' 7]" "[4]" 4 "''agg''" "''cl''"]
  by (simp add: in_i64_def str_bytes_def)

end
