(* ===== verification/Windows.thy ===== *)
theory Windows
  imports Key_Schemas Serdes
begin

text \<open>
  \<^verbatim>\<open>dsl/windows.rs\<close>: time, join, session and sliding windows, the \<^verbatim>\<open>Windowed\<close> output key and its two serdes.

  A \<^verbatim>\<open>Time\<close> extent is the whole number of milliseconds that \<^verbatim>\<open>millis_i64\<close> gives for it.  The assertions of
  the constructors are \<^term>\<open>None\<close>.  \<^verbatim>\<open>windows_for\<close> adds and subtracts \<^verbatim>\<open>i64\<close> without saturation: each addition
  is checked, and a division by a zero hop panics.

  The lemmas characterise the windows of an instant and lift the serde contract to windowed keys.
\<close>

section \<open>Windows\<close>

record window =
  w_start :: int
  w_end :: int

record 'k windowed =
  wd_key :: 'k
  wd_window :: window

record time_windows =
  tw_size :: int
  tw_advance :: int
  tw_grace :: int

definition tw_of_size :: "int \<Rightarrow> time_windows option" where
  "tw_of_size sz = (if 1 \<le> sz then Some \<lparr>tw_size = sz, tw_advance = sz, tw_grace = 0\<rparr> else None)"

definition tw_advance_by :: "int \<Rightarrow> time_windows \<Rightarrow> time_windows option" where
  "tw_advance_by advance w = (if 1 \<le> advance \<and> advance \<le> tw_size w then Some (w\<lparr>tw_advance := advance\<rparr>) else None)"

definition tw_with_grace :: "int \<Rightarrow> time_windows \<Rightarrow> time_windows option" where
  "tw_with_grace grace w = (if 0 \<le> grace then Some (w\<lparr>tw_grace := grace\<rparr>) else None)"

text \<open>The loop of \<^verbatim>\<open>windows_for\<close>.  It does not end for a zero hop, which the division before it excludes.\<close>

partial_function (option) windows_loop :: "int \<Rightarrow> int \<Rightarrow> int \<Rightarrow> int list option" where
  "windows_loop advance_ms t start =
    (if start \<le> t
     then do { next \<leftarrow> checked_i64 (start + advance_ms);
               out \<leftarrow> windows_loop advance_ms t next;
               Some (start # out) }
     else Some [])"

text \<open>Rust's \<^verbatim>\<open>/\<close> truncates; its left operand here is never negative.\<close>

definition windows_for :: "time_windows \<Rightarrow> int \<Rightarrow> int list option" where
  "windows_for w t =
    (let size_ms = tw_size w; advance_ms = tw_advance w in
     do { d \<leftarrow> checked_i64 (t - size_ms);
          e \<leftarrow> checked_i64 (d + advance_ms);
          (if advance_ms = 0 then None
           else windows_loop advance_ms t (max 0 e div advance_ms * advance_ms)) })"

record join_windows =
  jw_before :: int
  jw_after :: int
  jw_grace :: int

definition jw_of :: "int \<Rightarrow> join_windows option" where
  "jw_of d = (if 0 \<le> d then Some \<lparr>jw_before = d, jw_after = d, jw_grace = 0\<rparr> else None)"

definition jw_with_before :: "int \<Rightarrow> join_windows \<Rightarrow> join_windows option" where
  "jw_with_before b w = (if 0 \<le> b then Some (w\<lparr>jw_before := b\<rparr>) else None)"

definition jw_with_after :: "int \<Rightarrow> join_windows \<Rightarrow> join_windows option" where
  "jw_with_after a w = (if 0 \<le> a then Some (w\<lparr>jw_after := a\<rparr>) else None)"

definition jw_with_grace :: "int \<Rightarrow> join_windows \<Rightarrow> join_windows option" where
  "jw_with_grace g w = (if 0 \<le> g then Some (w\<lparr>jw_grace := g\<rparr>) else None)"

definition jw_size :: "join_windows \<Rightarrow> int" where
  "jw_size w = jw_before w + jw_after w"

record session_windows =
  sw_gap :: int
  sw_grace :: int

definition sw_of_inactivity_gap :: "int \<Rightarrow> session_windows option" where
  "sw_of_inactivity_gap gap = (if 0 < gap then Some \<lparr>sw_gap = gap, sw_grace = 0\<rparr> else None)"

definition sw_with_grace :: "int \<Rightarrow> session_windows \<Rightarrow> session_windows option" where
  "sw_with_grace g w = (if 0 \<le> g then Some (w\<lparr>sw_grace := g\<rparr>) else None)"

record sliding_windows =
  sl_time_difference :: int
  sl_grace :: int

definition sl_of_time_difference_and_grace :: "int \<Rightarrow> int \<Rightarrow> sliding_windows option" where
  "sl_of_time_difference_and_grace d g =
    (if 0 \<le> d then if 0 \<le> g then Some \<lparr>sl_time_difference = d, sl_grace = g\<rparr> else None else None)"

definition sl_of_time_difference_with_no_grace :: "int \<Rightarrow> sliding_windows option" where
  "sl_of_time_difference_with_no_grace d =
    (if 0 \<le> d then Some \<lparr>sl_time_difference = d, sl_grace = 0\<rparr> else None)"

section \<open>Windowed serdes\<close>

definition SessionWindowedSerde :: "'k serde \<Rightarrow> 'k windowed serde" where
  "SessionWindowedSerde inner =
    \<lparr>sd_ser = (\<lambda>topic value. sd_ser inner topic (wd_key value) @ i64_to_be (w_end (wd_window value)) @
                 i64_to_be (w_start (wd_window value))),
     sd_de = (\<lambda>topic bs.
       if length bs < 16 then None
       else let split = length bs - 16 in
         do { key \<leftarrow> sd_de inner topic (take split bs);
              Some \<lparr>wd_key = key,
                wd_window = \<lparr>w_start = i64_of_be (drop (split + 8) bs), w_end = i64_of_be (take 8 (drop split bs))\<rparr>\<rparr> })\<rparr>"

definition TimeWindowedSerde :: "'k serde \<Rightarrow> int \<Rightarrow> 'k windowed serde" where
  "TimeWindowedSerde inner sz =
    \<lparr>sd_ser = (\<lambda>topic value. sd_ser inner topic (wd_key value) @ i64_to_be (w_start (wd_window value))),
     sd_de = (\<lambda>topic bs.
       if length bs < 8 then None
       else let split = length bs - 8 in
         do { key \<leftarrow> sd_de inner topic (take split bs);
              let start = i64_of_be (drop split bs);
              en \<leftarrow> checked_i64 (start + sz);
              Some \<lparr>wd_key = key, wd_window = \<lparr>w_start = start, w_end = en\<rparr>\<rparr> })\<rparr>"

section \<open>The windows of an instant\<close>

lemma windows_loop_eq:
  assumes "0 < adv" "in_i64 start" "t + adv \<le> i64_max"
  shows "windows_loop adv t start = Some (map (\<lambda>i. start + int i * adv) [0..<nat ((t - start) div adv + 1)])"
  using assms
proof (induction "nat (t - start + 1)" arbitrary: start rule: less_induct)
  case less
  show ?case
  proof (cases "start \<le> t")
    case False
    then have "(t - start) div adv < 0"
      using less.prems(1) by (simp add: pos_imp_zdiv_neg_iff)
    then show ?thesis
      using False by (simp add: windows_loop.simps)
  next
    case True
    let ?n = "nat ((t - (start + adv)) div adv + 1)"
    have i: "in_i64 (start + adv)"
      using less.prems True by (simp add: in_i64_def)
    have IH: "windows_loop adv t (start + adv) = Some (map (\<lambda>i. start + adv + int i * adv) [0..<?n])"
      using less.prems True by (intro less.hyps) (simp_all add: i)
    have n: "nat ((t - start) div adv + 1) = Suc ?n"
    proof -
      have "t - (start + adv) = (t - start) + (- 1) * adv"
        by simp
      then have "(t - (start + adv)) div adv = (t - start) div adv - 1"
        using less.prems(1) by (simp only: div_mult_self1 [of adv])
      moreover have "0 \<le> (t - start) div adv"
        using True less.prems(1) by (simp add: pos_imp_zdiv_nonneg_iff)
      ultimately show ?thesis
        by simp
    qed
    have "map (\<lambda>i. start + int i * adv) [0..<Suc ?n] = start # map (\<lambda>i. start + adv + int i * adv) [0..<?n]"
      by (simp add: map_upt_Suc algebra_simps del: upt_Suc)
    then show ?thesis
      unfolding n using True IH i by (subst windows_loop.simps) (simp add: checked_i64_def)
  qed
qed

lemma div_le_iff:
  assumes "0 < (a :: int)"
  shows "e div a \<le> q \<longleftrightarrow> e < (q + 1) * a"
proof
  assume "e div a \<le> q"
  then have "(e div a) * a \<le> q * a"
    using assms by (simp add: mult_right_mono)
  then show "e < (q + 1) * a"
    using div_mult_mod_eq [of e a] pos_mod_bound [OF assms, of e] by (simp only: distrib_right mult_1)
next
  assume e: "e < (q + 1) * a"
  show "e div a \<le> q"
  proof (rule ccontr)
    assume "\<not> e div a \<le> q"
    then have "(q + 1) * a \<le> (e div a) * a"
      using assms by (intro mult_right_mono) auto
    then show False
      using e div_mult_mod_eq [of e a] pos_mod_sign [OF assms, of e] by linarith
  qed
qed

lemma le_div_iff:
  assumes "0 < (a :: int)"
  shows "q \<le> e div a \<longleftrightarrow> q * a \<le> e"
  using div_le_iff [OF assms, of e "q - 1"] by auto

text \<open>The hops from the first one above \<open>e - a\<close> up to \<open>t\<close>.\<close>

lemma hop_mem:
  assumes a: "0 < (a :: int)" and b: "b = e div a"
  shows "(\<exists>i < nat ((t - b * a) div a + 1). s = b * a + int i * a) \<longleftrightarrow> a dvd s \<and> e < s + a \<and> s \<le> t"
proof -
  have "(\<exists>i < nat ((t - b * a) div a + 1). s = b * a + int i * a) \<longleftrightarrow> (\<exists>q. s = q * a \<and> b \<le> q \<and> q - b \<le> (t - b * a) div a)"
  proof
    assume "\<exists>i < nat ((t - b * a) div a + 1). s = b * a + int i * a"
    then obtain i where i: "s = b * a + int i * a" "i < nat ((t - b * a) div a + 1)"
      by blast
    then show "\<exists>q. s = q * a \<and> b \<le> q \<and> q - b \<le> (t - b * a) div a"
      by (intro exI [of _ "b + int i"] conjI) (simp add: algebra_simps, simp, linarith)
  next
    assume "\<exists>q. s = q * a \<and> b \<le> q \<and> q - b \<le> (t - b * a) div a"
    then obtain q where q: "s = q * a" "b \<le> q" "q - b \<le> (t - b * a) div a"
      by blast
    then show "\<exists>i < nat ((t - b * a) div a + 1). s = b * a + int i * a"
      by (intro exI [of _ "nat (q - b)"]) (auto simp: algebra_simps)
  qed
  also have "\<dots> \<longleftrightarrow> (\<exists>q. s = q * a \<and> e < s + a \<and> s \<le> t)"
    unfolding le_div_iff [OF a] using div_le_iff [OF a, of e] by (auto simp: b algebra_simps)
  also have "\<dots> \<longleftrightarrow> a dvd s \<and> e < s + a \<and> s \<le> t"
    by (auto simp: dvd_def mult.commute)
  finally show ?thesis .
qed

lemma hop_nonneg:
  assumes a: "0 < (a :: int)" and "a dvd s" "0 < s + a"
  shows "0 \<le> s"
proof -
  obtain q where q: "s = a * q"
    using assms(2) unfolding dvd_def by blast
  then have "0 < a * (q + 1)"
    using assms(3) by (simp add: algebra_simps)
  then show ?thesis
    using a q by (simp add: zero_less_mult_iff)
qed

lemma windows_for_list:
  assumes "1 \<le> tw_advance w" "tw_advance w \<le> tw_size w" "tw_size w \<le> i64_max" "0 \<le> t" "t + tw_advance w \<le> i64_max"
  shows "\<exists>ws. windows_for w t = Some ws \<and> sorted_wrt (<) ws \<and>
    set ws = {s. tw_advance w dvd s \<and> 0 \<le> s \<and> s \<le> t \<and> t < s + tw_size w}"
proof -
  let ?a = "tw_advance w" and ?z = "tw_size w"
  define e where "e = max 0 (t - ?z + ?a)"
  define b where "b = e div ?a"
  have a: "0 < ?a"
    using assms(1) by simp
  have b: "0 \<le> b" "b * ?a \<le> e"
    using le_div_iff [OF a, of 0 e] le_div_iff [OF a, of b e] by (simp_all add: b_def e_def)
  have e: "e \<le> t" "in_i64 (t - ?z)" "in_i64 (t - ?z + ?a)"
    using assms by (simp_all add: e_def in_i64_def)
  define ws where "ws = map (\<lambda>i. b * ?a + int i * ?a) [0..<nat ((t - b * ?a) div ?a + 1)]"
  have "0 \<le> b * ?a"
    using a b(1) by simp
  then have "in_i64 (b * ?a)"
    using a b(2) e(1) assms(4,5) unfolding in_i64_def by linarith
  then have "windows_loop ?a t (b * ?a) = Some ws"
    unfolding ws_def using windows_loop_eq [OF a _ assms(5)] by blast
  then have "windows_for w t = Some ws"
    using e a by (simp add: windows_for_def Let_def checked_i64_def e_def b_def)
  moreover have "sorted_wrt (<) ws"
    using a by (auto simp: ws_def sorted_wrt_map intro!: sorted_wrt_mono_rel [OF _ sorted_wrt_upt])
  moreover have "s \<in> set ws \<longleftrightarrow> ?a dvd s \<and> 0 \<le> s \<and> s \<le> t \<and> t < s + ?z" for s
    using hop_mem [OF a b_def, of t s] hop_nonneg [OF a, of s] a by (auto simp: ws_def e_def)
  ultimately show ?thesis
    by blast
qed

text \<open>C29: \<^verbatim>\<open>windows_for\<close> returns, and it lists exactly the windows the instant falls into.  For a hop between one
  millisecond and the window size and an instant that leaves room for one more hop, the result is the increasing
  list of all starts that are multiples of the hop, are not negative, and whose half-open window
  \<^verbatim>\<open>[start, start + size)\<close> contains the instant.\<close>

theorem windows_for_exact:
  assumes "1 \<le> tw_advance w" "tw_advance w \<le> tw_size w" "tw_size w \<le> i64_max" "0 \<le> t" "t + tw_advance w \<le> i64_max"
  shows "\<exists>ws. windows_for w t = Some ws \<and> sorted_wrt (<) ws \<and>
    set ws = {s. tw_advance w dvd s \<and> 0 \<le> s \<and> s \<le> t \<and> t < s + tw_size w}"
  by (rule windows_for_list [OF assms])

lemma windows_for_exact_witness:
  "\<exists>ws. windows_for \<lparr>tw_size = 10, tw_advance = 5, tw_grace = 0\<rparr> 12 = Some ws \<and> sorted_wrt (<) ws \<and>
     set ws = {s. 5 dvd s \<and> 0 \<le> s \<and> s \<le> 12 \<and> 12 < s + 10}"
  using windows_for_exact [of "\<lparr>tw_size = 10, tw_advance = 5, tw_grace = 0\<rparr>" 12] by simp

section \<open>Windowed keys on the wire\<close>

lemma SessionWindowedSerde_contract:
  assumes "serde_contract sd valid"
  shows "serde_contract (SessionWindowedSerde sd)
    (\<lambda>x. valid (wd_key x) \<and> in_i64 (w_start (wd_window x)) \<and> in_i64 (w_end (wd_window x)))"
  by unfold_locales (simp add: SessionWindowedSerde_def Let_def serde_contract.roundtrip [OF assms])

lemma TimeWindowedSerde_contract:
  assumes "serde_contract sd valid"
  shows "serde_contract (TimeWindowedSerde sd sz)
    (\<lambda>x. valid (wd_key x) \<and> in_i64 (w_start (wd_window x)) \<and> in_i64 (w_end (wd_window x)) \<and>
         w_end (wd_window x) = w_start (wd_window x) + sz)"
proof unfold_locales
  fix x :: "'a windowed" and t
  assume "valid (wd_key x) \<and> in_i64 (w_start (wd_window x)) \<and> in_i64 (w_end (wd_window x)) \<and>
         w_end (wd_window x) = w_start (wd_window x) + sz"
  then show "sd_de (TimeWindowedSerde sd sz) t (sd_ser (TimeWindowedSerde sd sz) t x) = Some x"
    using serde_contract.roundtrip [OF assms, of "wd_key x" t]
    by (cases x; cases "wd_window x") (simp add: TimeWindowedSerde_def Let_def checked_i64_def)
qed

interpretation session_string: serde_contract "SessionWindowedSerde StringSerde"
    "\<lambda>x. utf8_valid (str_bytes (wd_key x)) \<and> in_i64 (w_start (wd_window x)) \<and> in_i64 (w_end (wd_window x))"
  by (rule SessionWindowedSerde_contract [OF string_serde.serde_contract_axioms])

text \<open>C30: Windowed keys survive the output topic.  When the inner serde round-trips, so do the session format
  (both bounds on the wire) for every window and the time format (start only) for every window of the serde's
  own size; and a time-windowed key of another size comes back with this serde's size.\<close>

theorem windowed_serdes_roundtrip:
  assumes "serde_contract sd valid" "valid k" "in_i64 s" "in_i64 e" "in_i64 (s + sz)"
  shows "sd_de (SessionWindowedSerde sd) t (sd_ser (SessionWindowedSerde sd) t \<lparr>wd_key = k, wd_window = \<lparr>w_start = s, w_end = e\<rparr>\<rparr>) =
      Some \<lparr>wd_key = k, wd_window = \<lparr>w_start = s, w_end = e\<rparr>\<rparr> \<and>
    sd_de (TimeWindowedSerde sd sz) t (sd_ser (TimeWindowedSerde sd sz) t \<lparr>wd_key = k, wd_window = \<lparr>w_start = s, w_end = e\<rparr>\<rparr>) =
      Some \<lparr>wd_key = k, wd_window = \<lparr>w_start = s, w_end = s + sz\<rparr>\<rparr>"
proof -
  let ?w = "\<lambda>e. \<lparr>wd_key = k, wd_window = \<lparr>w_start = s, w_end = e\<rparr>\<rparr>"
  have "sd_ser (TimeWindowedSerde sd sz) t (?w e) = sd_ser (TimeWindowedSerde sd sz) t (?w (s + sz))"
    by (simp add: TimeWindowedSerde_def)
  then show ?thesis
    using serde_contract.roundtrip [OF SessionWindowedSerde_contract [OF assms(1)], of "?w e" t]
      serde_contract.roundtrip [OF TimeWindowedSerde_contract [OF assms(1)], of "?w (s + sz)" sz t] assms(2-5)
    by simp
qed

lemma windowed_serdes_roundtrip_witness:
  "sd_de (TimeWindowedSerde StringSerde 10) ''t''
     (sd_ser (TimeWindowedSerde StringSerde 10) ''t'' \<lparr>wd_key = ''a'', wd_window = \<lparr>w_start = 20, w_end = 30\<rparr>\<rparr>) =
   Some \<lparr>wd_key = ''a'', wd_window = \<lparr>w_start = 20, w_end = 30\<rparr>\<rparr>"
  using windowed_serdes_roundtrip [OF string_serde.serde_contract_axioms, of "''a''" 20 30 10 "''t''"]
  by (simp add: in_i64_def str_bytes_def)

end
