(* ===== verification/Typed_Scan.thy ===== *)
theory Typed_Scan
  imports Kv_Store Windows
begin

text \<open>
  Lemmas the windowed stores share: decoders succeed along a scan of a backing, and range bounds built from composite
  keys select the intended instants.
\<close>

section \<open>Scans\<close>

lemma collect_opt_rel:
  "collect_opt (map F xs) = Some ys \<Longrightarrow> \<forall>y \<in> set ys. P y \<Longrightarrow>
   (\<And>x y. x \<in> set xs \<Longrightarrow> F x = Some y \<Longrightarrow> P y \<Longrightarrow> G x = Some (h y)) \<Longrightarrow> collect_opt (map G xs) = Some (map h ys)"
proof (induction xs arbitrary: ys)
  case (Cons x xs)
  obtain y ys' where y: "F x = Some y" "collect_opt (map F xs) = Some ys'" "ys = y # ys'"
    using Cons.prems(1) by (auto simp: bind_eq_Some_conv)
  have "collect_opt (map G xs) = Some (map h ys')"
    using Cons.IH [OF y(2)] Cons.prems(2,3) y(3) by simp
  moreover have "G x = Some (h y)"
    using Cons.prems(2,3) y by simp
  ultimately show ?case
    using y(3) by simp
qed simp

lemma concat_map_filter: "concat (map (\<lambda>x. if P x then [f x] else []) xs) = map f (filter P xs)"
  by (induction xs) simp_all

section \<open>Range bounds\<close>

lemma i64_to_be_less_mod:
  "i64_to_be x < i64_to_be y \<longleftrightarrow> x mod 18446744073709551616 < y mod 18446744073709551616"
  by (auto simp: i64_to_be_def to_be_less_iff nat_less_iff simp del: to_be.simps)

lemma i64_to_be_le_neg:
  assumes "0 \<le> x" "x \<le> i64_max" "in_i64 y" "y < 0"
  shows "i64_to_be x < i64_to_be y"
proof -
  have "(y + 18446744073709551616) mod 18446744073709551616 = y + 18446744073709551616"
    using assms by (intro mod_pos_pos_trivial) (simp_all add: in_i64_def)
  then have "y mod 18446744073709551616 = y + 18446744073709551616"
    by simp
  then show ?thesis
    using assms by (simp add: i64_to_be_less_mod in_i64_def mod_pos_pos_trivial)
qed

lemma store_key_in_range:
  assumes "0 \<le> from" "from \<le> i64_max" "0 \<le> to" "to < i64_max" "in_i64 ws" "sq \<le> u32_max"
  shows "store_key kb from 0 \<le> store_key kb ws sq \<and> store_key kb ws sq < store_key kb (sat_add to 1) 0 \<longleftrightarrow> from \<le> ws \<and> ws \<le> to"
proof -
  have sat: "sat_add to 1 = to + 1"
    using assms by (simp add: sat_add_def in_i64_def)
  show ?thesis
  proof (cases "0 \<le> ws")
    case True
    have "store_key kb from 0 \<le> store_key kb ws sq \<longleftrightarrow> \<not> store_key kb ws sq < store_key kb from 0"
      by auto
    then show ?thesis
      using True assms by (simp add: sat store_key_less_iff in_i64_def) auto
  next
    case False
    then have "store_key kb (to + 1) 0 < store_key kb ws sq"
      using i64_to_be_le_neg [of "to + 1" ws] assms by (simp add: store_key_def append_less_iff)
    then show ?thesis
      using False assms by (auto simp: sat)
  qed
qed

text \<open>A strictly sorted list is determined by its elements.\<close>

lemma sorted_wrt_unique:
  assumes "sorted_wrt (\<lambda>p q. (h p :: 'b :: linorder) < h q) xs" "sorted_wrt (\<lambda>p q. h p < h q) ys" "set xs = set ys"
  shows "xs = ys"
  using assms
proof (induction xs arbitrary: ys)
  case (Cons x xs)
  then obtain y ys' where ys: "ys = y # ys'"
    by (cases ys) auto
  have "x = y"
  proof (rule ccontr)
    assume "x \<noteq> y"
    then have "h y < h x" "h x < h y"
      using Cons.prems ys by auto
    then show False
      by simp
  qed
  moreover have "set xs = set ys'"
    using Cons.prems ys \<open>x = y\<close> by auto
  ultimately show ?case
    using Cons ys by simp
qed simp

end
