(* ===== verification/Window_Store.thy ===== *)
theory Window_Store
  imports Typed_Scan
begin

text \<open>
  \<^verbatim>\<open>store/window.rs\<close>: the typed window store \<^verbatim>\<open>WindowBytesStore\<close> over a plain or cached backing.  A window is
  stored under the composite key \<open>store_key\<close> and holds its value together with a record timestamp.

  An \<^verbatim>\<open>expect\<close> on a failed deserialization, a slice out of range and the overflow of
  \<^verbatim>\<open>window_start + window_size\<close> are panics: the operations return \<^term>\<open>None\<close> there.  Ranges of a cached
  backing panic when the lower bound lies above the upper one.

  The main step is a simulation: with composite serdes for keys and values the window store behaves as the
  key-value store of \<^verbatim>\<open>Kv_Store\<close>, so its laws carry over (the store is a map from keys and window
  starts to timestamped values, the changelog rebuilds it, flushes forward a consistent update stream).  On
  top of that the range reads return exactly the windows of the interval in order.
\<close>

section \<open>Backing\<close>

text \<open>The same two variants as the key-value backing, over \<^verbatim>\<open>CachingWindowStore\<close>.\<close>

fun wb_get :: "bytes \<Rightarrow> backing \<Rightarrow> bytes option \<times> backing" where
  "wb_get key (Plain b) = (imb_get b key, Plain b)"
| "wb_get key (Cached c) = (let (v, c') = cw_get key c in (v, Cached c'))"

fun wb_range :: "bytes \<Rightarrow> bytes \<Rightarrow> backing \<Rightarrow> entries option" where
  "wb_range lo hi (Plain b) = Some (imb_range lo hi b)"
| "wb_range lo hi (Cached c) = cw_range lo hi c"

fun wb_scan_all :: "backing \<Rightarrow> entries" where
  "wb_scan_all (Plain b) = imb_scan_all b"
| "wb_scan_all (Cached c) = cw_scan_all c"

fun wb_put :: "bytes \<Rightarrow> bytes \<Rightarrow> record_context \<Rightarrow> backing \<Rightarrow> backing" where
  "wb_put key value ctx (Plain b) = Plain (imb_put key value b)"
| "wb_put key value ctx (Cached c) = Cached (cw_put key value ctx c)"

fun wb_apply :: "bytes \<Rightarrow> bytes option \<Rightarrow> backing \<Rightarrow> backing" where
  "wb_apply key (Some v) (Plain b) = Plain (imb_put key v b)"
| "wb_apply key None (Plain b) = Plain (snd (imb_delete key b))"
| "wb_apply key (Some v) (Cached c) = Cached (cw_put_inner key v c)"
| "wb_apply key None (Cached c) = Cached (cw_delete_inner key c)"

fun wb_clear :: "backing \<Rightarrow> backing" where
  "wb_clear (Plain b) = Plain (imb_clear b)"
| "wb_clear (Cached c) = Cached (cw_clear c)"

definition wb_snapshot :: "backing \<Rightarrow> bytes option" where
  "wb_snapshot b = encode_byte_entries (wb_scan_all b)"

definition wb_restore :: "bytes \<Rightarrow> backing \<Rightarrow> backing result" where
  "wb_restore data b =
    (case decode_byte_entries data of
       Inl e \<Rightarrow> Inl e
     | Inr entries \<Rightarrow> Inr (foldl (\<lambda>b (key, value). wb_apply key (Some value) b) (wb_clear b) entries))"

section \<open>WindowBytesStore\<close>

record ('k, 'v) window_store =
  wst_name :: string
  wst_changelog_topic :: string
  wst_backing :: backing
  wst_key_serde :: "'k serde"
  wst_value_serde :: "'v serde"
  wst_changelog :: "(bytes \<times> bytes option) list"
  wst_logging :: bool
  wst_window_size :: int
  wst_pending_ctx :: "record_context option"

definition wst_new ::
  "string \<Rightarrow> in_memory_bytes \<Rightarrow> 'k serde \<Rightarrow> 'v serde \<Rightarrow> string \<Rightarrow> int \<Rightarrow> ('k, 'v) window_store" where
  "wst_new name backend key_serde value_serde changelog_topic window_size =
    \<lparr>wst_name = name, wst_changelog_topic = changelog_topic, wst_backing = Plain backend,
     wst_key_serde = key_serde, wst_value_serde = value_serde, wst_changelog = [], wst_logging = True,
     wst_window_size = window_size, wst_pending_ctx = None\<rparr>"

definition wst_in_memory :: "string \<Rightarrow> 'k serde \<Rightarrow> 'v serde \<Rightarrow> string \<Rightarrow> int \<Rightarrow> ('k, 'v) window_store" where
  "wst_in_memory name key_serde value_serde changelog_topic window_size =
     wst_new name imb_new key_serde value_serde changelog_topic window_size"

definition wst_enable_cache :: "named_cache \<Rightarrow> ('k, 'v) window_store \<Rightarrow> ('k, 'v) window_store" where
  "wst_enable_cache cache s =
    (case wst_backing s of
       Plain backend \<Rightarrow> s\<lparr>wst_backing := Cached (ck_with_name cache backend (wst_name s))\<rparr>
     | Cached _ \<Rightarrow> s)"

definition wst_is_cached :: "('k, 'v) window_store \<Rightarrow> bool" where
  "wst_is_cached s = (case wst_backing s of Cached _ \<Rightarrow> True | Plain _ \<Rightarrow> False)"

definition wst_write_ctx :: "('k, 'v) window_store \<Rightarrow> record_context" where
  "wst_write_ctx s =
    (case wst_pending_ctx s of
       Some ctx \<Rightarrow> ctx
     | None \<Rightarrow> \<lparr>rc_topic = wst_changelog_topic s, rc_partition = 0, rc_offset = 0, rc_timestamp = 0\<rparr>)"

definition wst_take_changelog :: "('k, 'v) window_store \<Rightarrow> (bytes \<times> bytes option) list \<times> ('k, 'v) window_store" where
  "wst_take_changelog s = (wst_changelog s, s\<lparr>wst_changelog := []\<rparr>)"

definition wst_apply_changelog :: "bytes \<Rightarrow> bytes option \<Rightarrow> ('k, 'v) window_store \<Rightarrow> ('k, 'v) window_store" where
  "wst_apply_changelog key value s = s\<lparr>wst_backing := wb_apply key value (wst_backing s)\<rparr>"

definition wst_set_logging :: "bool \<Rightarrow> ('k, 'v) window_store \<Rightarrow> ('k, 'v) window_store" where
  "wst_set_logging on s = s\<lparr>wst_logging := on\<rparr>"

definition wst_set_record_context :: "record_context \<Rightarrow> ('k, 'v) window_store \<Rightarrow> ('k, 'v) window_store" where
  "wst_set_record_context ctx s = s\<lparr>wst_pending_ctx := Some ctx\<rparr>"

text \<open>Unwrapping a stored value and deserializing it, for the optional old and new values of a flush.\<close>

definition wst_value :: "('k, 'v) window_store \<Rightarrow> bytes \<Rightarrow> (int \<times> 'v) option" where
  "wst_value s wrapped =
    do { (ts, raw) \<leftarrow> unwrap_value wrapped;
         v \<leftarrow> sd_de (wst_value_serde s) (wst_changelog_topic s) raw;
         Some (ts, v) }"

definition wst_value_opt :: "('k, 'v) window_store \<Rightarrow> bytes option \<Rightarrow> 'v option option" where
  "wst_value_opt s w = (case w of None \<Rightarrow> Some None | Some b \<Rightarrow> map_option (\<lambda>x. Some (snd x)) (wst_value s b))"

definition wst_forward :: "('k, 'v) window_store \<Rightarrow> flushed \<Rightarrow> nat \<Rightarrow> ('k windowed, 'v) forwarded option" where
  "wst_forward s fl child =
    (case fl of (sk, old_wrapped, new_wrapped, ctx) \<Rightarrow>
      do { window_start \<leftarrow> window_start_of sk;
           key_bytes \<leftarrow> key_bytes_of sk;
           key \<leftarrow> sd_de (wst_key_serde s) (wst_changelog_topic s) key_bytes;
           old \<leftarrow> wst_value_opt s old_wrapped;
           new \<leftarrow> wst_value_opt s new_wrapped;
           en \<leftarrow> checked_i64 (window_start + wst_window_size s);
           Some (child, \<lparr>wd_key = key, wd_window = \<lparr>w_start = window_start, w_end = en\<rparr>\<rparr>,
                 \<lparr>ch_old = old, ch_new = new\<rparr>, rc_timestamp ctx) })"

definition wst_flush_cache_into ::
  "nat list \<Rightarrow> ('k, 'v) window_store \<Rightarrow> (('k windowed, 'v) forwarded list \<times> ('k, 'v) window_store) option" where
  "wst_flush_cache_into children s =
    (case wst_backing s of
       Plain _ \<Rightarrow> Some ([], s)
     | Cached cache \<Rightarrow>
        let (drained, cache') = cw_flush_with_old cache;
            log = (if wst_logging s then map (\<lambda>(sk, _, new_wrapped, _). (sk, new_wrapped)) drained else [])
        in do { _ \<leftarrow> collect_opt (map (\<lambda>(sk, _). do { _ \<leftarrow> window_start_of sk; key_bytes_of sk }) drained);
                pushed \<leftarrow> collect_opt (concat (map (\<lambda>fl. map (wst_forward s fl) children) drained));
                Some (pushed, s\<lparr>wst_backing := Cached cache', wst_changelog := wst_changelog s @ log\<rparr>) })"

definition wst_clear :: "('k, 'v) window_store \<Rightarrow> ('k, 'v) window_store" where
  "wst_clear s = s\<lparr>wst_backing := wb_clear (wst_backing s), wst_changelog := []\<rparr>"

definition wst_snapshot :: "('k, 'v) window_store \<Rightarrow> bytes option" where
  "wst_snapshot s = wb_snapshot (wst_backing s)"

definition wst_restore_snapshot :: "bytes \<Rightarrow> ('k, 'v) window_store \<Rightarrow> ('k, 'v) window_store result" where
  "wst_restore_snapshot data s =
    (case wb_restore data (wst_backing s) of
       Inl e \<Rightarrow> Inl e
     | Inr b \<Rightarrow> Inr (s\<lparr>wst_backing := b, wst_changelog := []\<rparr>))"

text \<open>\<^verbatim>\<open>fetch_single(&self)\<close> on a cached backing moves the window to the recent end of the LRU list.\<close>

definition fetch_single :: "'k \<Rightarrow> int \<Rightarrow> ('k, 'v) window_store \<Rightarrow> ((int \<times> 'v) option \<times> ('k, 'v) window_store) option" where
  "fetch_single key window_start s =
    (let kb = sd_ser (wst_key_serde s) (wst_changelog_topic s) key;
         (wrapped, b) = wb_get (store_key kb window_start 0) (wst_backing s)
     in case wrapped of
          None \<Rightarrow> Some (None, s\<lparr>wst_backing := b\<rparr>)
        | Some w \<Rightarrow> map_option (\<lambda>x. (Some x, s\<lparr>wst_backing := b\<rparr>)) (wst_value s w))"

text \<open>The scan shared by \<^verbatim>\<open>fetch\<close> and \<^verbatim>\<open>fetch_with_ts\<close>: entries of another key are skipped before their value
  is touched.\<close>

definition wst_scan_entry :: "('k, 'v) window_store \<Rightarrow> bytes \<Rightarrow> bytes \<times> bytes \<Rightarrow> (int \<times> int \<times> 'v) list option" where
  "wst_scan_entry s kb kv =
    (case kv of (k, wrapped) \<Rightarrow>
      do { kb' \<leftarrow> key_bytes_of k;
           (if kb' \<noteq> kb then Some []
            else do { ws \<leftarrow> window_start_of k; (ts, v) \<leftarrow> wst_value s wrapped; Some [(ws, ts, v)] }) })"

definition fetch_with_ts :: "'k \<Rightarrow> int \<Rightarrow> int \<Rightarrow> ('k, 'v) window_store \<Rightarrow> (int \<times> int \<times> 'v) list option" where
  "fetch_with_ts key time_from time_to s =
    (let kb = sd_ser (wst_key_serde s) (wst_changelog_topic s) key;
         lo = store_key kb time_from 0; hi = store_key kb (sat_add time_to 1) 0
     in do { es \<leftarrow> wb_range lo hi (wst_backing s);
             map_option concat (collect_opt (map (wst_scan_entry s kb) es)) })"

definition fetch :: "'k \<Rightarrow> int \<Rightarrow> int \<Rightarrow> ('k, 'v) window_store \<Rightarrow> (int \<times> 'v) list option" where
  "fetch key time_from time_to s =
    map_option (map (\<lambda>(ws, ts, v). (ws, v))) (fetch_with_ts key time_from time_to s)"

definition wst_scan_any :: "('k, 'v) window_store \<Rightarrow> int \<Rightarrow> int \<Rightarrow> bytes \<times> bytes \<Rightarrow> ('k \<times> int \<times> int \<times> 'v) list option" where
  "wst_scan_any s start_from start_to kv =
    (case kv of (k, wrapped) \<Rightarrow>
      do { ws \<leftarrow> window_start_of k;
           (if ws < start_from \<or> start_to < ws then Some []
            else do { kb \<leftarrow> key_bytes_of k;
                      key \<leftarrow> sd_de (wst_key_serde s) (wst_changelog_topic s) kb;
                      (ts, v) \<leftarrow> wst_value s wrapped;
                      Some [(key, ws, ts, v)] }) })"

definition fetch_all_in_range :: "int \<Rightarrow> int \<Rightarrow> ('k, 'v) window_store \<Rightarrow> ('k \<times> int \<times> int \<times> 'v) list option" where
  "fetch_all_in_range start_from start_to s =
     map_option concat (collect_opt (map (wst_scan_any s start_from start_to) (wb_scan_all (wst_backing s))))"

definition wst_put :: "'k \<Rightarrow> int \<Rightarrow> 'v \<Rightarrow> int \<Rightarrow> ('k, 'v) window_store \<Rightarrow> ('k, 'v) window_store" where
  "wst_put key window_start value record_ts s =
    (let kb = sd_ser (wst_key_serde s) (wst_changelog_topic s) key;
         sk = store_key kb window_start 0;
         raw = sd_ser (wst_value_serde s) (wst_changelog_topic s) value;
         wrapped = wrap_value record_ts raw
     in case wst_backing s of
          Plain _ \<Rightarrow>
            let s' = s\<lparr>wst_backing := wb_put sk wrapped (wst_write_ctx s) (wst_backing s)\<rparr>
            in if wst_logging s then s'\<lparr>wst_changelog := wst_changelog s' @ [(sk, Some wrapped)]\<rparr> else s'
        | Cached _ \<Rightarrow> s\<lparr>wst_backing := wb_put sk wrapped (wst_write_ctx s) (wst_backing s)\<rparr>)"

section \<open>Interactive queries\<close>

definition iq_window_fetch_single :: "bytes \<Rightarrow> int \<Rightarrow> ('k, 'v) window_store \<Rightarrow> bytes option option" where
  "iq_window_fetch_single key window_start s =
    (case fst (wb_get (store_key key window_start 0) (wst_backing s)) of
       None \<Rightarrow> Some None
     | Some wrapped \<Rightarrow> map_option (\<lambda>x. Some (snd x)) (unwrap_value wrapped))"

definition iq_window_fetch :: "bytes \<Rightarrow> int \<Rightarrow> int \<Rightarrow> ('k, 'v) window_store \<Rightarrow> (int \<times> bytes) list option" where
  "iq_window_fetch key time_from time_to s =
    do { es \<leftarrow> wb_range (store_key key time_from 0) (store_key key (sat_add time_to 1) 0) (wst_backing s);
         map_option concat (collect_opt (map (\<lambda>(k, wrapped).
           do { kb \<leftarrow> key_bytes_of k;
                (if kb \<noteq> key then Some []
                 else do { (ts, raw) \<leftarrow> unwrap_value wrapped; ws \<leftarrow> window_start_of k; Some [(ws, raw)] }) }) es)) }"

datatype 'k window_query =
    WindowKey "'k any_key" int int
  | WindowRange "'k any_key option" "'k any_key option" int int
  | OtherWindowQuery

datatype ('k, 'v) window_answer = WindowRows "(int \<times> 'v) list" | WindowKeyRows "(('k \<times> int) \<times> 'v) list"

definition wst_iq2_ser :: "('k, 'v) window_store \<Rightarrow> 'k any_key \<Rightarrow> iq2_failure + bytes" where
  "wst_iq2_ser s b =
    (case b of None \<Rightarrow> Inl KeyTypeMismatch | Some k \<Rightarrow> Inr (sd_ser (wst_key_serde s) (wst_changelog_topic s) k))"

definition wst_iq2_bound :: "('k, 'v) window_store \<Rightarrow> 'k any_key option \<Rightarrow> iq2_failure + bytes option" where
  "wst_iq2_bound s b = (case b of None \<Rightarrow> Inr None | Some k \<Rightarrow> map_sum id Some (wst_iq2_ser s k))"

definition wst_iq2_row ::
  "('k, 'v) window_store \<Rightarrow> bytes option \<Rightarrow> bytes option \<Rightarrow> int \<Rightarrow> int \<Rightarrow> bytes \<times> bytes \<Rightarrow> (('k \<times> int) \<times> 'v) list option" where
  "wst_iq2_row s lo_b hi_b from to kv =
    (case kv of (sk, wrapped) \<Rightarrow>
      do { ws \<leftarrow> window_start_of sk;
           (if ws < from \<or> to < ws then Some []
            else do { kb \<leftarrow> key_bytes_of sk;
                      (if (case lo_b of None \<Rightarrow> False | Some l \<Rightarrow> kb < l) then Some []
                       else if (case hi_b of None \<Rightarrow> False | Some h \<Rightarrow> h < kb) then Some []
                       else do { key \<leftarrow> sd_de (wst_key_serde s) (wst_changelog_topic s) kb;
                                 (ts, v) \<leftarrow> wst_value s wrapped;
                                 Some [((key, ws), v)] }) }) })"

definition wst_iq2_execute ::
  "'k window_query \<Rightarrow> ('k, 'v) window_store \<Rightarrow> (iq2_failure + ('k, 'v) window_answer) option" where
  "wst_iq2_execute query s =
    (case query of
       WindowKey key from_ts to_ts \<Rightarrow>
        (case wst_iq2_ser s key of
           Inl e \<Rightarrow> Some (Inl e)
         | Inr kb \<Rightarrow>
             do { es \<leftarrow> wb_range (store_key kb (max from_ts 0) 0) (store_key kb (sat_add to_ts 1) 0) (wst_backing s);
                  rows \<leftarrow> collect_opt (map (wst_scan_entry s kb) es);
                  Some (Inr (WindowRows (map (\<lambda>(ws, ts, v). (ws, v)) (concat rows)))) })
     | WindowRange lo hi from_ts to_ts \<Rightarrow>
        (case wst_iq2_bound s lo of
           Inl e \<Rightarrow> Some (Inl e)
         | Inr lo_b \<Rightarrow>
            (case wst_iq2_bound s hi of
               Inl e \<Rightarrow> Some (Inl e)
             | Inr hi_b \<Rightarrow>
                 map_option (\<lambda>rows. Inr (WindowKeyRows (concat rows)))
                   (collect_opt (map (wst_iq2_row s lo_b hi_b from_ts to_ts) (wb_scan_all (wst_backing s))))))
     | OtherWindowQuery \<Rightarrow> Some (Inl UnknownQueryType))"

section \<open>The window store as a key-value store\<close>

lemma wb_same:
  "wb_get = backing_get" "wb_range = backing_range" "wb_scan_all = backing_scan_all" "wb_put = backing_put"
  "wb_apply = backing_apply" "wb_clear = backing_clear"
proof -
  show "wb_get = backing_get"
    by (rule ext, rule ext, rename_tac k b, case_tac b) (simp_all add: caching_same)
  show "wb_range = backing_range"
    by (rule ext, rule ext, rule ext, rename_tac l h b, case_tac b) (simp_all add: caching_same)
  show "wb_scan_all = backing_scan_all" "wb_clear = backing_clear"
    by (rule ext, rename_tac b, case_tac b, simp_all add: caching_same)+
  show "wb_put = backing_put"
    by (rule ext, rule ext, rule ext, rule ext, rename_tac k v c b, case_tac b) (simp_all add: caching_same)
  show "wb_apply = backing_apply"
    by (rule ext, rule ext, rule ext, rename_tac k v b, case_tac b; case_tac v) (simp_all add: caching_same)
qed

lemma wb_snapshot_same: "wb_snapshot = backing_snapshot" "wb_restore = backing_restore"
  unfolding fun_eq_iff wb_snapshot_def backing_snapshot_def wb_restore_def backing_restore_def wb_same by simp_all

text \<open>The composite serdes: a stored window is keyed by the inner key and the window start, and holds a timestamped
  value.\<close>

definition window_key_serde :: "'k serde \<Rightarrow> ('k \<times> int) serde" where
  "window_key_serde ks =
    \<lparr>sd_ser = (\<lambda>t (k, ws). store_key (sd_ser ks t k) ws 0),
     sd_de = (\<lambda>t bs. do { ws \<leftarrow> window_start_of bs; kb \<leftarrow> key_bytes_of bs; k \<leftarrow> sd_de ks t kb; Some (k, ws) })\<rparr>"

definition window_value_serde :: "'v serde \<Rightarrow> (int \<times> 'v) serde" where
  "window_value_serde vs =
    \<lparr>sd_ser = (\<lambda>t (ts, v). wrap_value ts (sd_ser vs t v)),
     sd_de = (\<lambda>t bs. do { (ts, raw) \<leftarrow> unwrap_value bs; v \<leftarrow> sd_de vs t raw; Some (ts, v) })\<rparr>"

definition window_valid :: "('k \<Rightarrow> bool) \<Rightarrow> int \<Rightarrow> 'k \<times> int \<Rightarrow> bool" where
  "window_valid vk sz x \<longleftrightarrow> vk (fst x) \<and> in_i64 (snd x) \<and> in_i64 (snd x + sz)"

definition stamped_valid :: "('v \<Rightarrow> bool) \<Rightarrow> int \<times> 'v \<Rightarrow> bool" where
  "stamped_valid vv x \<longleftrightarrow> in_i64 (fst x) \<and> vv (snd x)"

lemma window_serdes:
  assumes "serde_contract ks vk" "serde_contract vs vv"
  shows "kv_serdes (window_key_serde ks) (window_valid vk sz) (window_value_serde vs) (stamped_valid vv)"
  by (intro kv_serdes.intro; unfold_locales)
     (auto simp: window_key_serde_def window_value_serde_def window_valid_def stamped_valid_def
       serde_contract.roundtrip [OF assms(1)] serde_contract.roundtrip [OF assms(2)])

interpretation window_string_i64: kv_serdes "window_key_serde StringSerde"
    "window_valid (\<lambda>s. utf8_valid (str_bytes s)) sz" "window_value_serde I64Serde" "stamped_valid in_i64" for sz
  by (rule window_serdes [OF string_serde.serde_contract_axioms i64_serde.serde_contract_axioms])

definition as_kv :: "('k, 'v) window_store \<Rightarrow> ('k \<times> int, int \<times> 'v) kv_store" where
  "as_kv s =
    \<lparr>kv_name = wst_name s, kv_changelog_topic = wst_changelog_topic s, kv_backing = wst_backing s,
     kv_key_serde = window_key_serde (wst_key_serde s), kv_value_serde = window_value_serde (wst_value_serde s),
     kv_changelog = wst_changelog s, kv_logging = wst_logging s, kv_pending_ctx = wst_pending_ctx s\<rparr>"

lemma as_kv_fields [simp]:
  "kv_backing (as_kv s) = wst_backing s" "kv_changelog_topic (as_kv s) = wst_changelog_topic s"
  "kv_changelog (as_kv s) = wst_changelog s" "kv_logging (as_kv s) = wst_logging s"
  "kv_key_serde (as_kv s) = window_key_serde (wst_key_serde s)"
  "kv_value_serde (as_kv s) = window_value_serde (wst_value_serde s)"
  by (simp_all add: as_kv_def)

lemma as_kv_update [simp]:
  "(as_kv s)\<lparr>kv_backing := b\<rparr> = as_kv (s\<lparr>wst_backing := b\<rparr>)"
  "(as_kv s)\<lparr>kv_changelog := l\<rparr> = as_kv (s\<lparr>wst_changelog := l\<rparr>)"
  "(as_kv s)\<lparr>kv_pending_ctx := c\<rparr> = as_kv (s\<lparr>wst_pending_ctx := c\<rparr>)"
  by (simp_all add: as_kv_def)

lemma wst_write_ctx_kv [simp]: "kv_write_ctx (as_kv s) = wst_write_ctx s"
  by (simp add: kv_write_ctx_def wst_write_ctx_def as_kv_def split: option.splits)

lemma wst_put_kv: "as_kv (wst_put k ws v ts s) = kv_put (k, ws) (ts, v) (as_kv s)"
  by (simp add: wst_put_def kv_put_def Let_def wb_same window_key_serde_def window_value_serde_def split: backing.splits)

lemma wst_value_kv: "wst_value s w = sd_de (window_value_serde (wst_value_serde s)) (wst_changelog_topic s) w"
  by (simp add: wst_value_def window_value_serde_def)

lemma fetch_single_kv:
  "map_option (map_prod id as_kv) (fetch_single k ws s) = kv_get (k, ws) (as_kv s)"
  by (auto simp: fetch_single_def kv_get_def Let_def wb_same split_def de_opt_def wst_value_kv option.map_comp comp_def
      window_key_serde_def [of "wst_key_serde s"] split: option.splits)

lemma wst_value_opt_kv:
  "wst_value_opt s w = map_option (map_option snd) (de_opt (window_value_serde (wst_value_serde s)) (wst_changelog_topic s) w)"
  by (simp add: wst_value_opt_def de_opt_def wst_value_kv option.map_comp comp_def split: option.splits)

text \<open>A change forwarded by the key-value store and the windowed change it stands for.\<close>

definition windowed_forward :: "int \<Rightarrow> ('k \<times> int, int \<times> 'v) forwarded \<Rightarrow> ('k windowed, 'v) forwarded" where
  "windowed_forward sz f =
    (case f of (child, (k, ws), ch, ts) \<Rightarrow>
      (child, \<lparr>wd_key = k, wd_window = \<lparr>w_start = ws, w_end = ws + sz\<rparr>\<rparr>, change_map snd ch, ts))"

lemma wst_forward_kv:
  assumes "kv_forward (as_kv s) fl child = Some f" "in_i64 (snd (fst (snd f)) + wst_window_size s)"
  shows "wst_forward s fl child = Some (windowed_forward (wst_window_size s) f)"
proof -
  obtain sk old new ctx where fl: "fl = (sk, old, new, ctx)"
    by (cases fl) auto
  show ?thesis
    using assms unfolding fl
    by (auto simp: kv_forward_def wst_forward_def windowed_forward_def wst_value_opt_kv change_map_def checked_i64_def
        window_key_serde_def bind_eq_Some_conv)
qed

lemma wst_flush_kv:
  assumes ok: "backing_ok (wst_backing s)"
    and keys: "\<forall>kb \<in> cached_keys (wst_backing s). \<exists>x. window_valid vk sz x \<and> kb = sd_ser (window_key_serde ks) (wst_changelog_topic s) x"
    and fl: "kv_flush_cache_into cs (as_kv s) = Some (fw, sk)"
    and fw: "\<forall>f \<in> set fw. window_valid vk (wst_window_size s) (fst (snd f))"
  shows "\<exists>s'. wst_flush_cache_into cs s = Some (map (windowed_forward (wst_window_size s)) fw, s') \<and> as_kv s' = sk \<and>
    wst_window_size s' = wst_window_size s"
proof (cases "wst_backing s")
  case (Plain b)
  then show ?thesis
    using fl by (auto simp: kv_flush_cache_into_def wst_flush_cache_into_def)
next
  case (Cached c)
  obtain drained c' where d: "ck_flush_with_old c = (drained, c')"
    by force
  have okc: "ck_ok c" "nc_ok (cs_cache c)"
    using ok Cached by (auto simp: ck_ok_def)
  have dec: "collect_opt (map (\<lambda>(k, _). do { _ \<leftarrow> window_start_of k; key_bytes_of k }) drained) =
      Some (map (\<lambda>x. the (key_bytes_of (fst x))) drained)"
  proof (rule collect_opt_map_Some)
    fix x
    assume "x \<in> set drained"
    then have "fst x \<in> set (map snd (nc_dirty (cs_cache c)))"
      using ck_flush_with_old_eq [OF okc(1)] d by force
    then have "fst x \<in> cached_keys (wst_backing s)"
      using dirty_keys(2) [OF okc(2)] Cached by auto
    then obtain k ws where "in_i64 ws" "fst x = store_key (sd_ser ks (wst_changelog_topic s) k) ws 0"
      using keys by (fastforce simp: window_valid_def window_key_serde_def)
    then show "(case x of (k, _) \<Rightarrow> do { _ \<leftarrow> window_start_of k; key_bytes_of k }) = Some (the (key_bytes_of (fst x)))"
      by (cases x) simp
  qed
  have coll: "collect_opt (concat (map (\<lambda>fl. map (kv_forward (as_kv s) fl) cs) drained)) = Some fw"
    and sk: "sk = (as_kv s)\<lparr>kv_backing := Cached c', kv_changelog := wst_changelog s @
        (if wst_logging s then map (\<lambda>(kb, _, new_vb, _). (kb, new_vb)) drained else [])\<rparr>"
    using fl Cached d by (auto simp: kv_flush_cache_into_def bind_eq_Some_conv)
  have "collect_opt (concat (map (\<lambda>fl. map (wst_forward s fl) cs) drained)) = Some (map (windowed_forward (wst_window_size s)) fw)"
    using coll fw wst_forward_kv [of s] unfolding concat_map_product
    by (intro collect_opt_rel [where P = "\<lambda>f. window_valid vk (wst_window_size s) (fst (snd f))"])
       (auto simp: window_valid_def)
  then show ?thesis
    using Cached d dec by (simp add: wst_flush_cache_into_def caching_same sk)
qed

section \<open>Histories\<close>

datatype ('k, 'v) window_op =
    WPut 'k int 'v int
  | WFetch 'k int
  | WContext record_context
  | WFlush
  | WTake

fun wst_step :: "nat list \<Rightarrow> ('k, 'v) window_op \<Rightarrow> ('k, 'v) window_store \<Rightarrow>
    ((int \<times> 'v) option list \<times> (bytes \<times> bytes option) list \<times> ('k windowed, 'v) forwarded list \<times> ('k, 'v) window_store) option" where
  "wst_step cs (WPut k ws v ts) s = Some ([], [], [], wst_put k ws v ts s)"
| "wst_step cs (WFetch k ws) s = map_option (\<lambda>(v, s'). ([v], [], [], s')) (fetch_single k ws s)"
| "wst_step cs (WContext ctx) s = Some ([], [], [], wst_set_record_context ctx s)"
| "wst_step cs WFlush s = map_option (\<lambda>(fw, s'). ([], [], fw, s')) (wst_flush_cache_into cs s)"
| "wst_step cs WTake s = (let (log, s') = wst_take_changelog s in Some ([], log, [], s'))"

fun wst_run :: "nat list \<Rightarrow> ('k, 'v) window_op list \<Rightarrow> ('k, 'v) window_store \<Rightarrow>
    ((int \<times> 'v) option list \<times> (bytes \<times> bytes option) list \<times> ('k windowed, 'v) forwarded list \<times> ('k, 'v) window_store) option" where
  "wst_run cs [] s = Some ([], [], [], s)"
| "wst_run cs (oper # ops) s =
    do { (r, log, fw, s') \<leftarrow> wst_step cs oper s;
         (r', log', fw', s'') \<leftarrow> wst_run cs ops s';
         Some (r @ r', log @ log', fw @ fw', s'') }"

text \<open>The key-value operation a window operation stands for.\<close>

fun kv_of :: "('k, 'v) window_op \<Rightarrow> ('k \<times> int, int \<times> 'v) kv_op" where
  "kv_of (WPut k ws v ts) = KPut (k, ws) (ts, v)"
| "kv_of (WFetch k ws) = KGet (k, ws)"
| "kv_of (WContext ctx) = KContext ctx"
| "kv_of WFlush = KFlush"
| "kv_of WTake = KTake"

definition window_op_ok :: "('k \<Rightarrow> bool) \<Rightarrow> ('v \<Rightarrow> bool) \<Rightarrow> int \<Rightarrow> ('k, 'v) window_op \<Rightarrow> bool" where
  "window_op_ok vk vv sz oper \<longleftrightarrow> op_valid (window_valid vk sz) (stamped_valid vv) (kv_of oper)"

abbreviation window_holds where
  "window_holds ks vk vs vv sz s m d \<equiv>
     kv_holds (window_key_serde ks) (window_valid vk sz) (window_value_serde vs) (stamped_valid vv) (as_kv s) m d"

lemma wst_step_kv:
  assumes h: "window_holds ks vk vs vv (wst_window_size s) s m d"
    and st: "kv_step cs (kv_of oper) (as_kv s) = Some (r, log, fw, sk)"
    and fw: "\<forall>f \<in> set fw. window_valid vk (wst_window_size s) (fst (snd f))"
  shows "\<exists>s'. wst_step cs oper s = Some (r, log, map (windowed_forward (wst_window_size s)) fw, s') \<and> as_kv s' = sk \<and>
    wst_window_size s' = wst_window_size s"
proof (cases oper)
  case (WPut k ws v ts)
  then show ?thesis
    using st by (simp add: wst_put_kv [symmetric]) (auto simp: wst_put_def Let_def split: backing.splits)
next
  case (WFetch k ws)
  then obtain s' where "fetch_single k ws s = Some (hd r, s')" "as_kv s' = sk" "log = []" "fw = []" "r = [hd r]"
    using st by (auto simp: fetch_single_kv [symmetric])
  moreover have "wst_window_size s' = wst_window_size s"
    using calculation(1) by (auto simp: fetch_single_def Let_def split_def split: option.splits)
  ultimately show ?thesis
    using WFetch by simp
next
  case (WContext ctx)
  then show ?thesis
    using st by (auto simp: wst_set_record_context_def kv_set_record_context_def)
next
  case WFlush
  have "backing_ok (wst_backing s)"
    "\<forall>kb \<in> cached_keys (wst_backing s). \<exists>x. window_valid vk (wst_window_size s) x \<and> kb = sd_ser (window_key_serde ks) (wst_changelog_topic s) x"
    using h by (auto simp: kv_holds_def)
  then show ?thesis
    using wst_flush_kv [OF _ _ _ fw, where ks = ks and sz = "wst_window_size s"] st WFlush by force
next
  case WTake
  then show ?thesis
    using st by (auto simp: wst_take_changelog_def kv_take_changelog_def)
qed

lemma wst_run_kv:
  assumes S: "serde_contract ks vk" "serde_contract vs vv" and cs: "distinct cs"
  shows "window_holds ks vk vs vv (wst_window_size s) s m d \<Longrightarrow>
    \<forall>oper \<in> set ops. window_op_ok vk vv (wst_window_size s) oper \<Longrightarrow>
    kv_run cs (map kv_of ops) (as_kv s) = Some (r, log, fw, sk) \<Longrightarrow>
    \<exists>s'. wst_run cs ops s = Some (r, log, map (windowed_forward (wst_window_size s)) fw, s') \<and> as_kv s' = sk \<and>
      wst_window_size s' = wst_window_size s"
proof (induction ops arbitrary: s m d r log fw)
  case (Cons oper ops)
  note W = window_serdes [OF S, of "wst_window_size s"]
  obtain log1 fw1 s1 d1 where st: "kv_step cs (kv_of oper) (as_kv s) = Some (fst (map_step (kv_of oper) m), log1, fw1, s1)"
    "kv_holds (window_key_serde ks) (window_valid vk (wst_window_size s)) (window_value_serde vs) (stamped_valid vv) s1
       (snd (map_step (kv_of oper) m)) d1"
    "\<forall>f \<in> set fw1. window_valid vk (wst_window_size s) (fst (snd f))"
    using kv_serdes.holds_step [OF W Cons.prems(1) _ cs, of "kv_of oper"] Cons.prems(2)
    by (auto simp: window_op_ok_def)
  obtain s' where s': "wst_step cs oper s = Some (fst (map_step (kv_of oper) m), log1, map (windowed_forward (wst_window_size s)) fw1, s')"
    "as_kv s' = s1" "wst_window_size s' = wst_window_size s"
    using wst_step_kv [OF Cons.prems(1) st(1,3)] by blast
  obtain r2 log2 fw2 where rest: "kv_run cs (map kv_of ops) (as_kv s') = Some (r2, log2, fw2, sk)"
    and eq: "r = fst (map_step (kv_of oper) m) @ r2" "log = log1 @ log2" "fw = fw1 @ fw2"
    using Cons.prems(3) st(1) s'(2) by (auto simp: bind_eq_Some_conv)
  obtain s'' where "wst_run cs ops s' = Some (r2, log2, map (windowed_forward (wst_window_size s)) fw2, s'')" "as_kv s'' = sk"
    "wst_window_size s'' = wst_window_size s"
    using Cons.IH [of s' "snd (map_step (kv_of oper) m)" d1, OF _ _ rest] st(2) s'(2,3) Cons.prems(2) by auto
  then show ?case
    using s'(1) eq by simp
qed auto

definition wst_fresh :: "bool \<Rightarrow> string \<Rightarrow> 'k serde \<Rightarrow> 'v serde \<Rightarrow> string \<Rightarrow> int \<Rightarrow> ('k, 'v) window_store" where
  "wst_fresh cached name ks vs topic sz =
    (let s = wst_in_memory name ks vs topic sz in if cached then wst_enable_cache (nc_new name) s else s)"

lemma wst_fresh_kv [simp]:
  "as_kv (wst_fresh cached name ks vs topic sz) = kv_fresh cached name (window_key_serde ks) (window_value_serde vs) topic"
  "wst_window_size (wst_fresh cached name ks vs topic sz) = sz"
  by (auto simp: wst_fresh_def wst_in_memory_def wst_new_def wst_enable_cache_def as_kv_def kv_fresh_def kv_in_memory_def
      kv_new_def kv_enable_cache_def Let_def)

lemma wst_run_fresh:
  assumes "serde_contract ks vk" "serde_contract vs vv" "distinct cs" "\<forall>oper \<in> set ops. window_op_ok vk vv sz oper"
  obtains log fw s d where
    "wst_run cs ops (wst_fresh cached name ks vs topic sz) =
       Some (fst (map_run (map kv_of ops) Map.empty), log, map (windowed_forward sz) fw, s)"
    "window_holds ks vk vs vv sz s (snd (map_run (map kv_of ops) Map.empty)) d"
    "wst_window_size s = sz" "wst_logging s" "wst_is_cached s = cached"
    "logs Map.empty (log @ wst_changelog s) (backing_durable (wst_backing s))"
    "cached \<longrightarrow> (\<forall>c \<in> set cs. apply_changes (changes_to c fw) Map.empty = Some d)"
proof -
  let ?s = "wst_fresh cached name ks vs topic sz"
  note W = window_serdes [OF assms(1,2), of sz]
  have h: "window_holds ks vk vs vv sz ?s Map.empty Map.empty"
    using kv_fresh_holds by (simp add: wst_fresh_kv)
  have v: "\<forall>oper \<in> set (map kv_of ops). op_valid (window_valid vk sz) (stamped_valid vv) oper"
    using assms(4) by (simp add: window_op_ok_def)
  obtain log fw sk d where r: "kv_run cs (map kv_of ops) (as_kv ?s) = Some (fst (map_run (map kv_of ops) Map.empty), log, fw, sk)"
    "kv_holds (window_key_serde ks) (window_valid vk sz) (window_value_serde vs) (stamped_valid vv) sk (snd (map_run (map kv_of ops) Map.empty)) d"
    "kv_logging sk = kv_logging (as_kv ?s)" "kv_is_cached sk = kv_is_cached (as_kv ?s)"
    "\<forall>base pre. kv_logging (as_kv ?s) \<longrightarrow> logs base (pre @ kv_changelog (as_kv ?s)) (backing_durable (kv_backing (as_kv ?s))) \<longrightarrow>
       logs base (pre @ log @ kv_changelog sk) (backing_durable (kv_backing sk))"
    "kv_is_cached (as_kv ?s) \<longrightarrow> (\<forall>c \<in> set cs. apply_changes (changes_to c fw) Map.empty = Some d)"
    using kv_serdes.holds_run [OF W h v assms(3)] by blast
  obtain s where s: "wst_run cs ops ?s = Some (fst (map_run (map kv_of ops) Map.empty), log, map (windowed_forward sz) fw, s)"
    "as_kv s = sk" "wst_window_size s = sz"
    using wst_run_kv [OF assms(1-3), of ?s Map.empty Map.empty ops _ log fw sk] h assms(4) r(1) by auto
  have "logs Map.empty (log @ wst_changelog s) (backing_durable (wst_backing s))"
    using r(5) [rule_format, of Map.empty "[]"] s(2) by (auto simp: wst_fresh_kv)
  moreover have "wst_is_cached s = kv_is_cached (as_kv s)"
    by (simp add: wst_is_cached_def kv_is_cached_def)
  ultimately show thesis
    using that [of log fw s d] s r by (auto simp: wst_fresh_kv)
qed

section \<open>Range reads\<close>

lemma window_key_serde_inj:
  assumes "window_key_serde a = window_key_serde b"
  shows "a = b"
proof -
  have "sd_ser a t k = sd_ser b t k" for t k
  proof -
    have "sd_ser (window_key_serde a) t (k, 0) = sd_ser (window_key_serde b) t (k, 0)"
      using assms by simp
    then show ?thesis
      by (simp add: window_key_serde_def store_key_def)
  qed
  moreover have "sd_de a t kb = sd_de b t kb" for t kb
  proof -
    have "sd_de (window_key_serde a) t (store_key kb 0 0) = sd_de (window_key_serde b) t (store_key kb 0 0)"
      using assms by simp
    then show ?thesis
      by (cases "sd_de a t kb"; cases "sd_de b t kb") (simp_all add: window_key_serde_def in_i64_def)
  qed
  ultimately show ?thesis
    by (cases a; cases b) (simp add: fun_eq_iff)
qed

lemma window_value_serde_inj:
  assumes "window_value_serde a = window_value_serde b"
  shows "a = b"
proof -
  have "sd_ser a t k = sd_ser b t k" for t k
  proof -
    have "sd_ser (window_value_serde a) t (0, k) = sd_ser (window_value_serde b) t (0, k)"
      using assms by simp
    then show ?thesis
      by (simp add: window_value_serde_def wrap_value_def)
  qed
  moreover have "sd_de a t kb = sd_de b t kb" for t kb
  proof -
    have "sd_de (window_value_serde a) t (wrap_value 0 kb) = sd_de (window_value_serde b) t (wrap_value 0 kb)"
      using assms by simp
    then show ?thesis
      by (cases "sd_de a t kb"; cases "sd_de b t kb") (simp_all add: window_value_serde_def in_i64_def)
  qed
  ultimately show ?thesis
    by (cases a; cases b) (simp add: fun_eq_iff)
qed

text \<open>The stored entries, in key order, are the image of a list of typed windows.\<close>

lemma window_holds_list:
  assumes S: "serde_contract ks vk" "serde_contract vs vv" and h: "window_holds ks vk vs vv sz s m d"
  obtains L where "backing_scan_all (wst_backing s) =
      map (\<lambda>(k, v). (sd_ser (window_key_serde ks) (wst_changelog_topic s) k, sd_ser (window_value_serde vs) (wst_changelog_topic s) v)) L"
    "\<And>k v. (k, v) \<in> set L \<longleftrightarrow> m k = Some v" "\<And>k v. (k, v) \<in> set L \<Longrightarrow> window_valid vk sz k \<and> stamped_valid vv v"
    "sorted_wrt (\<lambda>p q. sd_ser (window_key_serde ks) (wst_changelog_topic s) (fst p) < sd_ser (window_key_serde ks) (wst_changelog_topic s) (fst q)) L"
    "backing_ok (wst_backing s)" "wst_key_serde s = ks" "wst_value_serde s = vs"
proof -
  let ?sk = "sd_ser (window_key_serde ks) (wst_changelog_topic s)"
  have ok: "backing_ok (wst_backing s)" and
    t: "typed_as ?sk (window_valid vk sz) (sd_ser (window_value_serde vs) (wst_changelog_topic s)) (stamped_valid vv)
      (map_of (backing_scan_all (wst_backing s))) m"
    using h backing_scan_view(2) by (auto simp: kv_holds_def)
  have eq: "wst_key_serde s = ks" "wst_value_serde s = vs"
    using h window_key_serde_inj window_value_serde_inj by (auto simp: kv_holds_def)
  show thesis
    by (rule typed_list [OF t backing_scan_view(1) [OF ok] kv_serdes.key_inj [OF window_serdes [OF S]]])
       (assumption | rule that ok eq)+
qed

lemma wst_value_wrap:
  "serde_contract (wst_value_serde s) vv \<Longrightarrow> stamped_valid vv v \<Longrightarrow>
   wst_value s (sd_ser (window_value_serde (wst_value_serde s)) (wst_changelog_topic s) v) = Some v"
  by (cases v) (simp add: wst_value_def window_value_serde_def stamped_valid_def serde_contract.roundtrip)

lemma scan_entry_typed:
  assumes S: "serde_contract (wst_key_serde s) vk" "serde_contract (wst_value_serde s) vv"
    and v: "window_valid vk sz x" "stamped_valid vv y" and k: "vk k"
  shows "wst_scan_entry s (sd_ser (wst_key_serde s) (wst_changelog_topic s) k)
      (sd_ser (window_key_serde (wst_key_serde s)) (wst_changelog_topic s) x,
       sd_ser (window_value_serde (wst_value_serde s)) (wst_changelog_topic s) y) =
    Some (if fst x = k then [(snd x, y)] else [])"
proof -
  have "sd_ser (wst_key_serde s) (wst_changelog_topic s) (fst x) \<noteq> sd_ser (wst_key_serde s) (wst_changelog_topic s) k \<longleftrightarrow> fst x \<noteq> k"
    using serde_contract.ser_inj [OF S(1), of "fst x" k] v(1) k by (simp add: window_valid_def)
  moreover have "sd_ser (window_key_serde (wst_key_serde s)) (wst_changelog_topic s) x =
      store_key (sd_ser (wst_key_serde s) (wst_changelog_topic s) (fst x)) (snd x) 0"
    by (simp add: window_key_serde_def split_def)
  ultimately show ?thesis
    using v(1) wst_value_wrap [OF S(2) v(2)] by (cases y) (simp add: wst_scan_entry_def window_valid_def)
qed

lemma fetch_with_ts_holds:
  assumes S: "serde_contract ks vk" "serde_contract vs vv" and h: "window_holds ks vk vs vv sz s m d"
    and k: "vk k" and r: "0 \<le> from" "from \<le> to" "to < i64_max"
  shows "\<exists>rows. fetch_with_ts k from to s = Some rows \<and> sorted_wrt (<) (map fst rows) \<and>
    set rows = {(ws, ts, v). m (k, ws) = Some (ts, v) \<and> from \<le> ws \<and> ws \<le> to}"
proof -
  let ?t = "wst_changelog_topic s"
  let ?kb = "sd_ser ks ?t k"
  let ?sk = "sd_ser (window_key_serde ks) ?t" and ?sv = "sd_ser (window_value_serde vs) ?t"
  let ?lo = "store_key ?kb from 0" and ?hi = "store_key ?kb (sat_add to 1) 0"
  obtain L where L: "backing_scan_all (wst_backing s) = map (\<lambda>(k, v). (?sk k, ?sv v)) L"
    "\<And>k v. (k, v) \<in> set L \<longleftrightarrow> m k = Some v" "\<And>k v. (k, v) \<in> set L \<Longrightarrow> window_valid vk sz k \<and> stamped_valid vv v"
    "sorted_wrt (\<lambda>p q. ?sk (fst p) < ?sk (fst q)) L"
    and ok: "backing_ok (wst_backing s)" and eq: "wst_key_serde s = ks" "wst_value_serde s = vs"
    using window_holds_list [OF S h] by blast
  define L1 where "L1 = filter (\<lambda>(k, v). ?lo \<le> ?sk k \<and> ?sk k < ?hi) L"
  define rows where "rows = map (\<lambda>p. (snd (fst p), snd p)) (filter (\<lambda>p. fst (fst p) = k) L1)"
  have "sat_add to 1 = to + 1"
    using r by (simp add: sat_add_def in_i64_def)
  then have "?lo < ?hi"
    using r by (simp add: store_key_less_iff)
  then have range: "wb_range ?lo ?hi (wst_backing s) = Some (map (\<lambda>(k, v). (?sk k, ?sv v)) L1)"
    using backing_range_view [OF ok, of ?lo ?hi] by (simp add: wb_same L(1) bt_range_map L1_def)
  have "collect_opt (map (wst_scan_entry s ?kb) (map (\<lambda>(k, v). (?sk k, ?sv v)) L1)) =
      Some (map (\<lambda>(x, y). if fst x = k then [(snd x, y)] else []) L1)"
    using S eq scan_entry_typed [of s vk vv sz _ _ k] L(3) k by (intro collect_opt_typed) (auto simp: L1_def)
  then have fetch: "fetch_with_ts k from to s = Some rows"
    using range eq concat_map_filter [of "\<lambda>p. fst (fst p) = k" "\<lambda>p. (snd (fst p), snd p)" L1]
    by (simp add: fetch_with_ts_def rows_def split_def)
  have key: "?sk (k, ws) = store_key ?kb ws 0" for ws
    by (simp add: window_key_serde_def)
  have in_range: "?lo \<le> ?sk (k, ws) \<and> ?sk (k, ws) < ?hi \<longleftrightarrow> from \<le> ws \<and> ws \<le> to" if "in_i64 ws" for ws
    using store_key_in_range [of "from" "to" ws 0] r that by (simp add: key)
  have mem: "((k, ws), y) \<in> set L1 \<longleftrightarrow> m (k, ws) = Some y \<and> from \<le> ws \<and> ws \<le> to" for ws y
    using in_range [of ws] L(2) [of "(k, ws)" y] L(3) [of "(k, ws)" y] by (auto simp: L1_def window_valid_def)
  have "set rows = {(ws, ts, v). m (k, ws) = Some (ts, v) \<and> from \<le> ws \<and> ws \<le> to}"
    unfolding rows_def using mem by (force simp: image_iff)
  moreover have "sorted_wrt (<) (map fst rows)"
  proof -
    have srt: "sorted_wrt (\<lambda>p q. ?sk (fst p) < ?sk (fst q)) (filter (\<lambda>p. fst (fst p) = k) L1)"
      using L(4) unfolding L1_def by (intro sorted_wrt_filter)
    have mono: "snd (fst p) < snd (fst q)"
      if pq: "p \<in> set (filter (\<lambda>p. fst (fst p) = k) L1)" "q \<in> set (filter (\<lambda>p. fst (fst p) = k) L1)" and
        lt: "?sk (fst p) < ?sk (fst q)" for p q
    proof -
      obtain ws y ws' y' where p: "p = ((k, ws), y)" "q = ((k, ws'), y')" "((k, ws), y) \<in> set L1" "((k, ws'), y') \<in> set L1"
        by (cases p; cases q) (use pq in auto)
      then have "0 \<le> ws" "ws \<le> i64_max" "0 \<le> ws'" "ws' \<le> i64_max"
        using r mem by auto
      then show ?thesis
        using lt p(1,2) by (simp add: key store_key_less_iff)
    qed
    have "sorted_wrt (\<lambda>p q. snd (fst p) < snd (fst q)) (filter (\<lambda>p. fst (fst p) = k) L1)"
      by (rule sorted_wrt_mono_rel [OF mono srt])
    then show ?thesis
      by (simp add: rows_def sorted_wrt_map)
  qed
  ultimately show ?thesis
    using fetch by blast
qed

text \<open>C12: Range reads of a window store return exactly the windows of the interval, in order.  After any history
  of puts, point reads, flushes and drains on a fresh store, cached or not, \<^verbatim>\<open>fetch_with_ts(key, from, to)\<close> with
  \<open>0 \<le> from \<le> to < i64::MAX\<close> returns, by increasing window start, each window of that key with its latest value
  and record timestamp whose start lies in \<^verbatim>\<open>[from, to]\<close>, and no window of another key although the keys share
  byte prefixes; \<^verbatim>\<open>fetch\<close> returns the same without the timestamps.\<close>

theorem window_fetch_exact:
  assumes "serde_contract ks vk" "serde_contract vs vv" "distinct cs" "\<forall>oper \<in> set ops. window_op_ok vk vv sz oper"
    and "vk k" "0 \<le> from" "from \<le> to" "to < i64_max"
  shows "\<exists>log fw s rows. wst_run cs ops (wst_fresh cached name ks vs topic sz) =
      Some (fst (map_run (map kv_of ops) Map.empty), log, fw, s) \<and>
    fetch_with_ts k from to s = Some rows \<and> sorted_wrt (<) (map fst rows) \<and>
    set rows = {(ws, ts, v). snd (map_run (map kv_of ops) Map.empty) (k, ws) = Some (ts, v) \<and> from \<le> ws \<and> ws \<le> to} \<and>
    fetch k from to s = Some (map (\<lambda>(ws, ts, v). (ws, v)) rows)"
proof -
  obtain log fw s d where r: "wst_run cs ops (wst_fresh cached name ks vs topic sz) =
       Some (fst (map_run (map kv_of ops) Map.empty), log, map (windowed_forward sz) fw, s)"
    "window_holds ks vk vs vv sz s (snd (map_run (map kv_of ops) Map.empty)) d"
    by (rule wst_run_fresh [OF assms(1-4)])
  show ?thesis
    using r(1) fetch_with_ts_holds [OF assms(1,2) r(2) assms(5-8)] by (auto simp: fetch_def)
qed

abbreviation window_sample_ops :: "(string, int) window_op list" where
  "window_sample_ops \<equiv> [WPut ''a'' 20 7 25, WPut ''a'' 10 5 12, WPut ''ab'' 10 9 11, WFlush, WPut ''a'' 10 6 19, WFetch ''a'' 10]"

lemma window_sample_ok: "\<forall>oper \<in> set window_sample_ops. window_op_ok (\<lambda>s. utf8_valid (str_bytes s)) in_i64 10 oper"
  by (simp add: window_op_ok_def window_valid_def stamped_valid_def in_i64_def str_bytes_def)

lemma window_fetch_exact_witness:
  "\<exists>log fw s rows. wst_run [3] window_sample_ops (wst_fresh True ''w'' StringSerde I64Serde ''t'' 10) = Some ([Some (19, 6)], log, fw, s) \<and>
     fetch_with_ts ''a'' 10 15 s = Some rows \<and> set rows = {(10, 19, 6)}"
proof -
  have m: "fst (map_run (map kv_of window_sample_ops) Map.empty) = [Some (19, 6)]"
    "{(ws, ts, v). snd (map_run (map kv_of window_sample_ops) Map.empty) (''a'', ws) = Some (ts, v) \<and> 10 \<le> ws \<and> ws \<le> 15} = {(10, 19, 6)}"
    by (auto split: if_splits)
  have "utf8_valid (str_bytes ''a'')"
    by code_simp
  then show ?thesis
    using window_fetch_exact [OF string_serde.serde_contract_axioms i64_serde.serde_contract_axioms _ window_sample_ok,
        of "[3]" "''a''" 10 15 True "''w''" "''t''"] m by auto
qed

section \<open>Changelog and forwarded changes\<close>

definition wst_replay :: "(bytes \<times> bytes option) list \<Rightarrow> ('k, 'v) window_store \<Rightarrow> ('k, 'v) window_store" where
  "wst_replay log s = foldl (\<lambda>s (k, v). wst_apply_changelog k v s) s log"

lemma wst_replay_kv: "as_kv (wst_replay log s) = kv_replay log (as_kv s)"
  by (induction log arbitrary: s) (auto simp: wst_replay_def kv_replay_def wst_apply_changelog_def kv_apply_changelog_def wb_same)

text \<open>The table of windows: what a map from key and start to a timestamped value says about windowed keys.\<close>

definition window_table :: "int \<Rightarrow> ('k \<times> int \<Rightarrow> (int \<times> 'v) option) \<Rightarrow> 'k windowed \<Rightarrow> 'v option" where
  "window_table sz m w =
    (if w_end (wd_window w) = w_start (wd_window w) + sz then map_option snd (m (wd_key w, w_start (wd_window w))) else None)"

lemma window_table_empty: "window_table sz Map.empty = Map.empty"
  by (simp add: window_table_def fun_eq_iff)

lemma window_table_upd:
  "window_table sz (m((k, ws) := y)) =
   (window_table sz m)(\<lparr>wd_key = k, wd_window = \<lparr>w_start = ws, w_end = ws + sz\<rparr>\<rparr> := map_option snd y)"
proof
  fix w :: "'a windowed"
  obtain k' a b where w: "w = \<lparr>wd_key = k', wd_window = \<lparr>w_start = a, w_end = b\<rparr>\<rparr>"
    by (cases w; cases "wd_window w") auto
  show "window_table sz (m((k, ws) := y)) w =
   ((window_table sz m)(\<lparr>wd_key = k, wd_window = \<lparr>w_start = ws, w_end = ws + sz\<rparr>\<rparr> := map_option snd y)) w"
    by (auto simp: window_table_def w)
qed

lemma changes_to_Cons: "changes_to c ((ch, k, cg, ts) # fw) = (if ch = c then (k, cg) # changes_to c fw else changes_to c fw)"
  by (simp add: changes_to_def)

lemma apply_windowed:
  "apply_changes (changes_to c fw) m = Some m' \<Longrightarrow>
   apply_changes (changes_to c (map (windowed_forward sz) fw)) (window_table sz m) = Some (window_table sz m')"
proof (induction fw arbitrary: m)
  case (Cons f fw)
  obtain ch k ws cg ts where f: "f = (ch, (k, ws), cg, ts)"
    by (cases f) auto
  let ?w = "\<lparr>wd_key = k, wd_window = \<lparr>w_start = ws, w_end = ws + sz\<rparr>\<rparr>"
  have wf: "windowed_forward sz f = (ch, ?w, change_map snd cg, ts)"
    by (simp add: f windowed_forward_def)
  show ?case
  proof (cases "ch = c")
    case True
    then have old: "m (k, ws) = ch_old cg" and rest: "apply_changes (changes_to c fw) (m((k, ws) := ch_new cg)) = Some m'"
      using Cons.prems by (auto simp: f changes_to_Cons split: if_splits)
    have "window_table sz m ?w = ch_old (change_map snd cg)" "ch_new (change_map snd cg) = map_option snd (ch_new cg)"
      by (simp_all add: window_table_def old change_map_def)
    then show ?thesis
      using Cons.IH [OF rest, unfolded window_table_upd] True by (simp add: wf changes_to_Cons del: fun_upd_apply)
  next
    case False
    then show ?thesis
      using Cons by (simp add: f changes_to_Cons wf [unfolded f])
  qed
qed (simp add: changes_to_def)

lemma wst_run_flush:
  assumes "serde_contract ks vk" "serde_contract vs vv" "distinct cs" "\<forall>oper \<in> set ops. window_op_ok vk vv sz oper"
  obtains log fw s where
    "wst_run cs (ops @ [WFlush, WTake]) (wst_fresh cached name ks vs topic sz) =
       Some (fst (map_run (map kv_of ops) Map.empty), log, map (windowed_forward sz) fw, s)"
    "window_holds ks vk vs vv sz s (snd (map_run (map kv_of ops) Map.empty)) (snd (map_run (map kv_of ops) Map.empty))"
    "logs Map.empty log (backing_durable (wst_backing s))"
    "cached \<longrightarrow> (\<forall>c \<in> set cs. apply_changes (changes_to c fw) Map.empty = Some (snd (map_run (map kv_of ops) Map.empty)))"
proof -
  let ?s = "wst_fresh cached name ks vs topic sz" and ?m = "snd (map_run (map kv_of ops) Map.empty)"
  have v: "\<forall>oper \<in> set (map kv_of ops). op_valid (window_valid vk sz) (stamped_valid vv) oper"
    using assms(4) by (simp add: window_op_ok_def)
  obtain log fw sk where r: "kv_run cs (map kv_of (ops @ [WFlush, WTake])) (as_kv ?s) = Some (fst (map_run (map kv_of ops) Map.empty), log, fw, sk)"
    "kv_holds (window_key_serde ks) (window_valid vk sz) (window_value_serde vs) (stamped_valid vv) sk ?m ?m"
    "logs Map.empty log (backing_durable (kv_backing sk))"
    "cached \<longrightarrow> (\<forall>c \<in> set cs. apply_changes (changes_to c fw) Map.empty = Some ?m)"
    using kv_serdes.holds_run_flush [OF window_serdes [OF assms(1,2)] v assms(3), of cached name topic] by auto
  have "window_holds ks vk vs vv (wst_window_size ?s) ?s Map.empty Map.empty"
    using kv_fresh_holds by simp
  then obtain s where "wst_run cs (ops @ [WFlush, WTake]) ?s =
      Some (fst (map_run (map kv_of ops) Map.empty), log, map (windowed_forward (wst_window_size ?s)) fw, s)" "as_kv s = sk"
    using wst_run_kv [OF assms(1-3) _ _ r(1)] assms(4) by (auto simp: window_op_ok_def)
  then show thesis
    using that [of log fw s] r(2-4) by auto
qed

text \<open>C13: The window store's changelog rebuilds it.  After any history that ends with a flush and a drain, replaying
  the drained records into a fresh store gives the same windows with the same values and record timestamps,
  whether either store is cached or not.\<close>

theorem window_changelog_rebuilds_store:
  assumes "serde_contract ks vk" "serde_contract vs vv" "distinct cs" "\<forall>oper \<in> set ops. window_op_ok vk vv sz oper"
  shows "\<exists>r log fw s. wst_run cs (ops @ [WFlush, WTake]) (wst_fresh cached name ks vs topic sz) = Some (r, log, fw, s) \<and>
    backing_view (wst_backing (wst_replay log (wst_fresh cached' name ks vs topic sz))) = backing_view (wst_backing s)"
proof -
  obtain log fw s where r: "wst_run cs (ops @ [WFlush, WTake]) (wst_fresh cached name ks vs topic sz) =
       Some (fst (map_run (map kv_of ops) Map.empty), log, map (windowed_forward sz) fw, s)"
    "window_holds ks vk vs vv sz s (snd (map_run (map kv_of ops) Map.empty)) (snd (map_run (map kv_of ops) Map.empty))"
    "logs Map.empty log (backing_durable (wst_backing s))"
    by (rule wst_run_flush [OF assms])
  have "backing_view (wst_backing s) = backing_durable (wst_backing s)"
    using r(2) typed_as_unique unfolding kv_holds_def as_kv_fields by blast
  moreover have "backing_view (wst_backing (wst_replay log (wst_fresh cached' name ks vs topic sz))) = backing_durable (wst_backing s)"
    using kv_replay_fresh [OF r(3)] wst_replay_kv [of log "wst_fresh cached' name ks vs topic sz"]
    by (metis as_kv_fields(1) wst_fresh_kv(1))
  ultimately show ?thesis
    using r(1) by auto
qed

lemma window_changelog_rebuilds_store_witness:
  "\<exists>r log fw s. wst_run [3] (window_sample_ops @ [WFlush, WTake]) (wst_fresh True ''w'' StringSerde I64Serde ''t'' 10) = Some (r, log, fw, s) \<and>
    backing_view (wst_backing (wst_replay log (wst_fresh False ''w'' StringSerde I64Serde ''t'' 10))) = backing_view (wst_backing s)"
  by (rule window_changelog_rebuilds_store [OF string_serde.serde_contract_axioms i64_serde.serde_contract_axioms _ window_sample_ok]) simp

text \<open>C14: A cached window store forwards a consistent windowed table.  The changes sent to a child carry windowed keys
  whose end is the start plus the window size; each change's old value is what the earlier ones left, and after the
  final flush they add up to the table of all windows stored.\<close>

theorem window_forwarded_changes_consistent:
  assumes "serde_contract ks vk" "serde_contract vs vv" "distinct cs" "\<forall>oper \<in> set ops. window_op_ok vk vv sz oper" "c \<in> set cs"
  shows "\<exists>r log fw s. wst_run cs (ops @ [WFlush, WTake]) (wst_fresh True name ks vs topic sz) = Some (r, log, fw, s) \<and>
    apply_changes (changes_to c fw) Map.empty = Some (window_table sz (snd (map_run (map kv_of ops) Map.empty)))"
proof -
  obtain log fw s where r: "wst_run cs (ops @ [WFlush, WTake]) (wst_fresh True name ks vs topic sz) =
       Some (fst (map_run (map kv_of ops) Map.empty), log, map (windowed_forward sz) fw, s)"
    "apply_changes (changes_to c fw) Map.empty = Some (snd (map_run (map kv_of ops) Map.empty))"
    using wst_run_flush [OF assms(1-4), of True name topic] assms(5) by metis
  show ?thesis
    using r(1) apply_windowed [OF r(2), of sz] by (auto simp: window_table_empty)
qed

lemma window_forwarded_changes_consistent_witness:
  "\<exists>r log fw s. wst_run [3] (window_sample_ops @ [WFlush, WTake]) (wst_fresh True ''w'' StringSerde I64Serde ''t'' 10) = Some (r, log, fw, s) \<and>
    apply_changes (changes_to 3 fw) Map.empty = Some (window_table 10 (snd (map_run (map kv_of window_sample_ops) Map.empty)))"
  by (rule window_forwarded_changes_consistent [OF string_serde.serde_contract_axioms i64_serde.serde_contract_axioms _ window_sample_ok]) simp_all

end
