(* ===== verification/Session_Store.thy ===== *)
theory Session_Store
  imports Window_Store
begin

text \<open>
  \<^verbatim>\<open>store/session.rs\<close>: the typed session store \<^verbatim>\<open>SessionBytesStore\<close>.  A session is stored under
  \<open>session_key\<close>, which carries the key, the end and the start; the value is the serialized aggregate.

  As for the window store, panics are \<^term>\<open>None\<close>, and the store is compared with the key-value store over a
  composite key serde.  \<^verbatim>\<open>remove\<close> does not read the old value, so it is related to the map
  directly.  The lemmas show that the store is a map from (key, start, end) to values, that
  \<^verbatim>\<open>find_sessions\<close> returns exactly the sessions overlapping the asked interval in (end, start) order, that the
  changelog rebuilds the store and that flushes forward a consistent update stream.
\<close>

section \<open>Backing\<close>

fun sb_range :: "bytes \<Rightarrow> bytes \<Rightarrow> backing \<Rightarrow> entries option" where
  "sb_range lo hi (Plain b) = Some (imb_range lo hi b)"
| "sb_range lo hi (Cached c) = cs_range lo hi c"

fun sb_scan_all :: "backing \<Rightarrow> entries" where
  "sb_scan_all (Plain b) = imb_scan_all b"
| "sb_scan_all (Cached c) = cs_scan_all c"

fun sb_put :: "bytes \<Rightarrow> bytes \<Rightarrow> record_context \<Rightarrow> backing \<Rightarrow> backing" where
  "sb_put key value ctx (Plain b) = Plain (imb_put key value b)"
| "sb_put key value ctx (Cached c) = Cached (cs_put key value ctx c)"

fun sb_remove :: "bytes \<Rightarrow> record_context \<Rightarrow> backing \<Rightarrow> backing" where
  "sb_remove key ctx (Plain b) = Plain (snd (imb_delete key b))"
| "sb_remove key ctx (Cached c) = Cached (cs_remove key ctx c)"

fun sb_apply :: "bytes \<Rightarrow> bytes option \<Rightarrow> backing \<Rightarrow> backing" where
  "sb_apply key (Some v) (Plain b) = Plain (imb_put key v b)"
| "sb_apply key None (Plain b) = Plain (snd (imb_delete key b))"
| "sb_apply key (Some v) (Cached c) = Cached (cs_put_inner key v c)"
| "sb_apply key None (Cached c) = Cached (cs_delete_inner key c)"

fun sb_clear :: "backing \<Rightarrow> backing" where
  "sb_clear (Plain b) = Plain (imb_clear b)"
| "sb_clear (Cached c) = Cached (cs_clear c)"

definition sb_snapshot :: "backing \<Rightarrow> bytes option" where
  "sb_snapshot b = encode_byte_entries (sb_scan_all b)"

definition sb_restore :: "bytes \<Rightarrow> backing \<Rightarrow> backing result" where
  "sb_restore data b =
    (case decode_byte_entries data of
       Inl e \<Rightarrow> Inl e
     | Inr entries \<Rightarrow> Inr (foldl (\<lambda>b (key, value). sb_apply key (Some value) b) (sb_clear b) entries))"

section \<open>SessionBytesStore\<close>

record ('k, 'v) session_store =
  sst_name :: string
  sst_changelog_topic :: string
  sst_backing :: backing
  sst_key_serde :: "'k serde"
  sst_value_serde :: "'v serde"
  sst_changelog :: "(bytes \<times> bytes option) list"
  sst_logging :: bool
  sst_pending_ctx :: "record_context option"

definition sst_new ::
  "string \<Rightarrow> in_memory_bytes \<Rightarrow> 'k serde \<Rightarrow> 'v serde \<Rightarrow> string \<Rightarrow> ('k, 'v) session_store" where
  "sst_new name backend key_serde value_serde changelog_topic =
    \<lparr>sst_name = name, sst_changelog_topic = changelog_topic, sst_backing = Plain backend,
     sst_key_serde = key_serde, sst_value_serde = value_serde, sst_changelog = [], sst_logging = True,
     sst_pending_ctx = None\<rparr>"

definition sst_in_memory :: "string \<Rightarrow> 'k serde \<Rightarrow> 'v serde \<Rightarrow> string \<Rightarrow> ('k, 'v) session_store" where
  "sst_in_memory name key_serde value_serde changelog_topic =
     sst_new name imb_new key_serde value_serde changelog_topic"

definition sst_enable_cache :: "named_cache \<Rightarrow> ('k, 'v) session_store \<Rightarrow> ('k, 'v) session_store" where
  "sst_enable_cache cache s =
    (case sst_backing s of
       Plain backend \<Rightarrow> s\<lparr>sst_backing := Cached (ck_with_name cache backend (sst_name s))\<rparr>
     | Cached _ \<Rightarrow> s)"

definition sst_is_cached :: "('k, 'v) session_store \<Rightarrow> bool" where
  "sst_is_cached s = (case sst_backing s of Cached _ \<Rightarrow> True | Plain _ \<Rightarrow> False)"

definition sst_write_ctx :: "('k, 'v) session_store \<Rightarrow> record_context" where
  "sst_write_ctx s =
    (case sst_pending_ctx s of
       Some ctx \<Rightarrow> ctx
     | None \<Rightarrow> \<lparr>rc_topic = sst_changelog_topic s, rc_partition = 0, rc_offset = 0, rc_timestamp = 0\<rparr>)"

definition sst_take_changelog :: "('k, 'v) session_store \<Rightarrow> (bytes \<times> bytes option) list \<times> ('k, 'v) session_store" where
  "sst_take_changelog s = (sst_changelog s, s\<lparr>sst_changelog := []\<rparr>)"

definition sst_apply_changelog :: "bytes \<Rightarrow> bytes option \<Rightarrow> ('k, 'v) session_store \<Rightarrow> ('k, 'v) session_store" where
  "sst_apply_changelog key value s = s\<lparr>sst_backing := sb_apply key value (sst_backing s)\<rparr>"

definition sst_set_logging :: "bool \<Rightarrow> ('k, 'v) session_store \<Rightarrow> ('k, 'v) session_store" where
  "sst_set_logging on s = s\<lparr>sst_logging := on\<rparr>"

definition sst_set_record_context :: "record_context \<Rightarrow> ('k, 'v) session_store \<Rightarrow> ('k, 'v) session_store" where
  "sst_set_record_context ctx s = s\<lparr>sst_pending_ctx := Some ctx\<rparr>"

definition sst_forward :: "('k, 'v) session_store \<Rightarrow> flushed \<Rightarrow> nat \<Rightarrow> ('k windowed, 'v) forwarded option" where
  "sst_forward s fl child =
    (case fl of (sk, old_vb, new_vb, ctx) \<Rightarrow>
      do { session_start \<leftarrow> session_start_of sk;
           session_end \<leftarrow> session_end_of sk;
           key_bytes \<leftarrow> session_key_bytes_of sk;
           key \<leftarrow> sd_de (sst_key_serde s) (sst_changelog_topic s) key_bytes;
           old \<leftarrow> de_opt (sst_value_serde s) (sst_changelog_topic s) old_vb;
           new \<leftarrow> de_opt (sst_value_serde s) (sst_changelog_topic s) new_vb;
           Some (child, \<lparr>wd_key = key, wd_window = \<lparr>w_start = session_start, w_end = session_end\<rparr>\<rparr>,
                 \<lparr>ch_old = old, ch_new = new\<rparr>, rc_timestamp ctx) })"

definition sst_flush_cache_into ::
  "nat list \<Rightarrow> ('k, 'v) session_store \<Rightarrow> (('k windowed, 'v) forwarded list \<times> ('k, 'v) session_store) option" where
  "sst_flush_cache_into children s =
    (case sst_backing s of
       Plain _ \<Rightarrow> Some ([], s)
     | Cached cache \<Rightarrow>
        let (drained, cache') = cs_flush_with_old cache;
            log = (if sst_logging s then map (\<lambda>(sk, _, new_vb, _). (sk, new_vb)) drained else [])
        in do { _ \<leftarrow> collect_opt (map (\<lambda>(sk, _).
                  do { _ \<leftarrow> session_start_of sk; _ \<leftarrow> session_end_of sk; session_key_bytes_of sk }) drained);
                pushed \<leftarrow> collect_opt (concat (map (\<lambda>fl. map (sst_forward s fl) children) drained));
                Some (pushed, s\<lparr>sst_backing := Cached cache', sst_changelog := sst_changelog s @ log\<rparr>) })"

definition sst_clear :: "('k, 'v) session_store \<Rightarrow> ('k, 'v) session_store" where
  "sst_clear s = s\<lparr>sst_backing := sb_clear (sst_backing s), sst_changelog := []\<rparr>"

definition sst_snapshot :: "('k, 'v) session_store \<Rightarrow> bytes option" where
  "sst_snapshot s = sb_snapshot (sst_backing s)"

definition sst_restore_snapshot :: "bytes \<Rightarrow> ('k, 'v) session_store \<Rightarrow> ('k, 'v) session_store result" where
  "sst_restore_snapshot data s =
    (case sb_restore data (sst_backing s) of
       Inl e \<Rightarrow> Inl e
     | Inr b \<Rightarrow> Inr (s\<lparr>sst_backing := b, sst_changelog := []\<rparr>))"

definition iq_session_fetch_key :: "bytes \<Rightarrow> ('k, 'v) session_store \<Rightarrow> ((int \<times> int) \<times> bytes) list option" where
  "iq_session_fetch_key key s =
    do { es \<leftarrow> sb_range (session_key key 0 0) (session_key key i64_max i64_max) (sst_backing s);
         map_option concat (collect_opt (map (\<lambda>(k, raw).
           do { kb \<leftarrow> session_key_bytes_of k;
                (if kb \<noteq> key then Some []
                 else do { st \<leftarrow> session_start_of k; en \<leftarrow> session_end_of k; Some [((st, en), raw)] }) }) es)) }"

definition find_entry :: "('k, 'v) session_store \<Rightarrow> bytes \<Rightarrow> int \<Rightarrow> int \<Rightarrow> bytes \<times> bytes \<Rightarrow> (int \<times> int \<times> 'v) list option" where
  "find_entry s kb earliest_end latest_start kv =
    (case kv of (k, raw) \<Rightarrow>
      do { kb' \<leftarrow> session_key_bytes_of k;
           (if kb' \<noteq> kb then Some []
            else do { en \<leftarrow> session_end_of k;
                      st \<leftarrow> session_start_of k;
                      (if earliest_end \<le> en \<and> st \<le> latest_start
                       then do { v \<leftarrow> sd_de (sst_value_serde s) (sst_changelog_topic s) raw; Some [(st, en, v)] }
                       else Some []) }) })"

definition find_sessions :: "'k \<Rightarrow> int \<Rightarrow> int \<Rightarrow> ('k, 'v) session_store \<Rightarrow> (int \<times> int \<times> 'v) list option" where
  "find_sessions key earliest_end latest_start s =
    (let kb = sd_ser (sst_key_serde s) (sst_changelog_topic s) key;
         lo = session_key kb 0 (max earliest_end 0);
         hi = session_key kb i64_max i64_max
     in do { es \<leftarrow> sb_range lo hi (sst_backing s);
             map_option concat (collect_opt (map (find_entry s kb earliest_end latest_start) es)) })"

definition sst_put :: "'k \<Rightarrow> int \<Rightarrow> int \<Rightarrow> 'v \<Rightarrow> ('k, 'v) session_store \<Rightarrow> ('k, 'v) session_store" where
  "sst_put key st en value s =
    (let kb = sd_ser (sst_key_serde s) (sst_changelog_topic s) key;
         sk = session_key kb st en;
         raw = sd_ser (sst_value_serde s) (sst_changelog_topic s) value
     in case sst_backing s of
          Plain _ \<Rightarrow>
            let s' = s\<lparr>sst_backing := sb_put sk raw (sst_write_ctx s) (sst_backing s)\<rparr>
            in if sst_logging s then s'\<lparr>sst_changelog := sst_changelog s' @ [(sk, Some raw)]\<rparr> else s'
        | Cached _ \<Rightarrow> s\<lparr>sst_backing := sb_put sk raw (sst_write_ctx s) (sst_backing s)\<rparr>)"

definition sst_remove :: "'k \<Rightarrow> int \<Rightarrow> int \<Rightarrow> ('k, 'v) session_store \<Rightarrow> ('k, 'v) session_store" where
  "sst_remove key st en s =
    (let kb = sd_ser (sst_key_serde s) (sst_changelog_topic s) key;
         sk = session_key kb st en;
         cached = sst_is_cached s;
         s' = s\<lparr>sst_backing := sb_remove sk (sst_write_ctx s) (sst_backing s)\<rparr>
     in if sst_logging s' \<and> \<not> cached then s'\<lparr>sst_changelog := sst_changelog s' @ [(sk, None)]\<rparr> else s')"

definition closed_entry :: "('k, 'v) session_store \<Rightarrow> int \<Rightarrow> bytes \<times> bytes \<Rightarrow> ('k \<times> int \<times> int \<times> 'v) list option" where
  "closed_entry s close_time kv =
    (case kv of (k, raw) \<Rightarrow>
      do { en \<leftarrow> session_end_of k;
           (if close_time < en then Some []
            else do { kb \<leftarrow> session_key_bytes_of k;
                      key \<leftarrow> sd_de (sst_key_serde s) (sst_changelog_topic s) kb;
                      v \<leftarrow> sd_de (sst_value_serde s) (sst_changelog_topic s) raw;
                      st \<leftarrow> session_start_of k;
                      Some [(key, st, en, v)] }) })"

definition find_closed_sessions :: "int \<Rightarrow> ('k, 'v) session_store \<Rightarrow> ('k \<times> int \<times> int \<times> 'v) list option" where
  "find_closed_sessions close_time s =
     map_option concat (collect_opt (map (closed_entry s close_time) (sb_scan_all (sst_backing s))))"

section \<open>The session store as a key-value store\<close>

lemma sb_same:
  "sb_range = backing_range" "sb_scan_all = backing_scan_all" "sb_put = backing_put"
  "sb_apply = backing_apply" "sb_clear = backing_clear"
proof -
  show "sb_range = backing_range"
    by (rule ext, rule ext, rule ext, rename_tac l h b, case_tac b) (simp_all add: caching_same)
  show "sb_scan_all = backing_scan_all" "sb_clear = backing_clear"
    by (rule ext, rename_tac b, case_tac b, simp_all add: caching_same)+
  show "sb_put = backing_put"
    by (rule ext, rule ext, rule ext, rule ext, rename_tac k v c b, case_tac b) (simp_all add: caching_same)
  show "sb_apply = backing_apply"
    by (rule ext, rule ext, rule ext, rename_tac k v b, case_tac b; case_tac v) (simp_all add: caching_same)
qed

lemma sb_remove_view:
  assumes "backing_ok b"
  shows "backing_ok (sb_remove k ctx b)" "backing_view (sb_remove k ctx b) = (backing_view b)(k := None)"
    "cached_keys (sb_remove k ctx b) \<subseteq> insert k (cached_keys b)"
    "backing_durable (sb_remove k ctx b) = (case b of Plain i \<Rightarrow> (backing_durable b)(k := None) | Cached c \<Rightarrow> backing_durable b)"
proof -
  show "backing_ok (sb_remove k ctx b)" "backing_view (sb_remove k ctx b) = (backing_view b)(k := None)"
    using assms by (cases b; simp add: imb.inv_del imb.get_del caching_same ck_put_ok)+
  show "cached_keys (sb_remove k ctx b) \<subseteq> insert k (cached_keys b)"
    using assms by (cases b) (auto simp: caching_same ck_delete_def nc_delete_def nc_get_put ck_ok_def)
  show "backing_durable (sb_remove k ctx b) = (case b of Plain i \<Rightarrow> (backing_durable b)(k := None) | Cached c \<Rightarrow> backing_durable b)"
    using assms by (cases b) (simp_all add: caching_same ck_delete_def imb.get_del)
qed

definition session_key_serde :: "'k serde \<Rightarrow> ('k \<times> int \<times> int) serde" where
  "session_key_serde ks =
    \<lparr>sd_ser = (\<lambda>t (k, st, en). session_key (sd_ser ks t k) st en),
     sd_de = (\<lambda>t bs. do { st \<leftarrow> session_start_of bs; en \<leftarrow> session_end_of bs; kb \<leftarrow> session_key_bytes_of bs;
                         k \<leftarrow> sd_de ks t kb; Some (k, st, en) })\<rparr>"

text \<open>Sessions are bounded by observed record timestamps.\<close>

definition session_valid :: "('k \<Rightarrow> bool) \<Rightarrow> 'k \<times> int \<times> int \<Rightarrow> bool" where
  "session_valid vk x \<longleftrightarrow> vk (fst x) \<and> 0 \<le> fst (snd x) \<and> fst (snd x) \<le> snd (snd x) \<and> snd (snd x) < i64_max"

lemma session_valid_i64: "session_valid vk (k, st, en) \<Longrightarrow> in_i64 st \<and> in_i64 en"
  by (auto simp: session_valid_def in_i64_def)

lemma session_serdes:
  assumes "serde_contract ks vk" "serde_contract vs vv"
  shows "kv_serdes (session_key_serde ks) (session_valid vk) vs vv"
proof (intro kv_serdes.intro)
  show "serde_contract (session_key_serde ks) (session_valid vk)"
    by unfold_locales
       (auto simp: session_key_serde_def session_valid_def in_i64_def serde_contract.roundtrip [OF assms(1)])
qed (rule assms(2))

interpretation session_string_i64: kv_serdes "session_key_serde StringSerde"
    "session_valid (\<lambda>s. utf8_valid (str_bytes s))" I64Serde in_i64
  by (rule session_serdes [OF string_serde.serde_contract_axioms i64_serde.serde_contract_axioms])

definition sst_kv :: "('k, 'v) session_store \<Rightarrow> ('k \<times> int \<times> int, 'v) kv_store" where
  "sst_kv s =
    \<lparr>kv_name = sst_name s, kv_changelog_topic = sst_changelog_topic s, kv_backing = sst_backing s,
     kv_key_serde = session_key_serde (sst_key_serde s), kv_value_serde = sst_value_serde s,
     kv_changelog = sst_changelog s, kv_logging = sst_logging s, kv_pending_ctx = sst_pending_ctx s\<rparr>"

lemma sst_kv_fields [simp]:
  "kv_backing (sst_kv s) = sst_backing s" "kv_changelog_topic (sst_kv s) = sst_changelog_topic s"
  "kv_changelog (sst_kv s) = sst_changelog s" "kv_logging (sst_kv s) = sst_logging s"
  "kv_key_serde (sst_kv s) = session_key_serde (sst_key_serde s)"
  "kv_value_serde (sst_kv s) = sst_value_serde s" "kv_is_cached (sst_kv s) = sst_is_cached s"
  by (simp_all add: sst_kv_def kv_is_cached_def sst_is_cached_def)

lemma sst_kv_update [simp]:
  "(sst_kv s)\<lparr>kv_backing := b\<rparr> = sst_kv (s\<lparr>sst_backing := b\<rparr>)"
  "(sst_kv s)\<lparr>kv_changelog := l\<rparr> = sst_kv (s\<lparr>sst_changelog := l\<rparr>)"
  "(sst_kv s)\<lparr>kv_pending_ctx := c\<rparr> = sst_kv (s\<lparr>sst_pending_ctx := c\<rparr>)"
  by (simp_all add: sst_kv_def)

lemma sst_write_ctx_kv [simp]: "kv_write_ctx (sst_kv s) = sst_write_ctx s"
  by (simp add: kv_write_ctx_def sst_write_ctx_def sst_kv_def split: option.splits)

lemma sst_put_kv: "sst_kv (sst_put k st en v s) = kv_put (k, st, en) v (sst_kv s)"
  by (simp add: sst_put_def kv_put_def Let_def sb_same session_key_serde_def split: backing.splits)

definition session_forward :: "('k \<times> int \<times> int, 'v) forwarded \<Rightarrow> ('k windowed, 'v) forwarded" where
  "session_forward f =
    (case f of (child, (k, st, en), ch, ts) \<Rightarrow> (child, \<lparr>wd_key = k, wd_window = \<lparr>w_start = st, w_end = en\<rparr>\<rparr>, ch, ts))"

lemma sst_forward_kv:
  assumes "kv_forward (sst_kv s) fl child = Some f"
  shows "sst_forward s fl child = Some (session_forward f)"
proof -
  obtain sk old new ctx where fl: "fl = (sk, old, new, ctx)"
    by (cases fl) auto
  show ?thesis
    using assms unfolding fl
    by (auto simp: kv_forward_def sst_forward_def session_forward_def session_key_serde_def bind_eq_Some_conv)
qed

abbreviation session_holds where
  "session_holds ks vk vs vv s m d \<equiv> kv_holds (session_key_serde ks) (session_valid vk) vs vv (sst_kv s) m d"

lemma sst_flush_kv:
  assumes h: "session_holds ks vk vs vv s m d" and fl: "kv_flush_cache_into cs (sst_kv s) = Some (fw, sk)"
  shows "\<exists>s'. sst_flush_cache_into cs s = Some (map session_forward fw, s') \<and> sst_kv s' = sk"
proof (cases "sst_backing s")
  case (Plain b)
  then show ?thesis
    using fl by (auto simp: kv_flush_cache_into_def sst_flush_cache_into_def)
next
  case (Cached c)
  obtain drained c' where d: "ck_flush_with_old c = (drained, c')"
    by force
  have okc: "ck_ok c" "nc_ok (cs_cache c)" and
    keys: "\<forall>kb \<in> cached_keys (sst_backing s). \<exists>x. session_valid vk x \<and> kb = sd_ser (session_key_serde ks) (sst_changelog_topic s) x"
    using h Cached by (auto simp: ck_ok_def kv_holds_def)
  have dec: "collect_opt (map (\<lambda>(k, _). do { _ \<leftarrow> session_start_of k; _ \<leftarrow> session_end_of k; session_key_bytes_of k }) drained) =
      Some (map (\<lambda>x. the (session_key_bytes_of (fst x))) drained)"
  proof (rule collect_opt_map_Some)
    fix x
    assume "x \<in> set drained"
    then have "fst x \<in> set (map snd (nc_dirty (cs_cache c)))"
      using ck_flush_with_old_eq [OF okc(1)] d by force
    then have "fst x \<in> cached_keys (sst_backing s)"
      using dirty_keys(2) [OF okc(2)] Cached by auto
    then obtain k st en where "in_i64 st" "in_i64 en" "fst x = session_key (sd_ser ks (sst_changelog_topic s) k) st en"
      using keys session_valid_i64 by (fastforce simp: session_key_serde_def)
    then show "(case x of (k, _) \<Rightarrow> do { _ \<leftarrow> session_start_of k; _ \<leftarrow> session_end_of k; session_key_bytes_of k }) =
        Some (the (session_key_bytes_of (fst x)))"
      by (cases x) simp
  qed
  have coll: "collect_opt (concat (map (\<lambda>fl. map (kv_forward (sst_kv s) fl) cs) drained)) = Some fw"
    and sk: "sk = (sst_kv s)\<lparr>kv_backing := Cached c', kv_changelog := sst_changelog s @
        (if sst_logging s then map (\<lambda>(kb, _, new_vb, _). (kb, new_vb)) drained else [])\<rparr>"
    using fl Cached d by (auto simp: kv_flush_cache_into_def bind_eq_Some_conv)
  have "collect_opt (concat (map (\<lambda>fl. map (sst_forward s fl) cs) drained)) = Some (map session_forward fw)"
    using coll sst_forward_kv [of s] unfolding concat_map_product
    by (intro collect_opt_rel [where P = "\<lambda>_. True"]) auto
  then show ?thesis
    using Cached d dec by (simp add: sst_flush_cache_into_def caching_same sk)
qed

section \<open>Histories\<close>

datatype ('k, 'v) session_op =
    SPut 'k int int 'v
  | SRemove 'k int int
  | SContext record_context
  | SFlush
  | STake

fun sst_step :: "nat list \<Rightarrow> ('k, 'v) session_op \<Rightarrow> ('k, 'v) session_store \<Rightarrow>
    ((bytes \<times> bytes option) list \<times> ('k windowed, 'v) forwarded list \<times> ('k, 'v) session_store) option" where
  "sst_step cs (SPut k st en v) s = Some ([], [], sst_put k st en v s)"
| "sst_step cs (SRemove k st en) s = Some ([], [], sst_remove k st en s)"
| "sst_step cs (SContext ctx) s = Some ([], [], sst_set_record_context ctx s)"
| "sst_step cs SFlush s = map_option (\<lambda>(fw, s'). ([], fw, s')) (sst_flush_cache_into cs s)"
| "sst_step cs STake s = (let (log, s') = sst_take_changelog s in Some (log, [], s'))"

fun sst_run :: "nat list \<Rightarrow> ('k, 'v) session_op list \<Rightarrow> ('k, 'v) session_store \<Rightarrow>
    ((bytes \<times> bytes option) list \<times> ('k windowed, 'v) forwarded list \<times> ('k, 'v) session_store) option" where
  "sst_run cs [] s = Some ([], [], s)"
| "sst_run cs (oper # ops) s =
    do { (log, fw, s') \<leftarrow> sst_step cs oper s;
         (log', fw', s'') \<leftarrow> sst_run cs ops s';
         Some (log @ log', fw @ fw', s'') }"

text \<open>The specification: a map from key and bounds to the aggregate.\<close>

fun sessions_step :: "('k, 'v) session_op \<Rightarrow> ('k \<times> int \<times> int \<Rightarrow> 'v option) \<Rightarrow> 'k \<times> int \<times> int \<Rightarrow> 'v option" where
  "sessions_step (SPut k st en v) m = m((k, st, en) \<mapsto> v)"
| "sessions_step (SRemove k st en) m = m((k, st, en) := None)"
| "sessions_step (SContext _) m = m"
| "sessions_step SFlush m = m"
| "sessions_step STake m = m"

definition sessions_after :: "('k, 'v) session_op list \<Rightarrow> 'k \<times> int \<times> int \<Rightarrow> 'v option" where
  "sessions_after ops = foldl (\<lambda>m oper. sessions_step oper m) Map.empty ops"

fun session_op_ok :: "('k \<Rightarrow> bool) \<Rightarrow> ('v \<Rightarrow> bool) \<Rightarrow> ('k, 'v) session_op \<Rightarrow> bool" where
  "session_op_ok vk vv (SPut k st en v) = (session_valid vk (k, st, en) \<and> vv v)"
| "session_op_ok vk vv (SRemove k st en) = session_valid vk (k, st, en)"
| "session_op_ok vk vv _ = True"

text \<open>What a step does to the part below the cache: the changelog and the forwarded changes describe it.\<close>

definition advances :: "nat list \<Rightarrow> ('k, 'v) session_store \<Rightarrow> ('k \<times> int \<times> int \<Rightarrow> 'v option) \<Rightarrow> (bytes \<times> bytes option) list \<Rightarrow>
    ('k \<times> int \<times> int, 'v) forwarded list \<Rightarrow> ('k, 'v) session_store \<Rightarrow> ('k \<times> int \<times> int \<Rightarrow> 'v option) \<Rightarrow> bool" where
  "advances cs s d log fw s' d' \<longleftrightarrow>
     sst_logging s' = sst_logging s \<and> sst_is_cached s' = sst_is_cached s \<and>
     (\<forall>base pre. sst_logging s \<longrightarrow> logs base (pre @ sst_changelog s) (backing_durable (sst_backing s)) \<longrightarrow>
        logs base (pre @ log @ sst_changelog s') (backing_durable (sst_backing s'))) \<and>
     (sst_is_cached s \<longrightarrow> (\<forall>c \<in> set cs. apply_changes (changes_to c fw) d = Some d'))"

lemma advances_trans:
  assumes "advances cs s d log fw s1 d1" "advances cs s1 d1 log' fw' s2 d2"
  shows "advances cs s d (log @ log') (fw @ fw') s2 d2"
  unfolding advances_def
proof (intro conjI allI impI ballI)
  fix base pre
  assume "sst_logging s" "logs base (pre @ sst_changelog s) (backing_durable (sst_backing s))"
  then have "logs base ((pre @ log) @ log' @ sst_changelog s2) (backing_durable (sst_backing s2))"
    using assms unfolding advances_def by (metis append_assoc)
  then show "logs base (pre @ (log @ log') @ sst_changelog s2) (backing_durable (sst_backing s2))"
    by simp
next
  fix c
  assume "sst_is_cached s" "c \<in> set cs"
  then show "apply_changes (changes_to c (fw @ fw')) d = Some d2"
    using assms by (simp add: advances_def apply_changes_append)
qed (use assms in \<open>simp_all add: advances_def\<close>)

lemma advances_write:
  assumes "sst_changelog s' = sst_changelog s @ log" "sst_logging s' = sst_logging s" "sst_is_cached s' = sst_is_cached s"
    "sst_logging s \<longrightarrow> logs (backing_durable (sst_backing s)) log (backing_durable (sst_backing s'))"
    "sst_is_cached s \<longrightarrow> d' = d"
  shows "advances cs s d [] [] s' d'"
  using assms logs_append unfolding advances_def by (fastforce simp flip: append_assoc)

lemma session_step_ok:
  assumes S: "serde_contract ks vk" "serde_contract vs vv" and cs: "distinct cs"
    and h: "session_holds ks vk vs vv s m d" and ok: "session_op_ok vk vv oper"
  shows "\<exists>log fw s' d'. sst_step cs oper s = Some (log, map session_forward fw, s') \<and>
    session_holds ks vk vs vv s' (sessions_step oper m) d' \<and> advances cs s d log fw s' d' \<and>
    (oper = SFlush \<longrightarrow> d' = m)"
proof (cases oper)
  case (SPut k st en v)
  obtain d' log where p: "session_holds ks vk vs vv (sst_put k st en v s) (m((k, st, en) \<mapsto> v)) d'"
    "sst_changelog (sst_put k st en v s) = sst_changelog s @ log" "sst_logging (sst_put k st en v s) = sst_logging s"
    "sst_is_cached (sst_put k st en v s) = sst_is_cached s"
    "sst_logging s \<longrightarrow> logs (backing_durable (sst_backing s)) log (backing_durable (sst_backing (sst_put k st en v s)))"
    "sst_is_cached s \<longrightarrow> d' = d"
    using kv_serdes.holds_put [OF session_serdes [OF S] h, of "(k, st, en)" v] ok SPut
    by (auto simp: sst_put_kv [symmetric])
  show ?thesis
    using SPut p(1) advances_write [OF p(2-6)] by fastforce
next
  case (SRemove k st en)
  let ?sk = "session_key (sd_ser ks (sst_changelog_topic s) k) st en"
  let ?b = "sst_backing s" and ?s' = "sst_remove k st en s"
  have v: "session_valid vk (k, st, en)"
    using ok SRemove by simp
  have b: "backing_ok ?b" and sd: "session_key_serde (sst_key_serde s) = session_key_serde ks" "sst_value_serde s = vs"
    using h by (auto simp: kv_holds_def)
  have sk: "sd_ser (session_key_serde ks) (sst_changelog_topic s) (k, st, en) = ?sk"
    by (simp add: session_key_serde_def)
  have "sd_ser (session_key_serde (sst_key_serde s)) (sst_changelog_topic s) (k, st, en) = ?sk"
    unfolding sd(1) by (rule sk)
  then have sk': "session_key (sd_ser (sst_key_serde s) (sst_changelog_topic s) k) st en = ?sk"
    by (simp add: session_key_serde_def)
  note r = sb_remove_view [OF b, of ?sk "sst_write_ctx s"]
  have s': "sst_backing ?s' = sb_remove ?sk (sst_write_ctx s) ?b" "sst_logging ?s' = sst_logging s"
    "sst_changelog ?s' = sst_changelog s @ (if sst_logging s \<and> \<not> sst_is_cached s then [(?sk, None)] else [])"
    "sst_changelog_topic ?s' = sst_changelog_topic s" "sst_key_serde ?s' = sst_key_serde s" "sst_value_serde ?s' = sst_value_serde s"
    by (simp_all add: sst_remove_def Let_def sk')
  have c': "sst_is_cached ?s' = sst_is_cached s"
    by (cases ?b) (simp_all add: sst_is_cached_def s')
  have old: "typed_as (sd_ser (session_key_serde ks) (sst_changelog_topic s)) (session_valid vk) (sd_ser vs (sst_changelog_topic s)) vv
      (backing_view ?b) m"
    using h by (simp add: kv_holds_def)
  have "typed_as (sd_ser (session_key_serde ks) (sst_changelog_topic s)) (session_valid vk) (sd_ser vs (sst_changelog_topic s)) vv
      ((backing_view ?b)(sd_ser (session_key_serde ks) (sst_changelog_topic s) (k, st, en) := map_option (sd_ser vs (sst_changelog_topic s)) None))
      (m((k, st, en) := None))"
    by (rule typed_as_upd [OF old v]) (simp, rule kv_serdes.key_inj [OF session_serdes [OF S]])
  then have view: "typed_as (sd_ser (session_key_serde ks) (sst_changelog_topic s)) (session_valid vk) (sd_ser vs (sst_changelog_topic s)) vv
      (backing_view (sst_backing ?s')) (m((k, st, en) := None))"
    by (simp only: r s' sk option.map)
  show ?thesis
  proof (cases ?b)
    case (Plain i)
    have "session_holds ks vk vs vv ?s' (m((k, st, en) := None)) (m((k, st, en) := None))"
      using view h r(1) s' sd Plain by (simp add: kv_holds_def sb_remove_view)
    moreover have "advances cs s d [] [] ?s' (m((k, st, en) := None))"
      by (rule advances_write [OF s'(3) s'(2) c']) (use Plain r(4) in \<open>auto simp: s' sst_is_cached_def\<close>)
    ultimately show ?thesis
      using SRemove by fastforce
  next
    case (Cached c)
    have cc: "sst_is_cached s"
      using Cached by (simp add: sst_is_cached_def)
    have "\<forall>kb \<in> cached_keys (sst_backing ?s'). \<exists>x. session_valid vk x \<and> kb = sd_ser (session_key_serde ks) (sst_changelog_topic s) x"
    proof
      fix kb
      assume "kb \<in> cached_keys (sst_backing ?s')"
      then consider "kb = ?sk" | "kb \<in> cached_keys ?b"
        using r(3) s'(1) by auto
      then show "\<exists>x. session_valid vk x \<and> kb = sd_ser (session_key_serde ks) (sst_changelog_topic s) x"
      proof cases
        case 1
        then show ?thesis
          using v sk by metis
      next
        case 2
        then show ?thesis
          using h by (simp add: kv_holds_def)
      qed
    qed
    moreover have "backing_durable (sst_backing ?s') = backing_durable ?b"
      using r(4) Cached s'(1) by simp
    ultimately have "session_holds ks vk vs vv ?s' (m((k, st, en) := None)) d"
      using view h r(1) s' sd cc c' by (simp add: kv_holds_def)
    moreover have "advances cs s d [] [] ?s' d"
      by (rule advances_write [OF s'(3) s'(2) c']) (use Cached r(4) in \<open>auto simp: s' sst_is_cached_def\<close>)
    ultimately show ?thesis
      using SRemove by fastforce
  qed
next
  case (SContext ctx)
  have "session_holds ks vk vs vv (sst_set_record_context ctx s) m d"
    using h by (simp add: sst_set_record_context_def kv_holds_def sst_is_cached_def)
  moreover have "advances cs s d [] [] (sst_set_record_context ctx s) d"
    by (simp add: advances_def sst_set_record_context_def sst_is_cached_def)
  ultimately show ?thesis
    using SContext by fastforce
next
  case SFlush
  obtain fw sk log where f: "kv_flush_cache_into cs (sst_kv s) = Some (fw, sk)"
    "kv_holds (session_key_serde ks) (session_valid vk) vs vv sk m m"
    "kv_changelog sk = sst_changelog s @ log" "kv_logging sk = sst_logging s" "kv_is_cached sk = sst_is_cached s"
    "sst_logging s \<longrightarrow> logs (backing_durable (sst_backing s)) log (backing_durable (kv_backing sk))"
    "sst_is_cached s \<longrightarrow> (\<forall>c \<in> set cs. apply_changes (changes_to c fw) d = Some m)"
    using kv_serdes.holds_flush [OF session_serdes [OF S] h cs] by auto
  obtain s' where s': "sst_flush_cache_into cs s = Some (map session_forward fw, s')" "sst_kv s' = sk"
    using sst_flush_kv [OF h f(1)] by blast
  have "advances cs s d [] fw s' m"
    using f(3-7) s'(2) logs_append unfolding advances_def by (fastforce simp flip: append_assoc)
  then show ?thesis
    using SFlush s' f(2) by fastforce
next
  case STake
  have "session_holds ks vk vs vv (s\<lparr>sst_changelog := []\<rparr>) m d"
    using h by (simp add: kv_holds_def sst_is_cached_def)
  moreover have "advances cs s d (sst_changelog s) [] (s\<lparr>sst_changelog := []\<rparr>) d"
    by (simp add: advances_def sst_is_cached_def)
  ultimately show ?thesis
    using STake by (fastforce simp: sst_take_changelog_def)
qed

lemma sst_run_append:
  "sst_run cs (xs @ ys) s =
    do { (l, f, s1) \<leftarrow> sst_run cs xs s; (l', f', s2) \<leftarrow> sst_run cs ys s1; Some (l @ l', f @ f', s2) }"
  by (induction xs arbitrary: s) (auto split: option.splits bind_splits)

lemma session_run_ok:
  assumes S: "serde_contract ks vk" "serde_contract vs vv" and cs: "distinct cs"
  shows "session_holds ks vk vs vv s m d \<Longrightarrow> \<forall>oper \<in> set ops. session_op_ok vk vv oper \<Longrightarrow>
   \<exists>log fw s' d'. sst_run cs ops s = Some (log, map session_forward fw, s') \<and>
    session_holds ks vk vs vv s' (foldl (\<lambda>m oper. sessions_step oper m) m ops) d' \<and> advances cs s d log fw s' d'"
proof (induction ops arbitrary: s m d)
  case Nil
  have "advances cs s d [] [] s d"
    by (simp add: advances_def)
  then show ?case
    using Nil by fastforce
next
  case (Cons oper ops)
  obtain log fw s1 d1 where st: "sst_step cs oper s = Some (log, map session_forward fw, s1)"
    "session_holds ks vk vs vv s1 (sessions_step oper m) d1" "advances cs s d log fw s1 d1"
    using session_step_ok [OF S cs Cons.prems(1), of oper] Cons.prems(2) by auto
  obtain log' fw' s2 d2 where rn: "sst_run cs ops s1 = Some (log', map session_forward fw', s2)"
    "session_holds ks vk vs vv s2 (foldl (\<lambda>m oper. sessions_step oper m) (sessions_step oper m) ops) d2"
    "advances cs s1 d1 log' fw' s2 d2"
    using Cons.IH [OF st(2)] Cons.prems(2) by auto
  show ?case
    using st(1) rn(1,2) advances_trans [OF st(3) rn(3)]
    by (intro exI [of _ "log @ log'"] exI [of _ "fw @ fw'"] exI [of _ s2] exI [of _ d2]) simp
qed

definition sst_fresh :: "bool \<Rightarrow> string \<Rightarrow> 'k serde \<Rightarrow> 'v serde \<Rightarrow> string \<Rightarrow> ('k, 'v) session_store" where
  "sst_fresh cached name ks vs topic =
    (let s = sst_in_memory name ks vs topic in if cached then sst_enable_cache (nc_new name) s else s)"

lemma sst_fresh_kv [simp]:
  "sst_kv (sst_fresh cached name ks vs topic) = kv_fresh cached name (session_key_serde ks) vs topic"
  by (auto simp: sst_fresh_def sst_in_memory_def sst_new_def sst_enable_cache_def sst_kv_def kv_fresh_def kv_in_memory_def
      kv_new_def kv_enable_cache_def Let_def)

lemma sst_fresh_fields [simp]:
  "sst_logging (sst_fresh cached name ks vs topic)" "sst_changelog (sst_fresh cached name ks vs topic) = []"
  "sst_is_cached (sst_fresh cached name ks vs topic) = cached"
  "backing_durable (sst_backing (sst_fresh cached name ks vs topic)) = Map.empty"
  using kv_fresh_fields [of cached name "session_key_serde ks" vs topic] unfolding sst_fresh_kv [symmetric]
  by (simp_all del: sst_fresh_kv)

section \<open>Finding sessions\<close>

lemma session_key_serde_inj:
  assumes "session_key_serde a = session_key_serde b"
  shows "a = b"
proof -
  have "sd_ser a t k = sd_ser b t k" for t k
  proof -
    have "sd_ser (session_key_serde a) t (k, 0, 0) = sd_ser (session_key_serde b) t (k, 0, 0)"
      using assms by simp
    then show ?thesis
      by (simp add: session_key_serde_def session_key_def)
  qed
  moreover have "sd_de a t kb = sd_de b t kb" for t kb
  proof -
    have "sd_de (session_key_serde a) t (session_key kb 0 0) = sd_de (session_key_serde b) t (session_key kb 0 0)"
      using assms by simp
    then show ?thesis
      by (cases "sd_de a t kb"; cases "sd_de b t kb") (simp_all add: session_key_serde_def in_i64_def)
  qed
  ultimately show ?thesis
    by (cases a; cases b) (simp add: fun_eq_iff)
qed

lemma session_holds_list:
  assumes S: "serde_contract ks vk" "serde_contract vs vv" and h: "session_holds ks vk vs vv s m d"
  obtains L where "backing_scan_all (sst_backing s) =
      map (\<lambda>(k, v). (sd_ser (session_key_serde ks) (sst_changelog_topic s) k, sd_ser vs (sst_changelog_topic s) v)) L"
    "\<And>k v. (k, v) \<in> set L \<longleftrightarrow> m k = Some v" "\<And>k v. (k, v) \<in> set L \<Longrightarrow> session_valid vk k \<and> vv v"
    "sorted_wrt (\<lambda>p q. sd_ser (session_key_serde ks) (sst_changelog_topic s) (fst p) < sd_ser (session_key_serde ks) (sst_changelog_topic s) (fst q)) L"
    "backing_ok (sst_backing s)" "sst_key_serde s = ks" "sst_value_serde s = vs"
proof -
  have ok: "backing_ok (sst_backing s)" and
    t: "typed_as (sd_ser (session_key_serde ks) (sst_changelog_topic s)) (session_valid vk) (sd_ser vs (sst_changelog_topic s)) vv
      (map_of (backing_scan_all (sst_backing s))) m"
    using h backing_scan_view(2) by (auto simp: kv_holds_def)
  have eq: "sst_key_serde s = ks" "sst_value_serde s = vs"
    using h session_key_serde_inj by (auto simp: kv_holds_def)
  show thesis
    by (rule typed_list [OF t backing_scan_view(1) [OF ok] kv_serdes.key_inj [OF session_serdes [OF S]]])
       (assumption | rule that ok eq)+
qed

lemma find_entry_typed:
  assumes S: "serde_contract (sst_key_serde s) vk" "serde_contract (sst_value_serde s) vv"
    and v: "session_valid vk (k', st, en)" "vv y" and k: "vk k"
  shows "find_entry s (sd_ser (sst_key_serde s) (sst_changelog_topic s) k) ee ls
      (sd_ser (session_key_serde (sst_key_serde s)) (sst_changelog_topic s) (k', st, en),
       sd_ser (sst_value_serde s) (sst_changelog_topic s) y) =
    Some (if k' = k \<and> ee \<le> en \<and> st \<le> ls then [(st, en, y)] else [])"
proof -
  have "sd_ser (sst_key_serde s) (sst_changelog_topic s) k' = sd_ser (sst_key_serde s) (sst_changelog_topic s) k \<longleftrightarrow> k' = k"
    using serde_contract.ser_inj [OF S(1), of k' k] v(1) k by (simp add: session_valid_def)
  then show ?thesis
    using session_valid_i64 [OF v(1)] serde_contract.roundtrip [OF S(2) v(2), of "sst_changelog_topic s"]
    by (simp add: find_entry_def session_key_serde_def)
qed

lemma find_sessions_holds:
  assumes S: "serde_contract ks vk" "serde_contract vs vv" and h: "session_holds ks vk vs vv s m d" and k: "vk k"
    and ee: "ee \<le> i64_max"
  shows "\<exists>rows. find_sessions k ee ls s = Some rows \<and> sorted_wrt (\<lambda>p q. (fst (snd p), fst p) < (fst (snd q), fst q)) rows \<and>
    set rows = {(st, en, v). m (k, st, en) = Some v \<and> ee \<le> en \<and> st \<le> ls}"
proof -
  let ?t = "sst_changelog_topic s"
  let ?kb = "sd_ser ks ?t k"
  let ?sk = "sd_ser (session_key_serde ks) ?t" and ?sv = "sd_ser vs ?t"
  let ?lo = "session_key ?kb 0 (max ee 0)" and ?hi = "session_key ?kb i64_max i64_max"
  let ?P = "\<lambda>p. fst (fst p) = k \<and> ee \<le> snd (snd (fst p)) \<and> fst (snd (fst p)) \<le> ls"
  let ?f = "\<lambda>p. (fst (snd (fst p)), snd (snd (fst p)), snd p)"
  obtain L where L: "backing_scan_all (sst_backing s) = map (\<lambda>(k, v). (?sk k, ?sv v)) L"
    "\<And>k v. (k, v) \<in> set L \<longleftrightarrow> m k = Some v" "\<And>k v. (k, v) \<in> set L \<Longrightarrow> session_valid vk k \<and> vv v"
    "sorted_wrt (\<lambda>p q. ?sk (fst p) < ?sk (fst q)) L"
    and ok: "backing_ok (sst_backing s)" and eq: "sst_key_serde s = ks" "sst_value_serde s = vs"
    using session_holds_list [OF S h] by blast
  define L1 where "L1 = filter (\<lambda>(k, v). ?lo \<le> ?sk k \<and> ?sk k < ?hi) L"
  define rows where "rows = map ?f (filter ?P L1)"
  have "?lo < ?hi"
    using ee by (simp add: session_key_less_iff max_def)
  then have range: "sb_range ?lo ?hi (sst_backing s) = Some (map (\<lambda>(k, v). (?sk k, ?sv v)) L1)"
    using backing_range_view [OF ok, of ?lo ?hi] by (simp add: sb_same L(1) bt_range_map L1_def)
  have entry: "find_entry s ?kb ee ls (?sk x, ?sv y) = Some (if ?P (x, y) then [?f (x, y)] else [])" if "(x, y) \<in> set L" for x y
    using find_entry_typed [of s vk vv "fst x" "fst (snd x)" "snd (snd x)" y k ee ls] S eq L(3) [OF that] k by simp
  have "collect_opt (map (find_entry s ?kb ee ls) (map (\<lambda>(k, v). (?sk k, ?sv v)) L1)) =
      Some (map (\<lambda>(x, y). if ?P (x, y) then [?f (x, y)] else []) L1)"
    by (intro collect_opt_typed entry) (simp add: L1_def)
  then have fetch: "find_sessions k ee ls s = Some rows"
    using range eq concat_map_filter [of ?P ?f L1] by (simp add: find_sessions_def rows_def split_def cong: if_cong)
  have key: "?sk (k, st, en) = session_key ?kb st en" for st en
    by (simp add: session_key_serde_def)
  have in_range: "?lo \<le> ?sk (k, st, en) \<and> ?sk (k, st, en) < ?hi \<longleftrightarrow> ee \<le> en" if "session_valid vk (k, st, en)" for st en
  proof -
    have "?lo \<le> ?sk (k, st, en) \<longleftrightarrow> \<not> ?sk (k, st, en) < ?lo"
      by auto
    then show ?thesis
      using that ee by (auto simp: key session_key_less_iff session_valid_def max_def)
  qed
  have mem: "((k, st, en), y) \<in> set L1 \<longleftrightarrow> m (k, st, en) = Some y \<and> ee \<le> en" for st en y
    using in_range [of st en] L(2) [of "(k, st, en)" y] L(3) [of "(k, st, en)" y] by (auto simp: L1_def)
  have "set rows = {(st, en, v). m (k, st, en) = Some v \<and> ee \<le> en \<and> st \<le> ls}"
    unfolding rows_def using mem by (force simp: image_iff)
  moreover have "sorted_wrt (\<lambda>p q. (fst (snd p), fst p) < (fst (snd q), fst q)) rows"
  proof -
    have srt: "sorted_wrt (\<lambda>p q. ?sk (fst p) < ?sk (fst q)) (filter ?P L1)"
      using L(4) unfolding L1_def by (intro sorted_wrt_filter)
    have mono: "(snd (snd (fst p)), fst (snd (fst p))) < (snd (snd (fst q)), fst (snd (fst q)))"
      if pq: "p \<in> set (filter ?P L1)" "q \<in> set (filter ?P L1)" and lt: "?sk (fst p) < ?sk (fst q)" for p q
    proof -
      have "(fst p, snd p) \<in> set L" "(fst q, snd q) \<in> set L" "fst (fst p) = k" "fst (fst q) = k"
        using pq by (auto simp: L1_def)
      then obtain st en st' en' where p: "fst p = (k, st, en)" "fst q = (k, st', en')"
        "session_valid vk (k, st, en)" "session_valid vk (k, st', en')"
        using L(3) by (metis prod.collapse)
      then show ?thesis
        using lt by (simp add: key session_key_less_iff session_valid_def)
    qed
    show ?thesis
      using sorted_wrt_mono_rel [OF mono srt] by (simp add: rows_def sorted_wrt_map)
  qed
  ultimately show ?thesis
    using fetch by blast
qed

section \<open>Properties\<close>

text \<open>C15: \<^verbatim>\<open>find_sessions\<close> returns exactly the merge candidates, in store order.  After any history of puts, removes,
  flushes and drains on a fresh session store, cached or not, the sessions found for a key are those with
  \<^verbatim>\<open>end >= earliest_end\<close> and \<^verbatim>\<open>start <= latest_start\<close> (a negative \<^verbatim>\<open>earliest_end\<close> included), each with its latest
  aggregate, by end and then by start, and none of another key.\<close>

theorem find_sessions_exact:
  assumes "serde_contract ks vk" "serde_contract vs vv" "distinct cs" "\<forall>oper \<in> set ops. session_op_ok vk vv oper"
    and "vk k" "ee \<le> i64_max"
  shows "\<exists>log fw s rows. sst_run cs ops (sst_fresh cached name ks vs topic) = Some (log, fw, s) \<and>
    find_sessions k ee ls s = Some rows \<and> sorted_wrt (\<lambda>p q. (fst (snd p), fst p) < (fst (snd q), fst q)) rows \<and>
    set rows = {(st, en, v). sessions_after ops (k, st, en) = Some v \<and> ee \<le> en \<and> st \<le> ls}"
proof -
  have "session_holds ks vk vs vv (sst_fresh cached name ks vs topic) Map.empty Map.empty"
    using kv_fresh_holds by simp
  from session_run_ok [OF assms(1-3) this assms(4)] obtain log fw s d where
    r: "sst_run cs ops (sst_fresh cached name ks vs topic) = Some (log, fw, s)" "session_holds ks vk vs vv s (sessions_after ops) d"
    unfolding sessions_after_def by blast
  show ?thesis
    using r(1) find_sessions_holds [OF assms(1,2) r(2) assms(5,6)] by blast
qed

abbreviation session_sample_ops :: "(string, int) session_op list" where
  "session_sample_ops \<equiv> [SPut ''a'' 10 15 2, SPut ''a'' 30 30 1, SFlush, SRemove ''a'' 10 15, SPut ''a'' 10 20 3, SPut ''b'' 10 20 9]"

lemma session_sample_ok: "\<forall>oper \<in> set session_sample_ops. session_op_ok (\<lambda>s. utf8_valid (str_bytes s)) in_i64 oper"
  by (simp add: session_valid_def in_i64_def str_bytes_def)

lemma find_sessions_exact_witness:
  "\<exists>log fw s rows. sst_run [3] session_sample_ops (sst_fresh True ''s'' StringSerde I64Serde ''t'') = Some (log, fw, s) \<and>
     find_sessions ''a'' 15 25 s = Some rows \<and> set rows = {(10, 20, 3)}"
proof -
  have m: "{(st, en, v). sessions_after session_sample_ops (''a'', st, en) = Some v \<and> 15 \<le> en \<and> st \<le> 25} = {(10, 20, 3)}"
    by (auto simp: sessions_after_def split: if_splits)
  have "utf8_valid (str_bytes ''a'')"
    by code_simp
  then show ?thesis
    using find_sessions_exact [OF string_serde.serde_contract_axioms i64_serde.serde_contract_axioms _ session_sample_ok,
        of "[3]" "''a''" 15 True "''s''" "''t''" 25] m by auto
qed

definition sst_replay :: "(bytes \<times> bytes option) list \<Rightarrow> ('k, 'v) session_store \<Rightarrow> ('k, 'v) session_store" where
  "sst_replay log s = foldl (\<lambda>s (k, v). sst_apply_changelog k v s) s log"

lemma sst_replay_kv: "sst_kv (sst_replay log s) = kv_replay log (sst_kv s)"
  by (induction log arbitrary: s) (auto simp: sst_replay_def kv_replay_def sst_apply_changelog_def kv_apply_changelog_def sb_same)

lemma sst_replay_fresh:
  assumes "logs Map.empty log g"
  shows "backing_view (sst_backing (sst_replay log (sst_fresh cached name ks vs topic))) = g"
  using kv_replay_fresh [OF assms] sst_replay_kv [of log "sst_fresh cached name ks vs topic"]
  by (metis sst_fresh_kv sst_kv_fields(1))

text \<open>A history that ends with a flush and a drain.\<close>

lemma sst_run_flush:
  assumes S: "serde_contract ks vk" "serde_contract vs vv" and cs: "distinct cs" and ok: "\<forall>oper \<in> set ops. session_op_ok vk vv oper"
  obtains log fw s where
    "sst_run cs (ops @ [SFlush, STake]) (sst_fresh cached name ks vs topic) = Some (log, map session_forward fw, s)"
    "session_holds ks vk vs vv s (sessions_after ops) (sessions_after ops)"
    "logs Map.empty log (backing_durable (sst_backing s))"
    "cached \<longrightarrow> (\<forall>c \<in> set cs. apply_changes (changes_to c fw) Map.empty = Some (sessions_after ops))"
proof -
  let ?s0 = "sst_fresh cached name ks vs topic"
  have h0: "session_holds ks vk vs vv ?s0 Map.empty Map.empty"
    using kv_fresh_holds by simp
  obtain l1 f1 s1 d1 where r1: "sst_run cs ops ?s0 = Some (l1, map session_forward f1, s1)"
    "session_holds ks vk vs vv s1 (sessions_after ops) d1" "advances cs ?s0 Map.empty l1 f1 s1 d1"
    using session_run_ok [OF S cs h0 ok] unfolding sessions_after_def by blast
  obtain l2 f2 s2 where r2: "sst_step cs SFlush s1 = Some (l2, map session_forward f2, s2)"
    "session_holds ks vk vs vv s2 (sessions_after ops) (sessions_after ops)" "advances cs s1 d1 l2 f2 s2 (sessions_after ops)"
    using session_step_ok [OF S cs r1(2), of SFlush] by auto
  obtain l3 f3 s3 d3 where r3: "sst_step cs STake s2 = Some (l3, map session_forward f3, s3)"
    "session_holds ks vk vs vv s3 (sessions_after ops) d3" "advances cs s2 (sessions_after ops) l3 f3 s3 d3"
    using session_step_ok [OF S cs r2(2), of STake] by auto
  have take: "l3 = sst_changelog s2" "f3 = []" "s3 = s2\<lparr>sst_changelog := []\<rparr>"
    using r3(1) by (auto simp: sst_take_changelog_def)
  have a: "advances cs ?s0 Map.empty (l1 @ l2) (f1 @ f2) s2 (sessions_after ops)"
    by (rule advances_trans [OF r1(3) r2(3)])
  have "\<forall>base pre. sst_logging ?s0 \<longrightarrow> logs base (pre @ sst_changelog ?s0) (backing_durable (sst_backing ?s0)) \<longrightarrow>
      logs base (pre @ (l1 @ l2) @ sst_changelog s2) (backing_durable (sst_backing s2))"
    using a unfolding advances_def by (elim conjE)
  then have "logs Map.empty ([] @ (l1 @ l2) @ sst_changelog s2) (backing_durable (sst_backing s2))"
    by (elim allE [of _ Map.empty] allE [of _ "[]"]) simp
  then have "logs Map.empty (l1 @ l2 @ l3) (backing_durable (sst_backing s3))"
    using take by simp
  moreover have "session_holds ks vk vs vv s3 (sessions_after ops) (sessions_after ops)"
    using r2(2) take by (simp add: kv_holds_def sst_is_cached_def)
  moreover have "cached \<longrightarrow> (\<forall>c \<in> set cs. apply_changes (changes_to c (f1 @ f2 @ f3)) Map.empty = Some (sessions_after ops))"
    using a take by (simp add: advances_def)
  moreover have "sst_run cs (ops @ [SFlush, STake]) ?s0 = Some (l1 @ l2 @ l3, map session_forward (f1 @ f2 @ f3), s3)"
    using r1(1) r2(1) r3(1) by (simp add: sst_run_append)
  ultimately show thesis
    using that by blast
qed

text \<open>C16: The session store's changelog rebuilds it.  After any history that ends with a flush and a drain, merges with
  their removals included, replaying the drained records into a fresh store gives the same sessions.\<close>

theorem session_changelog_rebuilds_store:
  assumes "serde_contract ks vk" "serde_contract vs vv" "distinct cs" "\<forall>oper \<in> set ops. session_op_ok vk vv oper"
  shows "\<exists>log fw s. sst_run cs (ops @ [SFlush, STake]) (sst_fresh cached name ks vs topic) = Some (log, fw, s) \<and>
    backing_view (sst_backing (sst_replay log (sst_fresh cached' name ks vs topic))) = backing_view (sst_backing s)"
proof -
  obtain log fw s where r:
    "sst_run cs (ops @ [SFlush, STake]) (sst_fresh cached name ks vs topic) = Some (log, map session_forward fw, s)"
    "session_holds ks vk vs vv s (sessions_after ops) (sessions_after ops)"
    "logs Map.empty log (backing_durable (sst_backing s))"
    by (rule sst_run_flush [OF assms])
  have "backing_view (sst_backing s) = backing_durable (sst_backing s)"
    using r(2) typed_as_unique unfolding kv_holds_def sst_kv_fields by blast
  then show ?thesis
    using r(1) sst_replay_fresh [OF r(3)] by auto
qed

lemma session_changelog_rebuilds_store_witness:
  "\<exists>log fw s. sst_run [3] (session_sample_ops @ [SFlush, STake]) (sst_fresh True ''s'' StringSerde I64Serde ''t'') = Some (log, fw, s) \<and>
    backing_view (sst_backing (sst_replay log (sst_fresh False ''s'' StringSerde I64Serde ''t''))) = backing_view (sst_backing s)"
  by (rule session_changelog_rebuilds_store [OF string_serde.serde_contract_axioms i64_serde.serde_contract_axioms _ session_sample_ok]) simp

end
