(* ===== verification/Processor_Api.thy ===== *)
theory Processor_Api
  imports Session_Store
begin

text \<open>
  What the aggregation processors share: \<^verbatim>\<open>processor/record.rs\<close> (records), \<^verbatim>\<open>dsl/emit.rs\<close> (emit strategies),
  \<^verbatim>\<open>dsl/processors/tuple_forwarder.rs\<close> (the forward-suppression seam).

  A processor is a function from its own state, the stores it is connected to and a record to the updated
  state and stores and the list of records it forwards, in order.  A panic of the source (a null key, an
  undecodable entry) is the result \<^const>\<open>None\<close>.
\<close>

record ('k, 'v) rec =
  r_key :: "'k option"
  r_value :: 'v
  r_timestamp :: int

definition rec_new :: "'k option \<Rightarrow> 'v \<Rightarrow> int \<Rightarrow> ('k, 'v) rec" where
  "rec_new k v ts = \<lparr>r_key = k, r_value = v, r_timestamp = ts\<rparr>"

datatype emit_strategy = OnWindowUpdate | OnWindowClose

definition is_on_update :: "emit_strategy \<Rightarrow> bool" where
  "is_on_update e \<longleftrightarrow> e = OnWindowUpdate"

definition is_on_close :: "emit_strategy \<Rightarrow> bool" where
  "is_on_close e \<longleftrightarrow> e = OnWindowClose"

record tuple_forwarder =
  tf_cached :: bool

definition tf_resolve :: "bool \<Rightarrow> tuple_forwarder" where
  "tf_resolve cached = \<lparr>tf_cached = cached\<rparr>"

definition maybe_forward :: "tuple_forwarder \<Rightarrow> 'k \<Rightarrow> 'v option \<Rightarrow> 'v \<Rightarrow> int \<Rightarrow> ('k, 'v change) rec list" where
  "maybe_forward tf key old new ts =
    (if tf_cached tf then [] else [rec_new (Some key) (change_update old new) ts])"

definition maybe_forward_change :: "tuple_forwarder \<Rightarrow> 'k \<Rightarrow> 'v change \<Rightarrow> int \<Rightarrow> ('k, 'v change) rec list" where
  "maybe_forward_change tf key change ts = (if tf_cached tf then [] else [rec_new (Some key) change ts])"

section \<open>Running a processor over a sequence of inputs\<close>

fun proc_run :: "('i \<Rightarrow> 'p \<Rightarrow> 's \<Rightarrow> ('o list \<times> 'p \<times> 's) option) \<Rightarrow> 'i list \<Rightarrow> 'p \<Rightarrow> 's \<Rightarrow> ('o list \<times> 'p \<times> 's) option" where
  "proc_run step [] p s = Some ([], p, s)"
| "proc_run step (i # inputs) p s =
    do { (out, p1, s1) \<leftarrow> step i p s;
         (outs, p2, s2) \<leftarrow> proc_run step inputs p1 s1;
         Some (out @ outs, p2, s2) }"

text \<open>An invariant with a ghost state \<open>g\<close> and the outputs so far, for a run of at most \<open>N\<close> inputs.\<close>

lemma proc_run_out_inv:
  assumes step: "\<And>n i g o1 p s. keeps n g o1 p s \<Longrightarrow> good i \<Longrightarrow> n < N \<Longrightarrow>
      \<exists>out p' s'. step i p s = Some (out, p', s') \<and> keeps (Suc n) (upd i g) (o1 @ out) p' s'"
  shows "keeps n g o1 p s \<Longrightarrow> \<forall>i \<in> set inputs. good i \<Longrightarrow> n + length inputs \<le> N \<Longrightarrow>
    \<exists>outs p' s'. proc_run step inputs p s = Some (outs, p', s') \<and> keeps (n + length inputs) (fold upd inputs g) (o1 @ outs) p' s'"
proof (induction inputs arbitrary: n g o1 p s)
  case (Cons i inputs)
  then obtain out p1 s1 where 1: "step i p s = Some (out, p1, s1)" "keeps (Suc n) (upd i g) (o1 @ out) p1 s1"
    using step [of n g o1 p s i] by auto
  then obtain outs p' s' where "proc_run step inputs p1 s1 = Some (outs, p', s')"
      "keeps (Suc n + length inputs) (fold upd inputs (upd i g)) ((o1 @ out) @ outs) p' s'"
    using Cons.IH [OF 1(2)] Cons.prems by auto
  then show ?case
    using 1(1) by simp
qed simp

lemma proc_run_inv:
  assumes "\<And>n i g p s. keeps n g p s \<Longrightarrow> good i \<Longrightarrow> n < N \<Longrightarrow>
      \<exists>out p' s'. step i p s = Some (out, p', s') \<and> keeps (Suc n) (upd i g) p' s'"
    and "keeps n g p s" "\<forall>i \<in> set inputs. good i" "n + length inputs \<le> N"
  shows "\<exists>outs p' s'. proc_run step inputs p s = Some (outs, p', s') \<and> keeps (n + length inputs) (fold upd inputs g) p' s'"
  by (rule proc_run_out_inv [where keeps = "\<lambda>n g _ p s. keeps n g p s" and good = good and N = N]) (fact assms)+

lemma fold_snoc: "fold (\<lambda>i g. g @ [i]) xs ys = ys @ xs"
  by (induction xs arbitrary: ys) simp_all

end
