(* ===== verification/Session_Aggregate.thy ===== *)
theory Session_Aggregate
  imports Processor_Api "HOL-Library.Multiset"
begin

text \<open>
  The session-window aggregation processors of \<^verbatim>\<open>dsl/processors/session_aggregate.rs\<close> over the session store.

  The specification of the sessions of a key is independent of the incremental merge: sort the timestamps of the
  accepted records and cut the list wherever two neighbours are further apart than the inactivity gap.
  The theorem says that the store always holds exactly these clusters, each with the aggregate of the records
  that lie in it, whatever the order of arrival.
\<close>

section \<open>KStreamSessionAggregateProcessor\<close>

definition session_is_closed :: "int \<Rightarrow> int \<Rightarrow> bool" where
  "session_is_closed session_end window_close_time \<longleftrightarrow> session_end < window_close_time"

record ('k, 'v, 'va) session_aggregate =
  sa_store_name :: string
  sa_gap :: int
  sa_init :: 'va
  sa_agg :: "'k \<Rightarrow> 'v \<Rightarrow> 'va \<Rightarrow> 'va"
  sa_merger :: "'k \<Rightarrow> 'va \<Rightarrow> 'va \<Rightarrow> 'va"
  sa_emit :: emit_strategy
  sa_grace :: int
  sa_stream_time :: int
  sa_last_emitted_close :: int
  sa_forwarder :: tuple_forwarder

definition sa_open :: "('k, 'va) session_store \<Rightarrow> ('k, 'v, 'va) session_aggregate \<Rightarrow> ('k, 'v, 'va) session_aggregate" where
  "sa_open s p = p\<lparr>sa_forwarder := tf_resolve (sst_is_cached s)\<rparr>"

type_synonym ('k, 'va) emitted = "('k windowed, 'va change) rec list"

definition session_of :: "'k \<Rightarrow> int \<Rightarrow> int \<Rightarrow> 'k windowed" where
  "session_of key st en = \<lparr>wd_key = key, wd_window = \<lparr>w_start = st, w_end = en\<rparr>\<rparr>"

text \<open>The removal loop: each merged-away session leaves the store, with a tombstone under emit-on-update.\<close>

fun remove_merged :: "emit_strategy \<Rightarrow> tuple_forwarder \<Rightarrow> record_context \<Rightarrow> 'k \<Rightarrow> (int \<times> int \<times> 'va) list \<Rightarrow>
    ('k, 'va) session_store \<Rightarrow> ('k, 'va) emitted \<times> ('k, 'va) session_store" where
  "remove_merged emit fwd rc key [] s = ([], s)"
| "remove_merged emit fwd rc key ((st, en, v) # cands) s =
    (let s1 = sst_remove key st en (sst_set_record_context rc s);
         out = (if is_on_update emit then maybe_forward_change fwd (session_of key st en) (change_tombstone (Some v)) en else []);
         (outs, s2) = remove_merged emit fwd rc key cands s1
     in (out @ outs, s2))"

text \<open>The close scan of emit-final, shared by both processors: what it forwards.\<close>

definition emit_closed_sessions :: "int \<Rightarrow> int \<Rightarrow> ('k, 'va) session_store \<Rightarrow> ('k, 'va) emitted option" where
  "emit_closed_sessions last_emitted_close window_close_time s =
    do { due \<leftarrow> find_closed_sessions (sat_sub window_close_time 1) s;
         Some (map (\<lambda>(k, st, en, v). rec_new (Some (session_of k st en)) (change_update None v) en)
           (sort_key (\<lambda>(_, st, en, _). (en, st)) (filter (\<lambda>(_, _, en, _). last_emitted_close \<le> en) due))) }"

definition sa_process :: "record_context \<Rightarrow> ('k, 'v) rec \<Rightarrow> ('k, 'v, 'va) session_aggregate \<Rightarrow> ('k, 'va) session_store \<Rightarrow>
    (('k, 'va) emitted \<times> ('k, 'v, 'va) session_aggregate \<times> ('k, 'va) session_store) option" where
  "sa_process rc r p s =
    do { key \<leftarrow> r_key r;
         let ts = r_timestamp r;
         let p1 = p\<lparr>sa_stream_time := max (sa_stream_time p) ts\<rparr>;
         let close = sat_sub (sa_stream_time p1) (sa_grace p);
         cands \<leftarrow> find_sessions key (sat_sub ts (sa_gap p)) (sat_add ts (sa_gap p)) s;
         let (acc, new_start, new_end) =
           foldl (\<lambda>(acc, ns, ne) (st, en, v). (sa_merger p key acc v, min ns st, max ne en)) (sa_init p, ts, ts) cands;
         (if session_is_closed new_end close then Some ([], p1, s)
          else do {
            let acc = sa_agg p key (r_value r) acc;
            let (removed, s1) = remove_merged (sa_emit p) (sa_forwarder p) rc key cands s;
            let s2 = sst_put key new_start new_end acc (sst_set_record_context rc s1);
            let upd = (if is_on_update (sa_emit p)
                       then maybe_forward_change (sa_forwarder p) (session_of key new_start new_end) (change_update None acc) new_end
                       else []);
            (if is_on_close (sa_emit p)
             then do { final \<leftarrow> emit_closed_sessions (sa_last_emitted_close p1) close s2;
                       Some (removed @ upd @ final, p1\<lparr>sa_last_emitted_close := close\<rparr>, s2) }
             else Some (removed @ upd, p1, s2)) }) }"

section \<open>KStreamSessionReduceProcessor\<close>

record ('k, 'v) session_reduce =
  sr_store_name :: string
  sr_gap :: int
  sr_reducer :: "'v \<Rightarrow> 'v \<Rightarrow> 'v"
  sr_emit :: emit_strategy
  sr_grace :: int
  sr_stream_time :: int
  sr_last_emitted_close :: int
  sr_forwarder :: tuple_forwarder

definition sr_open :: "('k, 'v) session_store \<Rightarrow> ('k, 'v) session_reduce \<Rightarrow> ('k, 'v) session_reduce" where
  "sr_open s p = p\<lparr>sr_forwarder := tf_resolve (sst_is_cached s)\<rparr>"

definition sr_process :: "record_context \<Rightarrow> ('k, 'v) rec \<Rightarrow> ('k, 'v) session_reduce \<Rightarrow> ('k, 'v) session_store \<Rightarrow>
    (('k, 'v) emitted \<times> ('k, 'v) session_reduce \<times> ('k, 'v) session_store) option" where
  "sr_process rc r p s =
    do { key \<leftarrow> r_key r;
         let ts = r_timestamp r;
         let p1 = p\<lparr>sr_stream_time := max (sr_stream_time p) ts\<rparr>;
         let close = sat_sub (sr_stream_time p1) (sr_grace p);
         cands \<leftarrow> find_sessions key (sat_sub ts (sr_gap p)) (sat_add ts (sr_gap p)) s;
         let (acc, new_start, new_end) =
           foldl (\<lambda>(acc, ns, ne) (st, en, v).
               (Some (case acc of None \<Rightarrow> v | Some a \<Rightarrow> sr_reducer p a v), min ns st, max ne en)) (None, ts, ts) cands;
         (if session_is_closed new_end close then Some ([], p1, s)
          else do {
            let acc = (case acc of None \<Rightarrow> r_value r | Some a \<Rightarrow> sr_reducer p a (r_value r));
            let (removed, s1) = remove_merged (sr_emit p) (sr_forwarder p) rc key cands s;
            let s2 = sst_put key new_start new_end acc (sst_set_record_context rc s1);
            let upd = (if is_on_update (sr_emit p)
                       then maybe_forward_change (sr_forwarder p) (session_of key new_start new_end) (change_update None acc) new_end
                       else []);
            (if is_on_close (sr_emit p)
             then do { final \<leftarrow> emit_closed_sessions (sr_last_emitted_close p1) close s2;
                       Some (removed @ upd @ final, p1\<lparr>sr_last_emitted_close := close\<rparr>, s2) }
             else Some (removed @ upd, p1, s2)) }) }"

section \<open>Clusters of timestamps\<close>

text \<open>The specification: cut a sorted list of timestamps where the gap to the next one is too large.\<close>

fun clusters :: "int \<Rightarrow> int list \<Rightarrow> (int \<times> int) list" where
  "clusters g [] = []"
| "clusters g (t # ts) =
    (case clusters g ts of
       (s, e) # cs \<Rightarrow> if s \<le> t + g then (t, e) # cs else (t, t) # (s, e) # cs
     | [] \<Rightarrow> [(t, t)])"

definition chained :: "int \<Rightarrow> int set \<Rightarrow> int \<times> int \<Rightarrow> bool" where
  "chained g T c \<longleftrightarrow> fst c \<in> T \<and> snd c \<in> T \<and> fst c \<le> snd c \<and>
     (\<forall>t. fst c \<le> t \<and> t < snd c \<longrightarrow> (\<exists>r \<in> T. t < r \<and> r \<le> t + g \<and> r \<le> snd c))"

definition apart :: "int \<Rightarrow> int \<times> int \<Rightarrow> int \<times> int \<Rightarrow> bool" where
  "apart g c d \<longleftrightarrow> snd c + g < fst d \<or> snd d + g < fst c"

definition within :: "int \<Rightarrow> int \<times> int \<Rightarrow> bool" where
  "within t c \<longleftrightarrow> fst c \<le> t \<and> t \<le> snd c"

definition is_clusters :: "int \<Rightarrow> int set \<Rightarrow> (int \<times> int) set \<Rightarrow> bool" where
  "is_clusters g T S \<longleftrightarrow>
     (\<forall>c \<in> S. chained g T c) \<and> (\<forall>c \<in> S. \<forall>d \<in> S. c \<noteq> d \<longrightarrow> apart g c d) \<and> (\<forall>t \<in> T. \<exists>c \<in> S. within t c)"

lemma chained_mono: "chained g T c \<Longrightarrow> T \<subseteq> T' \<Longrightarrow> chained g T' c"
  unfolding chained_def by blast

lemma apart_commute: "apart g c d \<longleftrightarrow> apart g d c"
  by (auto simp: apart_def)

lemma is_clustersD:
  assumes "is_clusters g T S"
  shows "c \<in> S \<Longrightarrow> chained g T c" "c \<in> S \<Longrightarrow> d \<in> S \<Longrightarrow> c \<noteq> d \<Longrightarrow> apart g c d" "t \<in> T \<Longrightarrow> \<exists>c \<in> S. within t c"
  using assms by (auto simp: is_clusters_def)

lemma clusters_hd: "ts \<noteq> [] \<Longrightarrow> \<exists>e cs. clusters g ts = (hd ts, e) # cs"
  by (cases ts) (auto split: list.splits)

text \<open>Adding a timestamp merges the clusters it touches.  The clusters of the specification and the sessions
  of the store are both obtained this way.\<close>

definition touches :: "int \<Rightarrow> int \<Rightarrow> int \<times> int \<Rightarrow> bool" where
  "touches g ts c \<longleftrightarrow> ts - g \<le> snd c \<and> fst c \<le> ts + g"

definition merged :: "int \<Rightarrow> (int \<times> int) set \<Rightarrow> int \<times> int" where
  "merged ts C = (Min (insert ts (fst ` C)), Max (insert ts (snd ` C)))"

lemma merged_bounds:
  assumes "finite C"
  shows "fst (merged ts C) \<le> ts" "ts \<le> snd (merged ts C)"
    and "c \<in> C \<Longrightarrow> fst (merged ts C) \<le> fst c" "c \<in> C \<Longrightarrow> snd c \<le> snd (merged ts C)"
    and "fst (merged ts C) = ts \<or> (\<exists>c \<in> C. fst (merged ts C) = fst c)"
    and "snd (merged ts C) = ts \<or> (\<exists>c \<in> C. snd (merged ts C) = snd c)"
  using assms Min_in [of "insert ts (fst ` C)"] Max_in [of "insert ts (snd ` C)"]
  by (auto simp: merged_def simp del: Min_insert Max_insert Min_in Max_in)

lemma merged_chained:
  assumes g: "0 \<le> g" and cl: "is_clusters g T S" and fin: "finite S"
  shows "chained g (insert ts T) (merged ts {c \<in> S. touches g ts c})"
proof -
  let ?C = "{c \<in> S. touches g ts c}"
  let ?m = "merged ts ?C"
  have finC: "finite ?C"
    using fin by simp
  note b = merged_bounds [OF finC, where ts = ts]
  have C: "chained g T c \<and> ts \<le> snd c + g \<and> fst c \<le> ts + g" if "c \<in> ?C" for c
    using that is_clustersD(1) [OF cl] by (auto simp: touches_def)
  have "\<exists>r \<in> insert ts T. t < r \<and> r \<le> t + g \<and> r \<le> snd ?m" if t: "fst ?m \<le> t" "t < snd ?m" for t
  proof (cases "t < ts")
    case True
    then obtain c where c: "c \<in> ?C" "fst ?m = fst c"
      using b(5) t(1) by force
    show ?thesis
    proof (cases "t < snd c")
      case True
      then obtain r where "r \<in> T" "t < r" "r \<le> t + g" "r \<le> snd c"
        using C [OF c(1)] c(2) t(1) unfolding chained_def by auto
      then show ?thesis
        using b(4) [OF c(1)] by force
    next
      case False
      then show ?thesis
        using True b(2) C [OF c(1)] by (intro bexI [of _ ts]) auto
    qed
  next
    case False
    then obtain c where c: "c \<in> ?C" "snd ?m = snd c"
      using b(6) t(2) by force
    show ?thesis
    proof (cases "fst c \<le> t")
      case True
      then show ?thesis
        using C [OF c(1)] c(2) t(2) unfolding chained_def by auto
    next
      case nc: False
      then show ?thesis
        using False C [OF c(1)] c(2) unfolding chained_def by (intro bexI [of _ "fst c"]) auto
    qed
  qed
  moreover have "fst ?m \<in> insert ts T" "snd ?m \<in> insert ts T"
    using b(5,6) C unfolding chained_def by auto
  ultimately show ?thesis
    using b(1,2) unfolding chained_def by auto
qed

lemma merged_apart:
  assumes g: "0 \<le> g" and cl: "is_clusters g T S" and fin: "finite S" and d: "d \<in> S" "\<not> touches g ts d"
  shows "apart g d (merged ts {c \<in> S. touches g ts c})"
proof -
  let ?C = "{c \<in> S. touches g ts c}"
  have finC: "finite ?C"
    using fin by simp
  note b = merged_bounds [OF finC, where ts = ts]
  have C: "apart g d c \<and> fst c \<le> snd c \<and> ts \<le> snd c + g \<and> fst c \<le> ts + g" if "c \<in> ?C" for c
  proof -
    have "apart g d c" "chained g T c"
      using that d is_clustersD(1) [OF cl, of c] is_clustersD(2) [OF cl, of d c] by blast+
    then show ?thesis
      using that by (auto simp: touches_def chained_def)
  qed
  have dd: "fst d \<le> snd d"
    using is_clustersD(1) [OF cl d(1)] by (simp add: chained_def)
  consider "snd d + g < ts" | "ts + g < fst d"
    using d(2) by (force simp: touches_def)
  then show ?thesis
  proof cases
    case 1
    have "snd d + g < fst c" if "c \<in> ?C" for c
      using C [OF that] 1 dd g by (auto simp: apart_def)
    then show ?thesis
      using b(5) 1 by (auto simp: apart_def)
  next
    case 2
    have "snd c + g < fst d" if "c \<in> ?C" for c
      using C [OF that] 2 dd g by (auto simp: apart_def)
    then show ?thesis
      using b(6) 2 by (auto simp: apart_def)
  qed
qed

lemma is_clusters_insert:
  assumes g: "0 \<le> g" and cl: "is_clusters g T S" and fin: "finite S"
  shows "is_clusters g (insert ts T) (insert (merged ts {c \<in> S. touches g ts c}) {c \<in> S. \<not> touches g ts c})"
    (is "is_clusters g _ (insert ?m ?R)")
proof -
  have "finite {c \<in> S. touches g ts c}"
    using fin by simp
  note b = merged_bounds [OF this, where ts = ts]
  have "\<exists>c \<in> insert ?m ?R. within t c" if t: "t \<in> insert ts T" for t
  proof (cases "t = ts")
    case True
    then show ?thesis
      using b(1,2) by (simp add: within_def)
  next
    case False
    then obtain c where c: "c \<in> S" "within t c"
      using is_clustersD(3) [OF cl] t by blast
    show ?thesis
    proof (cases "touches g ts c")
      case True
      then have "within t ?m"
        using b(3,4) [of c] c by (simp add: within_def)
      then show ?thesis
        by blast
    qed (use c in blast)
  qed
  moreover have "chained g (insert ts T) c" if "c \<in> insert ?m ?R" for c
  proof (cases "c = ?m")
    case False
    then have "chained g T c"
      using that is_clustersD(1) [OF cl] by blast
    then show ?thesis
      by (rule chained_mono) blast
  qed (use merged_chained [OF g cl fin] in simp)
  moreover have "apart g c d" if m: "c \<in> insert ?m ?R" "d \<in> insert ?m ?R" and ne: "c \<noteq> d" for c d
  proof -
    consider "c = ?m" "d \<in> ?R" | "d = ?m" "c \<in> ?R" | "c \<in> S" "d \<in> S"
      using m ne by blast
    then show ?thesis
    proof cases
      case 1
      have "apart g d ?m"
        by (rule merged_apart [OF g cl fin]) (use 1(2) in blast)+
      then show ?thesis
        unfolding 1(1) apart_commute [of g ?m] .
    next
      case 2
      show ?thesis
        unfolding 2(1) by (rule merged_apart [OF g cl fin]) (use 2(2) in blast)+
    next
      case 3
      show ?thesis
        by (rule is_clustersD(2) [OF cl 3 ne])
    qed
  qed
  ultimately show ?thesis
    unfolding is_clusters_def by blast
qed

text \<open>Clusters are unique.\<close>

lemma is_clusters_start:
  assumes g: "0 \<le> g" and c: "is_clusters g T S" "is_clusters g T S'" and fin: "finite T"
    and m: "c \<in> S" "c' \<in> S'" "within (fst c) c'"
  shows "fst c' = fst c"
proof (rule ccontr)
  assume "fst c' \<noteq> fst c"
  then have lt: "fst c' < fst c" and T: "fst c' \<in> T" "fst c \<le> snd c"
    using m is_clustersD(1) [OF c(1) m(1)] is_clustersD(1) [OF c(2) m(2)] by (auto simp: within_def chained_def)
  define t0 where "t0 = Max {t \<in> T. t < fst c}"
  have t0: "t0 \<in> T" "t0 < fst c" "fst c' \<le> t0" "\<And>t. t \<in> T \<Longrightarrow> t < fst c \<Longrightarrow> t \<le> t0"
  proof -
    have "{t \<in> T. t < fst c} \<noteq> {}" and fin': "finite {t \<in> T. t < fst c}"
      using lt T(1) fin by auto
    then have "t0 \<in> {t \<in> T. t < fst c}"
      unfolding t0_def by (intro Max_in)
    then show "t0 \<in> T" "t0 < fst c"
      by simp_all
    show "fst c' \<le> t0"
      using Max_ge [OF fin', of "fst c'"] lt T(1) by (simp add: t0_def)
    show "t \<le> t0" if "t \<in> T" "t < fst c" for t
      using Max_ge [OF fin', of t] that by (simp add: t0_def)
  qed
  obtain r where "r \<in> T" "t0 < r" "r \<le> t0 + g"
    using is_clustersD(1) [OF c(2) m(2)] t0(2,3) m(3) unfolding chained_def within_def by force
  then have near: "fst c \<le> t0 + g"
    using t0(4) by force
  obtain d where d: "d \<in> S" "within t0 d"
    using is_clustersD(3) [OF c(1) t0(1)] by blast
  then have "d \<noteq> c"
    using t0(2) by (auto simp: within_def)
  then have "apart g d c"
    by (rule is_clustersD(2) [OF c(1) d(1) m(1)])
  then show False
    using near d(2) t0(2) T(2) g by (auto simp: apart_def within_def)
qed

lemma is_clusters_end:
  assumes g: "0 \<le> g" and c: "is_clusters g T S" "is_clusters g T S'" and m: "c \<in> S" "c' \<in> S'" "fst c' = fst c"
  shows "snd c' \<le> snd c"
proof (rule ccontr)
  assume nle: "\<not> snd c' \<le> snd c"
  have b: "fst c \<le> snd c" "snd c \<in> T"
    using is_clustersD(1) [OF c(1) m(1)] by (auto simp: chained_def)
  then obtain r where r: "r \<in> T" "snd c < r" "r \<le> snd c + g"
    using is_clustersD(1) [OF c(2) m(2)] m(3) nle unfolding chained_def by fastforce
  then obtain d where d: "d \<in> S" "within r d"
    using is_clustersD(3) [OF c(1)] by blast
  then have "d \<noteq> c"
    using r(2) by (auto simp: within_def)
  then have "apart g d c"
    by (rule is_clustersD(2) [OF c(1) d(1) m(1)])
  then show False
    using r d(2) b g by (auto simp: apart_def within_def)
qed

lemma is_clusters_sub:
  assumes g: "0 \<le> g" and c: "is_clusters g T S" "is_clusters g T S'" and fin: "finite T"
  shows "S \<subseteq> S'"
proof
  fix c assume m: "c \<in> S"
  then have "fst c \<in> T"
    using is_clustersD(1) [OF c(1)] by (simp add: chained_def)
  then obtain c' where c': "c' \<in> S'" "within (fst c) c'"
    using is_clustersD(3) [OF c(2)] by blast
  have st: "fst c' = fst c"
    by (rule is_clusters_start [OF g c fin m c'])
  have "snd c' = snd c"
    using is_clusters_end [OF g c m c'(1) st] is_clusters_end [OF g c(2,1) c'(1) m st [symmetric]] by simp
  then have "c' = c"
    using st by (intro prod_eqI) simp_all
  then show "c \<in> S'"
    using c'(1) by simp
qed

lemma is_clusters_unique:
  assumes "0 \<le> g" "is_clusters g T S" "is_clusters g T S'" "finite T"
  shows "S = S'"
  using is_clusters_sub assms by (intro equalityI) blast+

lemma clusters_sorted:
  assumes "0 \<le> g"
  shows "sorted ts \<Longrightarrow> sorted_wrt (\<lambda>c d. fst c < fst d) (clusters g ts)"
proof (induction ts)
  case (Cons t ts)
  show ?case
  proof (cases ts)
    case (Cons u us)
    then obtain e cs where "clusters g ts = (u, e) # cs"
      using clusters_hd [of ts g] by auto
    then show ?thesis
      using Cons.IH Cons.prems Cons assms by fastforce
  qed simp
qed simp

lemma clusters_ok:
  assumes g: "0 \<le> g" and "sorted ts"
  shows "is_clusters g (set ts) (set (clusters g ts))"
  using assms(2)
proof (induction ts)
  case (Cons t ts)
  let ?S = "set (clusters g ts)"
  have ih: "is_clusters g (set ts) ?S"
    using Cons by simp
  have ge: "t \<le> fst c" "fst c \<le> snd c" if "c \<in> ?S" for c
    using is_clustersD(1) [OF ih that] Cons.prems by (auto simp: chained_def)
  have touch: "touches g t c \<longleftrightarrow> fst c \<le> t + g" if "c \<in> ?S" for c
    using ge [OF that] g by (auto simp: touches_def)
  have "set (clusters g (t # ts)) = insert (merged t {c \<in> ?S. touches g t c}) {c \<in> ?S. \<not> touches g t c}"
  proof (cases ts)
    case (Cons u us)
    then obtain e cs where cl: "clusters g ts = (u, e) # cs"
      using clusters_hd [of ts g] by auto
    have gt: "u < fst c" "c \<noteq> (u, e)" if "c \<in> set cs" for c
      using clusters_sorted [OF g, of ts] Cons.prems that cl by auto
    have far: "\<not> touches g t c" if c: "c \<in> set cs" for c
    proof -
      have "apart g (u, e) c"
        using is_clustersD(2) [OF ih, of "(u, e)" c] c gt(2) [OF c] cl by auto
      then have "u + g < fst c"
        using gt(1) [OF c] ge [of "(u, e)"] ge [of c] c g cl by (auto simp: apart_def)
      then show ?thesis
        using ge(1) [of "(u, e)"] touch [of c] c cl by auto
    qed
    show ?thesis
    proof (cases "u \<le> t + g")
      case True
      then have eq: "{c \<in> ?S. touches g t c} = {(u, e)}" "{c \<in> ?S. \<not> touches g t c} = set cs"
        using touch [of "(u, e)"] far cl by auto
      have "merged t {(u, e)} = (t, e)"
        using ge [of "(u, e)"] cl by (simp add: merged_def)
      then show ?thesis
        unfolding eq using True cl by simp
    next
      case False
      then have eq: "{c \<in> ?S. touches g t c} = {}" "{c \<in> ?S. \<not> touches g t c} = ?S"
        using touch [of "(u, e)"] far cl by auto
      show ?thesis
        unfolding eq using False cl by (simp add: merged_def)
    qed
  qed (simp add: merged_def)
  then show ?case
    using is_clusters_insert [OF g ih, of t] by simp
qed (simp add: is_clusters_def)

section \<open>The sessions of the store\<close>

definition sess_view :: "'k serde \<Rightarrow> ('k \<Rightarrow> bool) \<Rightarrow> 'v serde \<Rightarrow> ('v \<Rightarrow> bool) \<Rightarrow> ('k, 'v) session_store \<Rightarrow>
    ('k \<times> int \<times> int \<Rightarrow> 'v option) \<Rightarrow> bool" where
  "sess_view ks vk vs vv s m \<longleftrightarrow> (\<exists>d. session_holds ks vk vs vv s m d)"

lemma sess_view_fresh: "sess_view ks vk vs vv (sst_fresh cached name ks vs topic) Map.empty"
  unfolding sess_view_def using kv_fresh_holds by (intro exI [of _ Map.empty]) simp

lemma sess_view_step:
  assumes S: "serde_contract ks vk" "serde_contract vs vv" and h: "sess_view ks vk vs vv s m"
  shows "session_valid vk (k, st, en) \<Longrightarrow> vv v \<Longrightarrow> sess_view ks vk vs vv (sst_put k st en v s) (m((k, st, en) \<mapsto> v))"
    and "session_valid vk (k, st, en) \<Longrightarrow> sess_view ks vk vs vv (sst_remove k st en s) (m((k, st, en) := None))"
    and "sess_view ks vk vs vv (sst_set_record_context rc s) m"
proof -
  obtain d where d: "session_holds ks vk vs vv s m d"
    using h by (auto simp: sess_view_def)
  note step = session_step_ok [OF S, of "[]", OF _ d]
  show "sess_view ks vk vs vv (sst_put k st en v s) (m((k, st, en) \<mapsto> v))" if "session_valid vk (k, st, en)" "vv v"
    using step [of "SPut k st en v"] that by (auto simp: sess_view_def)
  show "sess_view ks vk vs vv (sst_remove k st en s) (m((k, st, en) := None))" if "session_valid vk (k, st, en)"
    using step [of "SRemove k st en"] that by (auto simp: sess_view_def)
  show "sess_view ks vk vs vv (sst_set_record_context rc s) m"
    using step [of "SContext rc"] by (auto simp: sess_view_def)
qed

lemma sess_view_remove_merged:
  assumes S: "serde_contract ks vk" "serde_contract vs vv"
  shows "sess_view ks vk vs vv s m \<Longrightarrow> \<forall>(st, en, v) \<in> set cands. session_valid vk (k, st, en) \<Longrightarrow>
    sess_view ks vk vs vv (snd (remove_merged emit fwd rc k cands s))
      (\<lambda>x. if \<exists>v. fst x = k \<and> (fst (snd x), snd (snd x), v) \<in> set cands then None else m x)"
proof (induction cands arbitrary: s m)
  case (Cons c cands)
  obtain st en v where c: "c = (st, en, v)"
    by (cases c)
  have "sess_view ks vk vs vv (sst_remove k st en (sst_set_record_context rc s)) (m((k, st, en) := None))"
    using sess_view_step(2) [OF S sess_view_step(3) [OF S Cons.prems(1)]] Cons.prems(2) c by auto
  from Cons.IH [OF this] have "sess_view ks vk vs vv (snd (remove_merged emit fwd rc k (c # cands) s))
      (\<lambda>x. if \<exists>v. fst x = k \<and> (fst (snd x), snd (snd x), v) \<in> set cands then None else (m((k, st, en) := None)) x)"
    using Cons.prems(2) c by (auto simp: Let_def split_def)
  moreover have "(\<lambda>x. if \<exists>v. fst x = k \<and> (fst (snd x), snd (snd x), v) \<in> set cands then None else (m((k, st, en) := None)) x) =
      (\<lambda>x. if \<exists>v. fst x = k \<and> (fst (snd x), snd (snd x), v) \<in> set (c # cands) then None else m x)"
    by (rule ext) (auto simp: c)
  ultimately show ?case
    by simp
qed simp

lemma sess_view_find:
  assumes "serde_contract ks vk" "serde_contract vs vv" "sess_view ks vk vs vv s m" "vk k" "ee \<le> i64_max"
  shows "\<exists>rows. find_sessions k ee ls s = Some rows \<and> sorted_wrt (\<lambda>p q. (fst (snd p), fst p) < (fst (snd q), fst q)) rows \<and>
    set rows = {(st, en, v). m (k, st, en) = Some v \<and> ee \<le> en \<and> st \<le> ls}"
  using assms(3) find_sessions_holds [OF assms(1,2) _ assms(4,5)] unfolding sess_view_def by blast

lemma sess_view_valid:
  assumes "serde_contract ks vk" "serde_contract vs vv" "sess_view ks vk vs vv s m" "m x = Some v"
  shows "session_valid vk x \<and> vv v"
proof -
  obtain d where d: "session_holds ks vk vs vv s m d"
    using assms(3) by (auto simp: sess_view_def)
  show ?thesis
    by (rule session_holds_list [OF assms(1,2) d]) (use assms(4) in blast)
qed

lemma closed_entry_typed:
  assumes S: "serde_contract (sst_key_serde s) vk" "serde_contract (sst_value_serde s) vv"
    and v: "session_valid vk (k, st, en)" "vv y"
  shows "closed_entry s close (sd_ser (session_key_serde (sst_key_serde s)) (sst_changelog_topic s) (k, st, en),
       sd_ser (sst_value_serde s) (sst_changelog_topic s) y) = Some (if en \<le> close then [(k, st, en, y)] else [])"
  using session_valid_i64 [OF v(1)] serde_contract.roundtrip [OF S(2) v(2), of "sst_changelog_topic s"]
    serde_contract.roundtrip [OF S(1), of k "sst_changelog_topic s"] v(1)
  by (auto simp: closed_entry_def session_key_serde_def session_valid_def)

lemma sess_view_closed:
  assumes S: "serde_contract ks vk" "serde_contract vs vv" and h: "sess_view ks vk vs vv s m"
  shows "\<exists>rows. find_closed_sessions close s = Some rows \<and> distinct rows \<and>
    set rows = {(k, st, en, v). m (k, st, en) = Some v \<and> en \<le> close}"
proof -
  obtain d where d: "session_holds ks vk vs vv s m d"
    using h by (auto simp: sess_view_def)
  let ?t = "sst_changelog_topic s"
  let ?sk = "sd_ser (session_key_serde ks) ?t"
  obtain L where L: "backing_scan_all (sst_backing s) = map (\<lambda>(k, v). (?sk k, sd_ser vs ?t v)) L"
    "\<And>k v. (k, v) \<in> set L \<longleftrightarrow> m k = Some v" "\<And>k v. (k, v) \<in> set L \<Longrightarrow> session_valid vk k \<and> vv v"
    "sorted_wrt (\<lambda>p q. ?sk (fst p) < ?sk (fst q)) L"
    "backing_ok (sst_backing s)" "sst_key_serde s = ks" "sst_value_serde s = vs"
    by (rule session_holds_list [OF S d]) blast
  let ?row = "\<lambda>((k, st, en), v). (k, st, en, v)" and ?P = "\<lambda>((k, st, en), v). en \<le> close"
  have "collect_opt (map (closed_entry s close) (map (\<lambda>(k, v). (?sk k, sd_ser vs ?t v)) L)) =
      Some (map (\<lambda>(k, v). if ?P (k, v) then [?row (k, v)] else []) L)"
  proof (rule collect_opt_typed)
    fix x y assume "(x, y) \<in> set L"
    then show "closed_entry s close (?sk x, sd_ser vs ?t y) = Some (if ?P (x, y) then [?row (x, y)] else [])"
      using closed_entry_typed [of s vk vv "fst x" "fst (snd x)" "snd (snd x)" y close] S L(3,6,7) by (cases x) simp
  qed
  moreover have "concat (map (\<lambda>(k, v). if ?P (k, v) then [?row (k, v)] else []) L) = map ?row (filter ?P L)"
    by (induction L) auto
  ultimately have "find_closed_sessions close s = Some (map ?row (filter ?P L))"
    using L(1) by (simp add: find_closed_sessions_def sb_same)
  moreover have "distinct L"
    using L(4) by (induction L) auto
  then have "distinct (map ?row (filter ?P L))"
    by (simp add: distinct_map distinct_filter inj_on_def split_def prod_eq_iff)
  moreover have "set (map ?row (filter ?P L)) = {(k, st, en, v). m (k, st, en) = Some v \<and> en \<le> close}"
    using L(2) by force
  ultimately show ?thesis
    by blast
qed

section \<open>Sessions are the clusters of the accepted records\<close>

type_synonym ('k, 'v) arrivals = "('k \<times> int \<times> 'v) list"

definition times_of :: "'k \<Rightarrow> ('k, 'v) arrivals \<Rightarrow> int list" where
  "times_of k acc = map (\<lambda>(_, ts, _). ts) (filter (\<lambda>(k', _). k' = k) acc)"

definition values_in :: "'k \<Rightarrow> int \<times> int \<Rightarrow> ('k, 'v) arrivals \<Rightarrow> 'v multiset" where
  "values_in k c acc = mset (map (\<lambda>(_, _, v). v) (filter (\<lambda>(k', ts, _). k' = k \<and> within ts c) acc))"

definition sessions_for :: "'k \<Rightarrow> ('k \<times> int \<times> int \<Rightarrow> 'va option) \<Rightarrow> (int \<times> int) set" where
  "sessions_for k m = {c. m (k, c) \<noteq> None}"

definition session_table :: "int \<Rightarrow> ('k \<Rightarrow> 'v multiset \<Rightarrow> 'va \<Rightarrow> bool) \<Rightarrow> ('k, 'v) arrivals \<Rightarrow>
    ('k \<times> int \<times> int \<Rightarrow> 'va option) \<Rightarrow> bool" where
  "session_table g aggregates acc m \<longleftrightarrow>
     (\<forall>k. is_clusters g (set (times_of k acc)) (sessions_for k m)) \<and>
     (\<forall>k c a. m (k, c) = Some a \<longrightarrow> aggregates k (values_in k c acc) a)"

lemma times_of_append [simp]: "times_of k (acc @ [(k', ts, v)]) = times_of k acc @ (if k' = k then [ts] else [])"
  by (simp add: times_of_def)

lemma times_of_mem: "(k, t, v) \<in> set acc \<Longrightarrow> t \<in> set (times_of k acc)"
  by (force simp: times_of_def)

lemma values_in_append:
  "values_in k c (acc @ [(k', ts, v)]) = values_in k c acc + (if k' = k \<and> within ts c then {#v#} else {#})"
  by (simp add: values_in_def)

lemma session_table_finite:
  assumes "session_table g aggregates acc m"
  shows "finite (sessions_for k m)"
proof (rule finite_subset)
  show "sessions_for k m \<subseteq> set (times_of k acc) \<times> set (times_of k acc)"
    using assms is_clustersD(1) unfolding session_table_def chained_def by (fastforce simp: mem_Times_iff)
qed simp

text \<open>The records of a merged cluster are those of its parts.\<close>

lemma values_in_parts:
  assumes "distinct cs" "\<And>c d. c \<in> set cs \<Longrightarrow> d \<in> set cs \<Longrightarrow> c \<noteq> d \<Longrightarrow> apart g c d" "0 \<le> g"
  shows "(\<Sum>c \<leftarrow> cs. values_in k c acc) = mset (map (\<lambda>(_, _, v). v) (filter (\<lambda>(k', ts, _). k' = k \<and> (\<exists>c \<in> set cs. within ts c)) acc))"
  using assms(1,2)
proof (induction cs)
  case (Cons c cs)
  have dis: "\<not> (within ts c \<and> (\<exists>d \<in> set cs. within ts d))" for ts
    using Cons.prems assms(3) unfolding apart_def within_def by fastforce
  have "mset (filter (\<lambda>(k', ts, _). k' = k \<and> within ts c) acc) + mset (filter (\<lambda>(k', ts, _). k' = k \<and> (\<exists>c \<in> set cs. within ts c)) acc) =
      mset (filter (\<lambda>(k', ts, _). k' = k \<and> (\<exists>c \<in> set (c # cs). within ts c)) acc)"
    by (induction acc) (use dis in auto)
  then have "image_mset (\<lambda>(_, _, v). v) (mset (filter (\<lambda>(k', ts, _). k' = k \<and> within ts c) acc) +
        mset (filter (\<lambda>(k', ts, _). k' = k \<and> (\<exists>c \<in> set cs. within ts c)) acc)) =
      image_mset (\<lambda>(_, _, v). v) (mset (filter (\<lambda>(k', ts, _). k' = k \<and> (\<exists>c \<in> set (c # cs). within ts c)) acc))"
    by (rule arg_cong)
  moreover have "(\<Sum>c \<leftarrow> cs. values_in k c acc) = mset (map (\<lambda>(_, _, v). v) (filter (\<lambda>(k', ts, _). k' = k \<and> (\<exists>c \<in> set cs. within ts c)) acc))"
    using Cons by simp
  ultimately show ?case
    by (simp add: values_in_def del: set_simps)
qed simp

lemma merged_values:
  assumes g: "0 \<le> g" and tab: "session_table g aggregates acc m"
    and cs: "distinct cs" "set cs = {c \<in> sessions_for k m. touches g ts c}"
  shows "values_in k (merged ts (set cs)) (acc @ [(k, ts, v)]) = (\<Sum>c \<leftarrow> cs. values_in k c acc) + {#v#}"
proof -
  have cl: "is_clusters g (set (times_of k acc)) (sessions_for k m)" and fin: "finite (sessions_for k m)"
    using tab session_table_finite [OF tab] by (auto simp: session_table_def)
  have finC: "finite (set cs)"
    by simp
  note b = merged_bounds [OF finC, where ts = ts]
  have iff: "within t (merged ts (set cs)) \<longleftrightarrow> (\<exists>c \<in> set cs. within t c)" if t: "t \<in> set (times_of k acc)" for t
  proof
    assume w: "within t (merged ts (set cs))"
    obtain c where c: "c \<in> sessions_for k m" "within t c"
      using is_clustersD(3) [OF cl t] by blast
    have "touches g ts c"
    proof (rule ccontr)
      assume "\<not> touches g ts c"
      from merged_apart [OF g cl fin c(1) this] show False
        using w c(2) g by (auto simp: apart_def within_def cs(2))
    qed
    then show "\<exists>c \<in> set cs. within t c"
      using c cs(2) by blast
  next
    assume "\<exists>c \<in> set cs. within t c"
    then show "within t (merged ts (set cs))"
      using b(3,4) unfolding within_def by fastforce
  qed
  have "filter (\<lambda>(k', t, _). k' = k \<and> within t (merged ts (set cs))) acc = filter (\<lambda>(k', t, _). k' = k \<and> (\<exists>c \<in> set cs. within t c)) acc"
  proof (intro filter_cong refl)
    fix x assume "x \<in> set acc"
    then show "(case x of (k', t, _) \<Rightarrow> k' = k \<and> within t (merged ts (set cs))) = (case x of (k', t, _) \<Rightarrow> k' = k \<and> (\<exists>c \<in> set cs. within t c))"
      using iff [OF times_of_mem, of "fst (snd x)" "snd (snd x)"] by (cases x) auto
  qed
  moreover have "(\<Sum>c \<leftarrow> cs. values_in k c acc) = mset (map (\<lambda>(_, _, v). v) (filter (\<lambda>(k', ts, _). k' = k \<and> (\<exists>c \<in> set cs. within ts c)) acc))"
    using is_clustersD(2) [OF cl] by (intro values_in_parts [OF cs(1) _ g]) (simp add: cs(2))
  moreover have "within ts (merged ts (set cs))"
    using b(1,2) by (simp add: within_def)
  ultimately show ?thesis
    by (simp add: values_in_append) (simp add: values_in_def)
qed

text \<open>Replacing the touched sessions by the merged one keeps the table the clusters of the records.\<close>

lemma session_table_insert:
  assumes g: "0 \<le> g" and tab: "session_table g aggregates acc m"
    and m': "\<And>k' c. m' (k', c) = (if k' = k \<and> c = merged ts C then Some a else if k' = k \<and> c \<in> C then None else m (k', c))"
    and C: "C = {c \<in> sessions_for k m. touches g ts c}"
    and a: "aggregates k (values_in k (merged ts C) (acc @ [(k, ts, v)])) a"
  shows "session_table g aggregates (acc @ [(k, ts, v)]) m'"
proof -
  have cl: "is_clusters g (set (times_of k acc)) (sessions_for k m)" and fin: "finite (sessions_for k m)"
    using tab session_table_finite [OF tab] by (auto simp: session_table_def)
  have s': "sessions_for k m' = insert (merged ts C) {c \<in> sessions_for k m. \<not> touches g ts c}"
    unfolding sessions_for_def m' C by (auto simp: sessions_for_def)
  have other: "sessions_for k' m' = sessions_for k' m" if "k' \<noteq> k" for k'
    using that by (simp add: sessions_for_def m')
  have "is_clusters g (set (times_of k' (acc @ [(k, ts, v)]))) (sessions_for k' m')" for k'
  proof (cases "k' = k")
    case True
    then show ?thesis
      using is_clusters_insert [OF g cl fin, of ts] s' C by (simp add: insert_commute)
  next
    case False
    then show ?thesis
      using tab other [OF False] by (simp add: session_table_def)
  qed
  moreover have "aggregates k' (values_in k' c (acc @ [(k, ts, v)])) b" if "m' (k', c) = Some b" for k' c b
  proof (cases "k' = k \<and> c = merged ts C")
    case True
    then show ?thesis
      using that a m' by simp
  next
    case False
    then have m: "m (k', c) = Some b" and nC: "\<not> (k' = k \<and> c \<in> C)"
      using that m' by (auto split: if_splits)
    then have "\<not> (k' = k \<and> within ts c)"
      using g C by (auto simp: sessions_for_def touches_def within_def)
    moreover have "aggregates k' (values_in k' c acc) b"
      using tab m unfolding session_table_def by blast
    ultimately show ?thesis
      by (auto simp: values_in_append)
  qed
  ultimately show ?thesis
    by (simp add: session_table_def)
qed

text \<open>Which records are admitted: stream time advances with every record, and a record is dropped when the
  cluster it would belong to ends before the close time.\<close>

definition admit :: "int \<Rightarrow> int \<Rightarrow> ('k, 'v) rec \<Rightarrow> int \<times> ('k, 'v) arrivals \<Rightarrow> int \<times> ('k, 'v) arrivals" where
  "admit gap grace r st =
    (case r_key r of
       None \<Rightarrow> st
     | Some k \<Rightarrow>
        let ts = r_timestamp r; stream_time = max (fst st) ts in
        (stream_time,
         if \<exists>c \<in> set (clusters gap (sort (ts # times_of k (snd st)))). within ts c \<and> stream_time - grace \<le> snd c
         then snd st @ [(k, ts, r_value r)] else snd st))"

lemma cluster_of_new:
  assumes g: "0 \<le> g" and cl: "is_clusters g (set T) S" and fin: "finite S"
  shows "(\<exists>c \<in> set (clusters g (sort (ts # T))). within ts c \<and> P (snd c)) \<longleftrightarrow> P (snd (merged ts {c \<in> S. touches g ts c}))"
proof -
  let ?m = "merged ts {c \<in> S. touches g ts c}"
  have "is_clusters g (set (sort (ts # T))) (set (clusters g (sort (ts # T))))"
    by (rule clusters_ok [OF g sorted_sort])
  then have "is_clusters g (insert ts (set T)) (set (clusters g (sort (ts # T))))"
    unfolding set_sort by simp
  then have "set (clusters g (sort (ts # T))) = insert ?m {c \<in> S. \<not> touches g ts c}"
    using is_clusters_insert [OF g cl fin, of ts] by (intro is_clusters_unique [OF g]) blast+
  moreover have "within ts ?m"
    using merged_bounds(1,2) [of "{c \<in> S. touches g ts c}" ts] fin by (simp add: within_def)
  moreover have "\<not> within ts c" if "\<not> touches g ts c" for c
    using that g by (auto simp: touches_def within_def)
  ultimately show ?thesis
    by auto
qed

lemma merge_fold:
  "foldl (\<lambda>(acc, ns, ne) (st, en, v). (F acc v, min ns st, max ne en)) (a, ns :: int, ne :: int) cands =
    (foldl (\<lambda>acc (_, _, v). F acc v) a cands,
     Min (insert ns ((\<lambda>(st, en, v). st) ` set cands)), Max (insert ne ((\<lambda>(st, en, v). en) ` set cands)))"
proof (induction cands arbitrary: a ns ne)
  case (Cons c cands)
  have "Min (insert (min ns x) A) = Min (insert ns (insert x A))" "Max (insert (max ns x) A) = Max (insert ns (insert x A))"
    if "finite A" for ns x :: int and A
    using that by (cases "A = {}"; simp add: min.assoc max.assoc)+
  then show ?case
    using Cons by (cases c) simp
qed simp

lemma merge_fold_merged:
  "foldl (\<lambda>(acc, ns, ne) (st, en, v). (F acc v, min ns st, max ne en)) (a, ts, ts) cands =
    (foldl (\<lambda>acc (_, _, v). F acc v) a cands, merged ts (set (map (\<lambda>(st, en, v). (st, en)) cands)))"
  unfolding merge_fold merged_def by (simp add: image_image split_def)

text \<open>What the store returns as merge candidates, and what replacing them by the merged session does.\<close>

lemma session_merge_step:
  assumes S: "serde_contract ks vk" "serde_contract vs vv" and h: "sess_view ks vk vs vv s m"
    and g: "0 \<le> g" "g \<le> i64_max" and tab: "session_table g aggregates acc m"
    and r: "vk k" "0 \<le> ts" "ts < i64_max"
  obtains cands where "find_sessions k (sat_sub ts g) (sat_add ts g) s = Some cands"
    and "set (map (\<lambda>(st, en, v). (st, en)) cands) = {c \<in> sessions_for k m. touches g ts c}"
    and "distinct (map (\<lambda>(st, en, v). (st, en)) cands)"
    and "\<And>st en a. (st, en, a) \<in> set cands \<Longrightarrow> aggregates k (values_in k (st, en) acc) a"
    and "\<And>emit fwd rc v a ns ne. vv a \<Longrightarrow> (ns, ne) = merged ts {c \<in> sessions_for k m. touches g ts c} \<Longrightarrow>
       aggregates k ((\<Sum>c \<leftarrow> map (\<lambda>(st, en, v). (st, en)) cands. values_in k c acc) + {#v#}) a \<Longrightarrow>
       \<exists>m'. sess_view ks vk vs vv (sst_put k ns ne a (sst_set_record_context rc (snd (remove_merged emit fwd rc k cands s)))) m' \<and>
         session_table g aggregates (acc @ [(k, ts, v)]) m'"
proof -
  let ?C = "{c \<in> sessions_for k m. touches g ts c}"
  have val: "0 \<le> st \<and> st \<le> en \<and> en < i64_max \<and> vk k' \<and> vv a" if "m (k', st, en) = Some a" for k' st en a
    using sess_view_valid [OF S h that] by (simp add: session_valid_def)
  have lo: "sat_sub ts g = ts - g" and hi: "st \<le> sat_add ts g \<longleftrightarrow> st \<le> ts + g" if "st < i64_max" for st
    using r g that by (auto simp: sat_sub_def sat_add_def clamp_i64_def)
  have le: "sat_sub ts g \<le> i64_max"
    using r g lo [of 0] by simp
  obtain cands where f: "find_sessions k (sat_sub ts g) (sat_add ts g) s = Some cands"
      "sorted_wrt (\<lambda>p q. (fst (snd p), fst p) < (fst (snd q), fst q)) cands"
      "set cands = {(st, en, v). m (k, st, en) = Some v \<and> sat_sub ts g \<le> en \<and> st \<le> sat_add ts g}"
    using sess_view_find [OF S h r(1) le] by blast
  have mem: "(st, en, v) \<in> set cands \<longleftrightarrow> m (k, st, en) = Some v \<and> touches g ts (st, en)" for st en v
    using f(3) val [of k st en v] lo [of st] hi [of st] by (auto simp: touches_def)
  let ?cs = "map (\<lambda>(st, en, v). (st, en)) cands"
  have set_cs: "set ?cs = ?C"
    using mem by (force simp: sessions_for_def image_iff)
  have dist: "distinct ?cs"
    using f(2) by (induction cands) (auto simp: less_prod_def)
  have "\<exists>m'. sess_view ks vk vs vv (sst_put k ns ne a (sst_set_record_context rc (snd (remove_merged emit fwd rc k cands s)))) m' \<and>
         session_table g aggregates (acc @ [(k, ts, v)]) m'"
    if a: "vv a" and ne: "(ns, ne) = merged ts ?C" and agg: "aggregates k ((\<Sum>c \<leftarrow> ?cs. values_in k c acc) + {#v#}) a" for emit fwd rc v a ns ne
  proof -
    let ?m1 = "\<lambda>x. if \<exists>v. fst x = k \<and> (fst (snd x), snd (snd x), v) \<in> set cands then None else m x"
    have 1: "sess_view ks vk vs vv (snd (remove_merged emit fwd rc k cands s)) ?m1"
      using val mem r(1) by (intro sess_view_remove_merged [OF S h]) (force simp: session_valid_def)
    have fin: "finite ?C"
      using session_table_finite [OF tab] by simp
    have bounds: "0 \<le> ns" "ns \<le> ne" "ne < i64_max"
      using merged_bounds [OF fin, where ts = ts] ne [symmetric] r val by (auto simp: sessions_for_def)
    have 2: "sess_view ks vk vs vv (sst_put k ns ne a (sst_set_record_context rc (snd (remove_merged emit fwd rc k cands s)))) (?m1((k, ns, ne) \<mapsto> a))"
      using bounds r(1) a by (intro sess_view_step(1) [OF S] sess_view_step(3) [OF S] 1) (simp_all add: session_valid_def)
    have "session_table g aggregates (acc @ [(k, ts, v)]) (?m1((k, ns, ne) \<mapsto> a))"
    proof (rule session_table_insert [OF g(1) tab _ refl])
      show "(?m1((k, ns, ne) \<mapsto> a)) (k', c) = (if k' = k \<and> c = merged ts ?C then Some a else if k' = k \<and> c \<in> ?C then None else m (k', c))" for k' c
        using mem ne by (cases c) (auto simp: sessions_for_def)
      show "aggregates k (values_in k (merged ts ?C) (acc @ [(k, ts, v)])) a"
        using merged_values [OF g(1) tab dist set_cs, of v] agg set_cs by simp
    qed
    then show ?thesis
      using 2 by blast
  qed
  moreover have "aggregates k (values_in k (st, en) acc) a" if "(st, en, a) \<in> set cands" for st en a
    using that mem tab by (auto simp: session_table_def)
  ultimately show thesis
    using that [OF f(1) set_cs dist] by blast
qed

section \<open>The processors keep the table\<close>

text \<open>What the user's functions must satisfy: \<open>aggregates k M a\<close> says that \<open>a\<close> is an aggregate for key \<open>k\<close> of the
  values \<open>M\<close> (at most \<open>N\<close> of them), and it determines nothing about the order.\<close>

definition aggregation :: "nat \<Rightarrow> ('k \<Rightarrow> 'v multiset \<Rightarrow> 'va \<Rightarrow> bool) \<Rightarrow> 'va \<Rightarrow> ('k \<Rightarrow> 'v \<Rightarrow> 'va \<Rightarrow> 'va) \<Rightarrow>
    ('k \<Rightarrow> 'va \<Rightarrow> 'va \<Rightarrow> 'va) \<Rightarrow> ('va \<Rightarrow> bool) \<Rightarrow> bool" where
  "aggregation N aggregates init agg merger vv \<longleftrightarrow>
     (\<forall>k. aggregates k {#} init) \<and>
     (\<forall>k M v a. aggregates k M a \<longrightarrow> size M < N \<longrightarrow> aggregates k (M + {#v#}) (agg k v a)) \<and>
     (\<forall>k M M' a b. aggregates k M a \<longrightarrow> aggregates k M' b \<longrightarrow> size (M + M') \<le> N \<longrightarrow> aggregates k (M + M') (merger k a b)) \<and>
     (\<forall>k M a. aggregates k M a \<longrightarrow> vv a)"

definition record_ok :: "('k \<Rightarrow> bool) \<Rightarrow> ('k, 'v) rec \<Rightarrow> bool" where
  "record_ok vk r \<longleftrightarrow> (case r_key r of None \<Rightarrow> False | Some k \<Rightarrow> vk k) \<and> 0 \<le> r_timestamp r \<and> r_timestamp r < i64_max"

lemma size_parts:
  assumes "session_table g aggregates acc m" "set cs \<subseteq> sessions_for k m" "distinct cs" "0 \<le> g"
  shows "size (\<Sum>c \<leftarrow> cs. values_in k c acc) \<le> length acc"
proof -
  have "is_clusters g (set (times_of k acc)) (sessions_for k m)"
    using assms(1) by (simp add: session_table_def)
  then have "(\<Sum>c \<leftarrow> cs. values_in k c acc) = mset (map (\<lambda>(_, _, v). v) (filter (\<lambda>(k', ts, _). k' = k \<and> (\<exists>c \<in> set cs. within ts c)) acc))"
    using is_clustersD(2) assms(2) by (intro values_in_parts [OF assms(3) _ assms(4)]) blast
  then show ?thesis
    by (simp only: size_mset length_map length_filter_le)
qed

lemma merge_aggregates:
  assumes agg: "aggregation N aggregates init agg merger vv"
  shows "aggregates k M a \<Longrightarrow> \<forall>(st, en, v) \<in> set cands. aggregates k (f (st, en)) v \<Longrightarrow>
    size (M + (\<Sum>c \<leftarrow> map (\<lambda>(st, en, v). (st, en)) cands. f c)) \<le> N \<Longrightarrow>
    aggregates k (M + (\<Sum>c \<leftarrow> map (\<lambda>(st, en, v). (st, en)) cands. f c)) (foldl (\<lambda>acc (_, _, v). merger k acc v) a cands)"
proof (induction cands arbitrary: M a)
  case (Cons c cands)
  obtain st en v where c: "c = (st, en, v)"
    by (cases c)
  have "aggregates k (M + f (st, en)) (merger k a v)"
    using agg Cons.prems c unfolding aggregation_def by auto
  then show ?case
    using Cons.IH [of "M + f (st, en)" "merger k a v"] Cons.prems c by (simp add: add.assoc)
qed simp

lemma emit_closed_total:
  assumes "serde_contract ks vk" "serde_contract vs vv" "sess_view ks vk vs vv s m"
  shows "\<exists>final. emit_closed_sessions emitted close s = Some final"
  using sess_view_closed [OF assms, of "sat_sub close 1"] by (auto simp: emit_closed_sessions_def)

text \<open>The two processors differ only in how they fold: the common step.\<close>

definition session_core :: "emit_strategy \<Rightarrow> tuple_forwarder \<Rightarrow> int \<Rightarrow> int \<Rightarrow> int \<Rightarrow> 'a \<Rightarrow> ('a \<Rightarrow> 'va \<Rightarrow> 'a) \<Rightarrow> ('a \<Rightarrow> 'va) \<Rightarrow>
    record_context \<Rightarrow> 'k \<Rightarrow> int \<Rightarrow> ('k, 'va) session_store \<Rightarrow> (('k, 'va) emitted \<times> int \<times> ('k, 'va) session_store) option" where
  "session_core emit fwd gap close emitted seed join result rc key ts s =
    do { cands \<leftarrow> find_sessions key (sat_sub ts gap) (sat_add ts gap) s;
         let (acc, new_start, new_end) = foldl (\<lambda>(acc, ns, ne) (st, en, v). (join acc v, min ns st, max ne en)) (seed, ts, ts) cands;
         (if session_is_closed new_end close then Some ([], emitted, s)
          else do {
            let (removed, s1) = remove_merged emit fwd rc key cands s;
            let s2 = sst_put key new_start new_end (result acc) (sst_set_record_context rc s1);
            let upd = (if is_on_update emit
                       then maybe_forward_change fwd (session_of key new_start new_end) (change_update None (result acc)) new_end
                       else []);
            (if is_on_close emit
             then do { final \<leftarrow> emit_closed_sessions emitted close s2; Some (removed @ upd @ final, close, s2) }
             else Some (removed @ upd, emitted, s2)) }) }"

lemma session_state_same [simp]:
  "p\<lparr>sa_stream_time := t, sa_last_emitted_close := sa_last_emitted_close p\<rparr> = p\<lparr>sa_stream_time := t\<rparr>"
  "q\<lparr>sr_stream_time := t, sr_last_emitted_close := sr_last_emitted_close q\<rparr> = q\<lparr>sr_stream_time := t\<rparr>"
  by (cases p; cases q; simp)+

lemma sa_process_core:
  "sa_process rc r p s =
    do { key \<leftarrow> r_key r;
         let stm = max (sa_stream_time p) (r_timestamp r);
         (out, emitted, s') \<leftarrow> session_core (sa_emit p) (sa_forwarder p) (sa_gap p) (sat_sub stm (sa_grace p))
           (sa_last_emitted_close p) (sa_init p) (sa_merger p key) (sa_agg p key (r_value r)) rc key (r_timestamp r) s;
         Some (out, p\<lparr>sa_stream_time := stm, sa_last_emitted_close := emitted\<rparr>, s') }"
  by (auto simp: sa_process_def session_core_def Let_def split: bind_splits prod.splits)

lemma sr_process_core:
  "sr_process rc r p s =
    do { key \<leftarrow> r_key r;
         let stm = max (sr_stream_time p) (r_timestamp r);
         (out, emitted, s') \<leftarrow> session_core (sr_emit p) (sr_forwarder p) (sr_gap p) (sat_sub stm (sr_grace p))
           (sr_last_emitted_close p) None (\<lambda>acc v. Some (case acc of None \<Rightarrow> v | Some a \<Rightarrow> sr_reducer p a v))
           (\<lambda>acc. case acc of None \<Rightarrow> r_value r | Some a \<Rightarrow> sr_reducer p a (r_value r)) rc key (r_timestamp r) s;
         Some (out, p\<lparr>sr_stream_time := stm, sr_last_emitted_close := emitted\<rparr>, s') }"
  by (auto simp: sr_process_def session_core_def Let_def split: bind_splits prod.splits)

definition session_keeps :: "'k serde \<Rightarrow> ('k \<Rightarrow> bool) \<Rightarrow> 'va serde \<Rightarrow> ('va \<Rightarrow> bool) \<Rightarrow> ('k \<Rightarrow> 'v multiset \<Rightarrow> 'va \<Rightarrow> bool) \<Rightarrow>
    int \<Rightarrow> nat \<Rightarrow> int \<times> ('k, 'v) arrivals \<Rightarrow> ('k, 'va) session_store \<Rightarrow> bool" where
  "session_keeps ks vk vs vv aggregates gap n st s \<longleftrightarrow> fst st < i64_max \<and> length (snd st) \<le> n \<and>
     (\<exists>m. sess_view ks vk vs vv s m \<and> session_table gap aggregates (snd st) m)"

lemma session_core_keeps:
  assumes S: "serde_contract ks vk" "serde_contract vs vv"
    and cfg: "0 \<le> gap" "gap \<le> i64_max" "0 \<le> grace" "grace \<le> i64_max"
    and inv: "session_keeps ks vk vs vv aggregates gap n st s" and r: "record_ok vk r" "r_key r = Some k" and n: "n < N"
    and agg: "\<And>cands. \<forall>(st', en, a) \<in> set cands. aggregates k (values_in k (st', en) (snd st)) a \<Longrightarrow>
        size (\<Sum>c \<leftarrow> map (\<lambda>(st, en, v). (st, en)) cands. values_in k c (snd st)) < N \<Longrightarrow>
        aggregates k ((\<Sum>c \<leftarrow> map (\<lambda>(st, en, v). (st, en)) cands. values_in k c (snd st)) + {#r_value r#})
          (result (foldl (\<lambda>acc (_, _, v). join acc v) seed cands))"
    and vv: "\<And>M a. aggregates k M a \<Longrightarrow> vv a"
    and stm: "stm = max (fst st) (r_timestamp r)"
  shows "\<exists>out l s'. session_core emit fwd gap (sat_sub stm grace) emitted seed join result rc k (r_timestamp r) s = Some (out, l, s') \<and>
    session_keeps ks vk vs vv aggregates gap (Suc n) (admit gap grace r st) s' \<and> fst (admit gap grace r st) = stm"
proof -
  obtain m where m: "sess_view ks vk vs vv s m" "session_table gap aggregates (snd st) m"
    using inv by (auto simp: session_keeps_def)
  have k: "vk k" and ts: "0 \<le> r_timestamp r" "r_timestamp r < i64_max"
    using r by (auto simp: record_ok_def)
  let ?ts = "r_timestamp r"
  let ?C = "{c \<in> sessions_for k m. touches gap ?ts c}"
  obtain cands where c: "find_sessions k (sat_sub ?ts gap) (sat_add ?ts gap) s = Some cands"
    "set (map (\<lambda>(st, en, v). (st, en)) cands) = ?C" "distinct (map (\<lambda>(st, en, v). (st, en)) cands)"
    "\<And>st' en a. (st', en, a) \<in> set cands \<Longrightarrow> aggregates k (values_in k (st', en) (snd st)) a"
    "\<And>emit fwd rc v a ns ne. vv a \<Longrightarrow> (ns, ne) = merged ?ts ?C \<Longrightarrow>
       aggregates k ((\<Sum>c \<leftarrow> map (\<lambda>(st, en, v). (st, en)) cands. values_in k c (snd st)) + {#v#}) a \<Longrightarrow>
       \<exists>m'. sess_view ks vk vs vv (sst_put k ns ne a (sst_set_record_context rc (snd (remove_merged emit fwd rc k cands s)))) m' \<and>
         session_table gap aggregates (snd st @ [(k, ?ts, v)]) m'"
    by (rule session_merge_step [OF S m(1) cfg(1,2) m(2) k ts]) blast
  let ?M = "\<Sum>c \<leftarrow> map (\<lambda>(st, en, v). (st, en)) cands. values_in k c (snd st)"
  let ?a = "foldl (\<lambda>acc (_, _, v). join acc v) seed cands"
  have sz: "size ?M \<le> length (snd st)"
    using c(2) by (intro size_parts [OF m(2) _ c(3) cfg(1)]) blast
  have a: "aggregates k (?M + {#r_value r#}) (result ?a)"
    using sz n inv c(4) by (intro agg) (auto simp: session_keeps_def)
  obtain ns ne where ne: "merged ?ts ?C = (ns, ne)"
    by fastforce
  have close: "sat_sub stm grace = stm - grace"
    using cfg(3,4) ts inv stm by (auto simp: sat_sub_def clamp_i64_def session_keeps_def)
  have adm: "admit gap grace r st = (stm, if stm - grace \<le> ne then snd st @ [(k, ?ts, r_value r)] else snd st)"
    using cluster_of_new [OF cfg(1), of "times_of k (snd st)" "sessions_for k m" ?ts "\<lambda>e. stm - grace \<le> e"] m(2)
      session_table_finite [OF m(2)] ne r(2) stm by (auto simp: admit_def Let_def session_table_def)
  have fold: "foldl (\<lambda>(acc, ns, ne) (st, en, v). (join acc v, min ns st, max ne en)) (seed, ?ts, ?ts) cands = (?a, ns, ne)"
    unfolding merge_fold_merged c(2) ne ..
  have len: "length (snd st) \<le> n" and lt: "stm < i64_max"
    using inv ts stm by (auto simp: session_keeps_def)
  show ?thesis
  proof (cases "stm - grace \<le> ne")
    case False
    then have "session_core emit fwd gap (sat_sub stm grace) emitted seed join result rc k ?ts s = Some ([], emitted, s)"
      by (simp add: session_core_def c(1) close fold session_is_closed_def Let_def)
    then show ?thesis
      using adm False len lt m by (auto simp: session_keeps_def)
  next
    case True
    let ?s2 = "sst_put k ns ne (result ?a) (sst_set_record_context rc (snd (remove_merged emit fwd rc k cands s)))"
    obtain m' where m': "sess_view ks vk vs vv ?s2 m'" "session_table gap aggregates (snd st @ [(k, ?ts, r_value r)]) m'"
      using c(5) [OF vv [OF a] ne [symmetric] a] by blast
    obtain final where final: "emit_closed_sessions emitted (stm - grace) ?s2 = Some final"
      using emit_closed_total [OF S m'(1)] by blast
    have "\<exists>out l. session_core emit fwd gap (sat_sub stm grace) emitted seed join result rc k ?ts s = Some (out, l, ?s2)"
      using True final by (cases "remove_merged emit fwd rc k cands s")
        (simp add: session_core_def c(1) close fold session_is_closed_def Let_def)
    then show ?thesis
      using adm True len lt m' by (auto simp: session_keeps_def)
  qed
qed

text \<open>The sessions a client reads after a run.\<close>

lemma session_keeps_find:
  assumes S: "serde_contract ks vk" "serde_contract vs vv" and g: "0 \<le> gap"
    and inv: "session_keeps ks vk vs vv aggregates gap n st s" and k: "vk k"
  shows "\<exists>rows. find_sessions k 0 i64_max s = Some rows \<and>
    map (\<lambda>(st, en, _). (st, en)) rows = clusters gap (sort (times_of k (snd st))) \<and>
    (\<forall>(s', e, a) \<in> set rows. aggregates k (values_in k (s', e) (snd st)) a)"
proof -
  obtain m where m: "sess_view ks vk vs vv s m" "session_table gap aggregates (snd st) m"
    using inv by (auto simp: session_keeps_def)
  obtain rows where rows: "find_sessions k 0 i64_max s = Some rows" "sorted_wrt (\<lambda>p q. (fst (snd p), fst p) < (fst (snd q), fst q)) rows"
      "set rows = {(st, en, v). m (k, st, en) = Some v \<and> 0 \<le> en \<and> st \<le> i64_max}"
    using sess_view_find [OF S m(1) k, of 0 i64_max] by auto
  have all: "set rows = {(st, en, v). m (k, st, en) = Some v}"
    using rows(3) sess_view_valid [OF S m(1)] by (fastforce simp: session_valid_def)
  let ?cs = "map (\<lambda>(st, en, _). (st, en)) rows"
  have cl: "is_clusters gap (set (times_of k (snd st))) (sessions_for k m)"
    using m(2) by (simp add: session_table_def)
  have setcs: "set ?cs = sessions_for k m"
    using all by (force simp: sessions_for_def image_iff)
  let ?T = "sort (times_of k (snd st))"
  have "is_clusters gap (set ?T) (set (clusters gap ?T))"
    by (rule clusters_ok [OF g sorted_sort])
  then have same: "set (clusters gap ?T) = set ?cs"
    unfolding setcs using cl by (intro is_clusters_unique [OF g]) auto
  have ord: "fst c < fst d" if "c \<in> set ?cs" "d \<in> set ?cs" "(snd c, fst c) < (snd d, fst d)" for c d
  proof -
    have "c \<noteq> d" "chained gap (set (times_of k (snd st))) c" "chained gap (set (times_of k (snd st))) d"
      using that is_clustersD(1) [OF cl] setcs by auto
    moreover have "apart gap c d"
      using that(1,2) \<open>c \<noteq> d\<close> unfolding setcs by (rule is_clustersD(2) [OF cl])
    ultimately show ?thesis
      using that(3) g by (auto simp: apart_def chained_def)
  qed
  have "sorted_wrt (\<lambda>c d. (snd c, fst c) < (snd d, fst d)) ?cs"
    using rows(2) by (simp add: sorted_wrt_map split_def)
  then have "sorted_wrt (\<lambda>c d. fst c < fst d) ?cs"
    by (rule sorted_wrt_mono_rel [rotated]) (rule ord)
  then have "?cs = clusters gap ?T"
    using clusters_sorted [OF g sorted_sort] same by (intro sorted_wrt_unique [where h = fst]) auto
  moreover have "\<forall>(s', e, a) \<in> set rows. aggregates k (values_in k (s', e) (snd st)) a"
    using all m(2) by (auto simp: session_table_def)
  ultimately show ?thesis
    using rows(1) by blast
qed

section \<open>Properties\<close>

abbreviation sa_step :: "record_context \<times> ('k, 'v) rec \<Rightarrow> ('k, 'v, 'va) session_aggregate \<Rightarrow> ('k, 'va) session_store \<Rightarrow>
    (('k windowed, 'va change) rec list \<times> ('k, 'v, 'va) session_aggregate \<times> ('k, 'va) session_store) option" where
  "sa_step \<equiv> \<lambda>i. sa_process (fst i) (snd i)"

abbreviation sr_step :: "record_context \<times> ('k, 'v) rec \<Rightarrow> ('k, 'v) session_reduce \<Rightarrow> ('k, 'v) session_store \<Rightarrow>
    (('k windowed, 'v change) rec list \<times> ('k, 'v) session_reduce \<times> ('k, 'v) session_store) option" where
  "sr_step \<equiv> \<lambda>i. sr_process (fst i) (snd i)"

definition admitted :: "int \<Rightarrow> int \<Rightarrow> (record_context \<times> ('k, 'v) rec) list \<Rightarrow> ('k, 'v) arrivals" where
  "admitted gap grace inputs = snd (fold (\<lambda>i. admit gap grace (snd i)) inputs (i64_min, []))"

lemma session_keeps_fresh:
  "session_keeps ks vk vs vv aggregates gap 0 (i64_min, []) (sst_fresh cached name ks vs topic)"
  using sess_view_fresh by (force simp: session_keeps_def session_table_def times_of_def sessions_for_def is_clusters_def)

definition sa_keeps :: "'k serde \<Rightarrow> ('k \<Rightarrow> bool) \<Rightarrow> 'va serde \<Rightarrow> ('va \<Rightarrow> bool) \<Rightarrow> ('k \<Rightarrow> 'v multiset \<Rightarrow> 'va \<Rightarrow> bool) \<Rightarrow>
    ('k, 'v, 'va) session_aggregate \<Rightarrow> nat \<Rightarrow> int \<times> ('k, 'v) arrivals \<Rightarrow> ('k, 'v, 'va) session_aggregate \<Rightarrow> ('k, 'va) session_store \<Rightarrow> bool" where
  "sa_keeps ks vk vs vv aggregates p0 n st p s \<longleftrightarrow>
     p = p0\<lparr>sa_stream_time := fst st, sa_last_emitted_close := sa_last_emitted_close p\<rparr> \<and>
     session_keeps ks vk vs vv aggregates (sa_gap p0) n st s"

lemma sa_step_keeps:
  assumes S: "serde_contract ks vk" "serde_contract vs vv"
    and cfg: "0 \<le> sa_gap p0" "sa_gap p0 \<le> i64_max" "0 \<le> sa_grace p0" "sa_grace p0 \<le> i64_max"
    and agg: "aggregation N aggregates (sa_init p0) (sa_agg p0) (sa_merger p0) vv"
    and kp: "sa_keeps ks vk vs vv aggregates p0 n st p s" and i: "record_ok vk (snd i)" and n: "n < N"
  shows "\<exists>out p' s'. sa_step i p s = Some (out, p', s') \<and> sa_keeps ks vk vs vv aggregates p0 (Suc n) (admit (sa_gap p0) (sa_grace p0) (snd i) st) p' s'"
proof -
  let ?r = "snd i"
  obtain key where key: "r_key ?r = Some key"
    using i by (auto simp: record_ok_def split: option.splits)
  have pe: "p = p0\<lparr>sa_stream_time := fst st, sa_last_emitted_close := sa_last_emitted_close p\<rparr>"
    and sk: "session_keeps ks vk vs vv aggregates (sa_gap p0) n st s"
    using kp by (auto simp: sa_keeps_def)
  have p: "sa_gap p = sa_gap p0" "sa_grace p = sa_grace p0" "sa_init p = sa_init p0" "sa_agg p = sa_agg p0" "sa_merger p = sa_merger p0"
    "sa_stream_time p = fst st" "p\<lparr>sa_stream_time := t, sa_last_emitted_close := l\<rparr> = p0\<lparr>sa_stream_time := t, sa_last_emitted_close := l\<rparr>" for t l
    by (subst pe, simp)+
  have "aggregates key ((\<Sum>c \<leftarrow> map (\<lambda>(st, en, v). (st, en)) cands. values_in key c (snd st)) + {#r_value ?r#})
        (sa_agg p0 key (r_value ?r) (foldl (\<lambda>acc (_, _, v). sa_merger p0 key acc v) (sa_init p0) cands))"
    if "\<forall>(st', en, a) \<in> set cands. aggregates key (values_in key (st', en) (snd st)) a"
      "size (\<Sum>c \<leftarrow> map (\<lambda>(st, en, v). (st, en)) cands. values_in key c (snd st)) < N" for cands
    using merge_aggregates [OF agg, of key "{#}" "sa_init p0" cands "\<lambda>c. values_in key c (snd st)"] that agg
    by (auto simp: aggregation_def)
  moreover have "vv a" if "aggregates key M a" for M a
    using agg that by (auto simp: aggregation_def)
  ultimately have "\<exists>out l s'. session_core (sa_emit p) (sa_forwarder p) (sa_gap p0) (sat_sub (max (fst st) (r_timestamp ?r)) (sa_grace p0))
      (sa_last_emitted_close p) (sa_init p0) (sa_merger p0 key) (sa_agg p0 key (r_value ?r)) (fst i) key (r_timestamp ?r) s =
      Some (out, l, s') \<and> session_keeps ks vk vs vv aggregates (sa_gap p0) (Suc n) (admit (sa_gap p0) (sa_grace p0) ?r st) s' \<and>
      fst (admit (sa_gap p0) (sa_grace p0) ?r st) = max (fst st) (r_timestamp ?r)"
    by (rule session_core_keeps [OF S cfg sk i key n _ _ refl])
  then show ?thesis
    by (auto simp: sa_process_core key p Let_def sa_keeps_def)
qed

text \<open>The reduce processor: the accumulator starts empty and the first value seeds it.\<close>

definition reduction :: "nat \<Rightarrow> ('k \<Rightarrow> 'v multiset \<Rightarrow> 'v \<Rightarrow> bool) \<Rightarrow> ('v \<Rightarrow> 'v \<Rightarrow> 'v) \<Rightarrow> ('v \<Rightarrow> bool) \<Rightarrow> bool" where
  "reduction N aggregates reducer vv \<longleftrightarrow>
     (\<forall>k v. vv v \<longrightarrow> aggregates k {#v#} v) \<and>
     (\<forall>k M M' a b. aggregates k M a \<longrightarrow> aggregates k M' b \<longrightarrow> size (M + M') \<le> N \<longrightarrow> aggregates k (M + M') (reducer a b)) \<and>
     (\<forall>k M a. aggregates k M a \<longrightarrow> vv a)"

lemma reduction_add:
  assumes "reduction N aggregates reducer vv" "aggregates k M a" "vv v" "size M < N"
  shows "aggregates k (add_mset v M) (reducer a v)"
proof -
  have "aggregates k (M + {#v#}) (reducer a v)"
    using assms unfolding reduction_def by (metis Suc_leI size_single size_union Suc_eq_plus1)
  then show ?thesis
    by simp
qed

lemma reduce_aggregates:
  assumes red: "reduction N aggregates reducer vv"
  shows "case acc of None \<Rightarrow> M = {#} | Some a \<Rightarrow> aggregates k M a \<Longrightarrow> \<forall>(st, en, v) \<in> set cands. aggregates k (f (st, en)) v \<Longrightarrow>
    size (M + (\<Sum>c \<leftarrow> map (\<lambda>(st, en, v). (st, en)) cands. f c)) \<le> N \<Longrightarrow>
    (case foldl (\<lambda>acc (_, _, v). Some (case acc of None \<Rightarrow> v | Some a \<Rightarrow> reducer a v)) acc cands of
       None \<Rightarrow> M + (\<Sum>c \<leftarrow> map (\<lambda>(st, en, v). (st, en)) cands. f c) = {#}
     | Some a \<Rightarrow> aggregates k (M + (\<Sum>c \<leftarrow> map (\<lambda>(st, en, v). (st, en)) cands. f c)) a)"
proof (induction cands arbitrary: M acc)
  case (Cons c cands)
  obtain st en v where c: "c = (st, en, v)"
    by (cases c)
  have "aggregates k (M + f (st, en)) (case acc of None \<Rightarrow> v | Some a \<Rightarrow> reducer a v)"
    using red Cons.prems c unfolding reduction_def by (auto split: option.splits)
  then show ?case
    using Cons.IH [of "M + f (st, en)" "Some (case acc of None \<Rightarrow> v | Some a \<Rightarrow> reducer a v)"] Cons.prems c
    by (simp add: add.assoc cong: option.case_cong)
qed (simp cong: option.case_cong)

definition sr_keeps :: "'k serde \<Rightarrow> ('k \<Rightarrow> bool) \<Rightarrow> 'v serde \<Rightarrow> ('v \<Rightarrow> bool) \<Rightarrow> ('k \<Rightarrow> 'v multiset \<Rightarrow> 'v \<Rightarrow> bool) \<Rightarrow>
    ('k, 'v) session_reduce \<Rightarrow> nat \<Rightarrow> int \<times> ('k, 'v) arrivals \<Rightarrow> ('k, 'v) session_reduce \<Rightarrow> ('k, 'v) session_store \<Rightarrow> bool" where
  "sr_keeps ks vk vs vv aggregates p0 n st p s \<longleftrightarrow>
     p = p0\<lparr>sr_stream_time := fst st, sr_last_emitted_close := sr_last_emitted_close p\<rparr> \<and>
     session_keeps ks vk vs vv aggregates (sr_gap p0) n st s"

lemma sr_step_keeps:
  assumes S: "serde_contract ks vk" "serde_contract vs vv"
    and cfg: "0 \<le> sr_gap p0" "sr_gap p0 \<le> i64_max" "0 \<le> sr_grace p0" "sr_grace p0 \<le> i64_max"
    and red: "reduction N aggregates (sr_reducer p0) vv"
    and kp: "sr_keeps ks vk vs vv aggregates p0 n st p s" and i: "record_ok vk (snd i)" "vv (r_value (snd i))" and n: "n < N"
  shows "\<exists>out p' s'. sr_step i p s = Some (out, p', s') \<and> sr_keeps ks vk vs vv aggregates p0 (Suc n) (admit (sr_gap p0) (sr_grace p0) (snd i) st) p' s'"
proof -
  let ?r = "snd i"
  let ?join = "\<lambda>acc v. Some (case acc of None \<Rightarrow> v | Some a \<Rightarrow> sr_reducer p0 a v)"
  let ?result = "\<lambda>acc. case acc of None \<Rightarrow> r_value ?r | Some a \<Rightarrow> sr_reducer p0 a (r_value ?r)"
  obtain key where key: "r_key ?r = Some key"
    using i(1) by (auto simp: record_ok_def split: option.splits)
  have pe: "p = p0\<lparr>sr_stream_time := fst st, sr_last_emitted_close := sr_last_emitted_close p\<rparr>"
    and sk: "session_keeps ks vk vs vv aggregates (sr_gap p0) n st s"
    using kp by (auto simp: sr_keeps_def)
  have p: "sr_gap p = sr_gap p0" "sr_grace p = sr_grace p0" "sr_reducer p = sr_reducer p0"
    "sr_stream_time p = fst st" "p\<lparr>sr_stream_time := t, sr_last_emitted_close := l\<rparr> = p0\<lparr>sr_stream_time := t, sr_last_emitted_close := l\<rparr>" for t l
    by (subst pe, simp)+
  have "aggregates key ((\<Sum>c \<leftarrow> map (\<lambda>(st, en, v). (st, en)) cands. values_in key c (snd st)) + {#r_value ?r#})
        (?result (foldl (\<lambda>acc (_, _, v). ?join acc v) None cands))"
    if "\<forall>(st', en, a) \<in> set cands. aggregates key (values_in key (st', en) (snd st)) a"
      "size (\<Sum>c \<leftarrow> map (\<lambda>(st, en, v). (st, en)) cands. values_in key c (snd st)) < N" for cands
    using reduce_aggregates [OF red, of "{#}" key None cands "\<lambda>c. values_in key c (snd st)"] that red i(2) reduction_add [OF red]
    by (auto simp: reduction_def split: option.splits)
  moreover have "vv a" if "aggregates key M a" for M a
    using red that by (auto simp: reduction_def)
  ultimately have "\<exists>out l s'. session_core (sr_emit p) (sr_forwarder p) (sr_gap p0) (sat_sub (max (fst st) (r_timestamp ?r)) (sr_grace p0))
      (sr_last_emitted_close p) None ?join ?result (fst i) key (r_timestamp ?r) s =
      Some (out, l, s') \<and> session_keeps ks vk vs vv aggregates (sr_gap p0) (Suc n) (admit (sr_gap p0) (sr_grace p0) ?r st) s' \<and>
      fst (admit (sr_gap p0) (sr_grace p0) ?r st) = max (fst st) (r_timestamp ?r)"
    by (rule session_core_keeps [OF S cfg sk i(1) key n _ _ refl])
  then show ?thesis
    unfolding sr_process_core p by (auto simp: key Let_def sr_keeps_def)
qed

text \<open>C17: Session aggregation computes the sessions of the stream.  After any sequence of records on a fresh
  session store, cached or not and under either emit strategy, the sessions of a key are exactly the clusters of
  the timestamps of its admitted records (sorted and cut where neighbours are more than the gap apart), in
  ascending order, and each holds an aggregate of exactly the values of the records inside it.  The order of
  arrival does not matter, and no input makes the processor panic.\<close>

theorem session_aggregate_clusters:
  assumes S: "serde_contract ks vk" "serde_contract vs vv"
    and cfg: "0 \<le> sa_gap p0" "sa_gap p0 \<le> i64_max" "0 \<le> sa_grace p0" "sa_grace p0 \<le> i64_max" "sa_stream_time p0 = i64_min"
    and agg: "aggregation (length inputs) aggregates (sa_init p0) (sa_agg p0) (sa_merger p0) vv"
    and inputs: "\<forall>i \<in> set inputs. record_ok vk (snd i)" and k: "vk k"
  shows "\<exists>outs p s rows. proc_run sa_step inputs p0 (sst_fresh cached name ks vs topic) = Some (outs, p, s) \<and>
    find_sessions k 0 i64_max s = Some rows \<and>
    map (\<lambda>(st, en, _). (st, en)) rows = clusters (sa_gap p0) (sort (times_of k (admitted (sa_gap p0) (sa_grace p0) inputs))) \<and>
    (\<forall>(st, en, a) \<in> set rows. aggregates k (values_in k (st, en) (admitted (sa_gap p0) (sa_grace p0) inputs)) a)"
proof -
  have "sa_keeps ks vk vs vv aggregates p0 0 (i64_min, []) p0 (sst_fresh cached name ks vs topic)"
    using cfg(5) session_keeps_fresh by (cases p0) (auto simp: sa_keeps_def)
  from proc_run_inv [where step = sa_step and upd = "\<lambda>i. admit (sa_gap p0) (sa_grace p0) (snd i)" and N = "length inputs", OF sa_step_keeps [OF S cfg(1-4) agg] this inputs]
  obtain outs p s where r: "proc_run sa_step inputs p0 (sst_fresh cached name ks vs topic) = Some (outs, p, s)"
      "session_keeps ks vk vs vv aggregates (sa_gap p0) (length inputs) (fold (\<lambda>i. admit (sa_gap p0) (sa_grace p0) (snd i)) inputs (i64_min, [])) s"
    by (auto simp: sa_keeps_def)
  show ?thesis
    using r(1) session_keeps_find [OF S cfg(1) r(2) k] unfolding admitted_def by blast
qed

text \<open>Counting per session, with a key of its own and an out-of-order record that joins two sessions.\<close>

definition count_sessions :: "(string, int, int) session_aggregate" where
  "count_sessions = \<lparr>sa_store_name = ''s'', sa_gap = 10, sa_init = 0, sa_agg = (\<lambda>_ _ n. n + 1), sa_merger = (\<lambda>_ a b. a + b),
     sa_emit = OnWindowClose, sa_grace = 100, sa_stream_time = i64_min, sa_last_emitted_close = i64_min,
     sa_forwarder = tf_resolve False\<rparr>"

abbreviation sample_context :: record_context where
  "sample_context \<equiv> \<lparr>rc_topic = ''in'', rc_partition = 0, rc_offset = 0, rc_timestamp = 0\<rparr>"

definition session_inputs :: "(record_context \<times> (string, int) rec) list" where
  "session_inputs = map (\<lambda>(k, ts). (sample_context, rec_new (Some k) 7 ts)) [(''a'', 20), (''a'', 38), (''b'', 25), (''a'', 29), (''a'', 60)]"

lemma session_inputs_ok: "\<forall>i \<in> set session_inputs. record_ok (\<lambda>s. utf8_valid (str_bytes s)) (snd i) \<and> in_i64 (r_value (snd i))"
  by (simp add: session_inputs_def record_ok_def rec_new_def str_bytes_def in_i64_def)

lemma session_inputs_clusters:
  "clusters 10 (sort (times_of ''a'' (admitted 10 100 session_inputs))) = [(20, 38), (60, 60)]"
  by (simp add: session_inputs_def admitted_def admit_def rec_new_def times_of_def within_def)

lemma session_aggregate_clusters_witness:
  "\<exists>outs p s rows. proc_run sa_step session_inputs count_sessions (sst_fresh True ''s'' StringSerde I64Serde ''t'') = Some (outs, p, s) \<and>
    find_sessions ''a'' 0 i64_max s = Some rows \<and> map (\<lambda>(st, en, _). (st, en)) rows = [(20, 38), (60, 60)]"
proof -
  have "aggregation (length session_inputs) (\<lambda>k M a. a = int (size M) \<and> size M \<le> 5) (sa_init count_sessions) (sa_agg count_sessions)
      (sa_merger count_sessions) in_i64"
    by (auto simp: aggregation_def in_i64_def count_sessions_def session_inputs_def)
  from session_aggregate_clusters [where ?p0.0 = count_sessions and k = "''a''" and cached = True and name = "''s''" and topic = "''t''",
      OF string_serde.serde_contract_axioms i64_serde.serde_contract_axioms _ _ _ _ _ this]
  show ?thesis
    using session_inputs_ok session_inputs_clusters by (auto simp: str_bytes_def count_sessions_def)
qed

text \<open>C25: Session reduction computes the sessions of the stream: as for aggregation, the sessions of a key are the
  clusters of its admitted records, and each holds a reduction of exactly the values inside it; the first value
  seeds the accumulator.\<close>

theorem session_reduce_clusters:
  assumes S: "serde_contract ks vk" "serde_contract vs vv"
    and cfg: "0 \<le> sr_gap p0" "sr_gap p0 \<le> i64_max" "0 \<le> sr_grace p0" "sr_grace p0 \<le> i64_max" "sr_stream_time p0 = i64_min"
    and red: "reduction (length inputs) aggregates (sr_reducer p0) vv"
    and inputs: "\<forall>i \<in> set inputs. record_ok vk (snd i) \<and> vv (r_value (snd i))" and k: "vk k"
  shows "\<exists>outs p s rows. proc_run sr_step inputs p0 (sst_fresh cached name ks vs topic) = Some (outs, p, s) \<and>
    find_sessions k 0 i64_max s = Some rows \<and>
    map (\<lambda>(st, en, _). (st, en)) rows = clusters (sr_gap p0) (sort (times_of k (admitted (sr_gap p0) (sr_grace p0) inputs))) \<and>
    (\<forall>(st, en, a) \<in> set rows. aggregates k (values_in k (st, en) (admitted (sr_gap p0) (sr_grace p0) inputs)) a)"
proof -
  have step: "\<exists>out p' s'. sr_step i p s = Some (out, p', s') \<and>
      sr_keeps ks vk vs vv aggregates p0 (Suc n) (admit (sr_gap p0) (sr_grace p0) (snd i) st) p' s'"
    if "sr_keeps ks vk vs vv aggregates p0 n st p s" "record_ok vk (snd i) \<and> vv (r_value (snd i))" "n < length inputs" for n i st p s
    using sr_step_keeps [OF S cfg(1-4) red that(1)] that(2,3) by blast
  have "sr_keeps ks vk vs vv aggregates p0 0 (i64_min, []) p0 (sst_fresh cached name ks vs topic)"
    using cfg(5) session_keeps_fresh by (cases p0) (auto simp: sr_keeps_def)
  from proc_run_inv [where step = sr_step and upd = "\<lambda>i. admit (sr_gap p0) (sr_grace p0) (snd i)" and N = "length inputs", OF step this inputs]
  obtain outs p s where r: "proc_run sr_step inputs p0 (sst_fresh cached name ks vs topic) = Some (outs, p, s)"
      "session_keeps ks vk vs vv aggregates (sr_gap p0) (length inputs) (fold (\<lambda>i. admit (sr_gap p0) (sr_grace p0) (snd i)) inputs (i64_min, [])) s"
    by (auto simp: sr_keeps_def)
  show ?thesis
    using r(1) session_keeps_find [OF S cfg(1) r(2) k] unfolding admitted_def by blast
qed

definition max_sessions :: "(string, int) session_reduce" where
  "max_sessions = \<lparr>sr_store_name = ''s'', sr_gap = 10, sr_reducer = max, sr_emit = OnWindowUpdate, sr_grace = 100,
     sr_stream_time = i64_min, sr_last_emitted_close = i64_min, sr_forwarder = tf_resolve False\<rparr>"

lemma session_reduce_clusters_witness:
  "\<exists>outs p s rows. proc_run sr_step session_inputs max_sessions (sst_fresh False ''s'' StringSerde I64Serde ''t'') = Some (outs, p, s) \<and>
    find_sessions ''a'' 0 i64_max s = Some rows \<and> map (\<lambda>(st, en, _). (st, en)) rows = [(20, 38), (60, 60)]"
proof -
  have "reduction (length session_inputs) (\<lambda>k M a. M \<noteq> {#} \<and> a = Max (set_mset M) \<and> in_i64 a) (sr_reducer max_sessions) in_i64"
    by (auto simp: reduction_def in_i64_def max_def Max_Un max_sessions_def)
  from session_reduce_clusters [where ?p0.0 = max_sessions and k = "''a''" and cached = False and name = "''s''" and topic = "''t''",
      OF string_serde.serde_contract_axioms i64_serde.serde_contract_axioms _ _ _ _ _ this]
  show ?thesis
    using session_inputs_ok session_inputs_clusters by (auto simp: str_bytes_def max_sessions_def)
qed

text \<open>The close time leaves out the inactivity gap.  A session is closed, and emitted as final, as soon as stream time
  passes its end and the grace period; a record inside the gap still merges with it and produces a larger
  session, which is emitted again.  Here the gap is 10 and the grace period 0: the session \<open>[0, 0]\<close> is closed
  at stream time 3, and the record at 5 extends it.\<close>

lemma closed_session_reopens:
  "session_is_closed 0 (sat_sub 3 0)" "touches 10 5 (0, 0)" "merged 5 {(0, 0)} = (0, 5)" "\<not> session_is_closed 5 (sat_sub 5 0)"
  by (simp_all add: session_is_closed_def sat_sub_def clamp_i64_def touches_def merged_def)

end
