(* ===== verification/Window_Aggregate.thy ===== *)
theory Window_Aggregate
  imports Processor_Api
begin

text \<open>
  The time-window aggregation processors of \<^verbatim>\<open>dsl/processors/window_aggregate.rs\<close> over the window store.

  The specification of a window is the list of the records admitted to it, in order of arrival: a record is
  admitted to every window that contains its timestamp and is not closed when the record arrives.  The
  theorems say that the store holds the fold of that list for every window, and that emit-final forwards each
  closed window exactly once, with its final value.
\<close>

section \<open>KStreamWindowAggregateProcessor\<close>

definition window_is_closed :: "int \<Rightarrow> int \<Rightarrow> int \<Rightarrow> bool" where
  "window_is_closed window_start window_size window_close_time \<longleftrightarrow> sat_add window_start window_size < window_close_time"

record ('k, 'v, 'va) window_aggregate =
  wa_store_name :: string
  wa_windows :: time_windows
  wa_init :: 'va
  wa_agg :: "'k \<Rightarrow> 'v \<Rightarrow> 'va \<Rightarrow> 'va"
  wa_emit :: emit_strategy
  wa_stream_time :: int
  wa_last_emitted_close :: int
  wa_forwarder :: tuple_forwarder

definition wa_open :: "('k, 'va) window_store \<Rightarrow> ('k, 'v, 'va) window_aggregate \<Rightarrow> ('k, 'v, 'va) window_aggregate" where
  "wa_open s p = p\<lparr>wa_forwarder := tf_resolve (wst_is_cached s)\<rparr>"

definition window_of :: "'k \<Rightarrow> int \<Rightarrow> int \<Rightarrow> 'k windowed" where
  "window_of key st en = \<lparr>wd_key = key, wd_window = \<lparr>w_start = st, w_end = en\<rparr>\<rparr>"

type_synonym ('k, 'va) windowed_out = "('k windowed, 'va change) rec list"

text \<open>The loop over the windows of a record.\<close>

fun wa_loop :: "record_context \<Rightarrow> ('k, 'v, 'va) window_aggregate \<Rightarrow> 'k \<Rightarrow> 'v \<Rightarrow> int \<Rightarrow> int \<Rightarrow> int list \<Rightarrow> ('k, 'va) window_store \<Rightarrow>
    (('k, 'va) windowed_out \<times> ('k, 'va) window_store) option" where
  "wa_loop rc p key value ts close [] s = Some ([], s)"
| "wa_loop rc p key value ts close (ws # wss) s =
    (let sz = tw_size (wa_windows p) in
     if window_is_closed ws sz close then wa_loop rc p key value ts close wss s
     else do { (prior, s1) \<leftarrow> fetch_single key ws (wst_set_record_context rc s);
               let stored_ts = (case prior of None \<Rightarrow> i64_min | Some (t, _) \<Rightarrow> t);
               let old = map_option snd prior;
               let seed = (case old of None \<Rightarrow> wa_init p | Some a \<Rightarrow> a);
               let new = wa_agg p key value seed;
               let new_ts = max ts stored_ts;
               let s2 = wst_put key ws new new_ts s1;
               out \<leftarrow> (if is_on_update (wa_emit p)
                      then do { en \<leftarrow> checked_i64 (ws + sz);
                                Some (maybe_forward_change (wa_forwarder p) (window_of key ws en) (change_update old new) new_ts) }
                      else Some []);
               (outs, s3) \<leftarrow> wa_loop rc p key value ts close wss s2;
               Some (out @ outs, s3) })"

definition emit_closed_windows :: "int \<Rightarrow> int \<Rightarrow> int \<Rightarrow> ('k, 'va) window_store \<Rightarrow> ('k, 'va) windowed_out option" where
  "emit_closed_windows sz last_emitted_close window_close_time s =
    do { d \<leftarrow> checked_i64 (window_close_time - sz);
         start_to \<leftarrow> checked_i64 (d - 1);
         let start_from = sat_sub last_emitted_close sz;
         due \<leftarrow> fetch_all_in_range start_from start_to s;
         due' \<leftarrow> collect_opt (map (\<lambda>(k, ws, ts, v). map_option (\<lambda>en. (k, ws, en, ts, v)) (checked_i64 (ws + sz))) due);
         Some (map (\<lambda>(k, ws, en, ts, v). rec_new (Some (window_of k ws en)) (change_update None v) ts)
           (sort_key (\<lambda>(_, ws, _, _, _). ws) (filter (\<lambda>(_, _, en, _, _). last_emitted_close \<le> en) due'))) }"

definition wa_process :: "record_context \<Rightarrow> ('k, 'v) rec \<Rightarrow> ('k, 'v, 'va) window_aggregate \<Rightarrow> ('k, 'va) window_store \<Rightarrow>
    (('k, 'va) windowed_out \<times> ('k, 'v, 'va) window_aggregate \<times> ('k, 'va) window_store) option" where
  "wa_process rc r p s =
    do { key \<leftarrow> r_key r;
         let sz = tw_size (wa_windows p);
         let p1 = p\<lparr>wa_stream_time := max (wa_stream_time p) (r_timestamp r)\<rparr>;
         let close = sat_sub (wa_stream_time p1) (tw_grace (wa_windows p));
         wss \<leftarrow> windows_for (wa_windows p) (r_timestamp r);
         (outs, s1) \<leftarrow> wa_loop rc p1 key (r_value r) (r_timestamp r) close wss s;
         (if is_on_close (wa_emit p)
          then do { final \<leftarrow> emit_closed_windows sz (wa_last_emitted_close p1) close s1;
                    Some (outs @ final, p1\<lparr>wa_last_emitted_close := close\<rparr>, s1) }
          else Some (outs, p1, s1)) }"

section \<open>KStreamWindowReduceProcessor\<close>

record ('k, 'v) window_reduce =
  wr_store_name :: string
  wr_windows :: time_windows
  wr_reducer :: "'v \<Rightarrow> 'v \<Rightarrow> 'v"
  wr_emit :: emit_strategy
  wr_stream_time :: int
  wr_last_emitted_close :: int
  wr_forwarder :: tuple_forwarder

definition wr_open :: "('k, 'v) window_store \<Rightarrow> ('k, 'v) window_reduce \<Rightarrow> ('k, 'v) window_reduce" where
  "wr_open s p = p\<lparr>wr_forwarder := tf_resolve (wst_is_cached s)\<rparr>"

fun wr_loop :: "record_context \<Rightarrow> ('k, 'v) window_reduce \<Rightarrow> 'k \<Rightarrow> 'v \<Rightarrow> int \<Rightarrow> int \<Rightarrow> int list \<Rightarrow> ('k, 'v) window_store \<Rightarrow>
    (('k, 'v) windowed_out \<times> ('k, 'v) window_store) option" where
  "wr_loop rc p key value ts close [] s = Some ([], s)"
| "wr_loop rc p key value ts close (ws # wss) s =
    (let sz = tw_size (wr_windows p) in
     if window_is_closed ws sz close then wr_loop rc p key value ts close wss s
     else do { (prior, s1) \<leftarrow> fetch_single key ws (wst_set_record_context rc s);
               let stored_ts = (case prior of None \<Rightarrow> i64_min | Some (t, _) \<Rightarrow> t);
               let old = map_option snd prior;
               let new = (case old of None \<Rightarrow> value | Some acc \<Rightarrow> wr_reducer p acc value);
               let new_ts = max ts stored_ts;
               let s2 = wst_put key ws new new_ts s1;
               out \<leftarrow> (if is_on_update (wr_emit p)
                      then do { en \<leftarrow> checked_i64 (ws + sz);
                                Some (maybe_forward_change (wr_forwarder p) (window_of key ws en) (change_update old new) new_ts) }
                      else Some []);
               (outs, s3) \<leftarrow> wr_loop rc p key value ts close wss s2;
               Some (out @ outs, s3) })"

definition wr_process :: "record_context \<Rightarrow> ('k, 'v) rec \<Rightarrow> ('k, 'v) window_reduce \<Rightarrow> ('k, 'v) window_store \<Rightarrow>
    (('k, 'v) windowed_out \<times> ('k, 'v) window_reduce \<times> ('k, 'v) window_store) option" where
  "wr_process rc r p s =
    do { key \<leftarrow> r_key r;
         let sz = tw_size (wr_windows p);
         let p1 = p\<lparr>wr_stream_time := max (wr_stream_time p) (r_timestamp r)\<rparr>;
         let close = sat_sub (wr_stream_time p1) (tw_grace (wr_windows p));
         wss \<leftarrow> windows_for (wr_windows p) (r_timestamp r);
         (outs, s1) \<leftarrow> wr_loop rc p1 key (r_value r) (r_timestamp r) close wss s;
         (if is_on_close (wr_emit p)
          then do { final \<leftarrow> emit_closed_windows sz (wr_last_emitted_close p1) close s1;
                    Some (outs @ final, p1\<lparr>wr_last_emitted_close := close\<rparr>, s1) }
          else Some (outs, p1, s1)) }"

section \<open>The common step\<close>

text \<open>The two processors differ only in the value a window takes.\<close>

fun window_loop :: "record_context \<Rightarrow> emit_strategy \<Rightarrow> tuple_forwarder \<Rightarrow> int \<Rightarrow> ('va option \<Rightarrow> 'va) \<Rightarrow> 'k \<Rightarrow> int \<Rightarrow> int \<Rightarrow> int list \<Rightarrow>
    ('k, 'va) window_store \<Rightarrow> (('k, 'va) windowed_out \<times> ('k, 'va) window_store) option" where
  "window_loop rc emit fwd sz val key ts close [] s = Some ([], s)"
| "window_loop rc emit fwd sz val key ts close (ws # wss) s =
    (if window_is_closed ws sz close then window_loop rc emit fwd sz val key ts close wss s
     else do { (prior, s1) \<leftarrow> fetch_single key ws (wst_set_record_context rc s);
               let new = val (map_option snd prior);
               let new_ts = max ts (case prior of None \<Rightarrow> i64_min | Some (t, _) \<Rightarrow> t);
               out \<leftarrow> (if is_on_update emit
                      then do { en \<leftarrow> checked_i64 (ws + sz);
                                Some (maybe_forward_change fwd (window_of key ws en) (change_update (map_option snd prior) new) new_ts) }
                      else Some []);
               (outs, s3) \<leftarrow> window_loop rc emit fwd sz val key ts close wss (wst_put key ws new new_ts s1);
               Some (out @ outs, s3) })"

definition window_core :: "record_context \<Rightarrow> emit_strategy \<Rightarrow> tuple_forwarder \<Rightarrow> time_windows \<Rightarrow> int \<Rightarrow> ('va option \<Rightarrow> 'va) \<Rightarrow> 'k \<Rightarrow> int \<Rightarrow> int \<Rightarrow>
    ('k, 'va) window_store \<Rightarrow> (('k, 'va) windowed_out \<times> int \<times> ('k, 'va) window_store) option" where
  "window_core rc emit fwd w emitted val key ts close s =
    do { wss \<leftarrow> windows_for w ts;
         (outs, s1) \<leftarrow> window_loop rc emit fwd (tw_size w) val key ts close wss s;
         (if is_on_close emit
          then do { final \<leftarrow> emit_closed_windows (tw_size w) emitted close s1; Some (outs @ final, close, s1) }
          else Some (outs, emitted, s1)) }"

definition wa_value :: "('k, 'v, 'va) window_aggregate \<Rightarrow> 'k \<Rightarrow> 'v \<Rightarrow> 'va option \<Rightarrow> 'va" where
  "wa_value p key value old = wa_agg p key value (case old of None \<Rightarrow> wa_init p | Some a \<Rightarrow> a)"

definition wr_value :: "('k, 'v) window_reduce \<Rightarrow> 'k \<Rightarrow> 'v \<Rightarrow> 'v option \<Rightarrow> 'v" where
  "wr_value p key value old = (case old of None \<Rightarrow> value | Some acc \<Rightarrow> wr_reducer p acc value)"

lemma window_value_cong [simp]:
  "wa_value (p\<lparr>wa_stream_time := t\<rparr>) = wa_value p" "wa_value (p\<lparr>wa_last_emitted_close := t\<rparr>) = wa_value p"
  "wr_value (q\<lparr>wr_stream_time := t\<rparr>) = wr_value q" "wr_value (q\<lparr>wr_last_emitted_close := t\<rparr>) = wr_value q"
  by (simp_all add: wa_value_def wr_value_def fun_eq_iff split: option.splits)

lemma window_state_same [simp]:
  "p\<lparr>wa_stream_time := t, wa_last_emitted_close := wa_last_emitted_close p\<rparr> = p\<lparr>wa_stream_time := t\<rparr>"
  "q\<lparr>wr_stream_time := t, wr_last_emitted_close := wr_last_emitted_close q\<rparr> = q\<lparr>wr_stream_time := t\<rparr>"
  by (cases p; cases q; simp)+

lemma wa_loop_core:
  "wa_loop rc p key value ts close wss s =
    window_loop rc (wa_emit p) (wa_forwarder p) (tw_size (wa_windows p)) (wa_value p key value) key ts close wss s"
  by (induction wss arbitrary: s) (simp_all add: Let_def wa_value_def cong: if_cong)

lemma wr_loop_core:
  "wr_loop rc p key value ts close wss s =
    window_loop rc (wr_emit p) (wr_forwarder p) (tw_size (wr_windows p)) (wr_value p key value) key ts close wss s"
  by (induction wss arbitrary: s) (simp_all add: Let_def wr_value_def cong: if_cong)

lemma wa_process_core:
  "wa_process rc r p s =
    do { key \<leftarrow> r_key r;
         let stm = max (wa_stream_time p) (r_timestamp r);
         (outs, emitted, s1) \<leftarrow> window_core rc (wa_emit p) (wa_forwarder p) (wa_windows p) (wa_last_emitted_close p)
           (wa_value p key (r_value r)) key (r_timestamp r) (sat_sub stm (tw_grace (wa_windows p))) s;
         Some (outs, p\<lparr>wa_stream_time := stm, wa_last_emitted_close := emitted\<rparr>, s1) }"
  by (auto simp: wa_process_def window_core_def wa_loop_core Let_def split: option.splits bind_splits prod.splits)

lemma wr_process_core:
  "wr_process rc r p s =
    do { key \<leftarrow> r_key r;
         let stm = max (wr_stream_time p) (r_timestamp r);
         (outs, emitted, s1) \<leftarrow> window_core rc (wr_emit p) (wr_forwarder p) (wr_windows p) (wr_last_emitted_close p)
           (wr_value p key (r_value r)) key (r_timestamp r) (sat_sub stm (tw_grace (wr_windows p))) s;
         Some (outs, p\<lparr>wr_stream_time := stm, wr_last_emitted_close := emitted\<rparr>, s1) }"
  by (auto simp: wr_process_def window_core_def wr_loop_core Let_def split: option.splits bind_splits prod.splits)

section \<open>The windows of the store\<close>

definition win_view :: "'k serde \<Rightarrow> ('k \<Rightarrow> bool) \<Rightarrow> 'v serde \<Rightarrow> ('v \<Rightarrow> bool) \<Rightarrow> int \<Rightarrow> ('k, 'v) window_store \<Rightarrow>
    ('k \<times> int \<Rightarrow> (int \<times> 'v) option) \<Rightarrow> bool" where
  "win_view ks vk vs vv sz s m \<longleftrightarrow> (\<exists>d. window_holds ks vk vs vv sz s m d)"

lemma win_view_fresh: "win_view ks vk vs vv sz (wst_fresh cached name ks vs topic sz') Map.empty"
  unfolding win_view_def using kv_fresh_holds by (intro exI [of _ Map.empty]) simp

lemma win_view_ctx: "win_view ks vk vs vv sz s m \<Longrightarrow> win_view ks vk vs vv sz (wst_set_record_context rc s) m"
  unfolding win_view_def
  by (auto simp: wst_set_record_context_def kv_holds_def kv_is_cached_def as_kv_def)

lemma win_view_put:
  assumes S: "serde_contract ks vk" "serde_contract vs vv" and h: "win_view ks vk vs vv sz s m"
    and v: "window_valid vk sz (k, ws)" "vv v" "in_i64 ts"
  shows "win_view ks vk vs vv sz (wst_put k ws v ts s) (m((k, ws) \<mapsto> (ts, v)))"
  using h kv_serdes.holds_put [OF window_serdes [OF S, of sz], of "as_kv s" m _ "(k, ws)" "(ts, v)"] v
  unfolding win_view_def wst_put_kv by (fastforce simp: stamped_valid_def)

lemma win_view_get:
  assumes S: "serde_contract ks vk" "serde_contract vs vv" and h: "win_view ks vk vs vv sz s m" and v: "window_valid vk sz (k, ws)"
  shows "\<exists>s'. fetch_single k ws s = Some (m (k, ws), s') \<and> win_view ks vk vs vv sz s' m"
proof -
  obtain d where d: "window_holds ks vk vs vv sz s m d"
    using h by (auto simp: win_view_def)
  obtain sk where "kv_get (k, ws) (as_kv s) = Some (m (k, ws), sk)" "kv_holds (window_key_serde ks) (window_valid vk sz) (window_value_serde vs) (stamped_valid vv) sk m d"
    using kv_serdes.holds_get [OF window_serdes [OF S, of sz] d v] by blast
  then show ?thesis
    using fetch_single_kv [of k ws s] by (auto simp: win_view_def map_option_case split: option.splits)
qed

lemma win_view_valid:
  assumes "serde_contract ks vk" "serde_contract vs vv" "win_view ks vk vs vv sz s m" "m x = Some v"
  shows "window_valid vk sz x \<and> stamped_valid vv v"
proof -
  obtain d where d: "window_holds ks vk vs vv sz s m d"
    using assms(3) by (auto simp: win_view_def)
  show ?thesis
    by (rule window_holds_list [OF assms(1,2) d]) (use assms(4) in blast)
qed

lemma scan_any_typed:
  assumes S: "serde_contract (wst_key_serde s) vk" "serde_contract (wst_value_serde s) vv"
    and v: "window_valid vk sz x" "stamped_valid vv y"
  shows "wst_scan_any s from to (sd_ser (window_key_serde (wst_key_serde s)) (wst_changelog_topic s) x,
       sd_ser (window_value_serde (wst_value_serde s)) (wst_changelog_topic s) y) =
    Some (if from \<le> snd x \<and> snd x \<le> to then [(fst x, snd x, y)] else [])"
  using v wst_value_wrap [OF S(2) v(2)] serde_contract.roundtrip [OF S(1), of "fst x" "wst_changelog_topic s"]
  by (cases y; cases x) (auto simp: wst_scan_any_def window_key_serde_def window_valid_def)

lemma win_view_all:
  assumes S: "serde_contract ks vk" "serde_contract vs vv" and h: "win_view ks vk vs vv sz s m"
  shows "\<exists>rows. fetch_all_in_range from to s = Some rows \<and> distinct rows \<and>
    set rows = {(k, ws, ts, v). m (k, ws) = Some (ts, v) \<and> from \<le> ws \<and> ws \<le> to}"
proof -
  obtain d where d: "window_holds ks vk vs vv sz s m d"
    using h by (auto simp: win_view_def)
  let ?t = "wst_changelog_topic s"
  let ?sk = "sd_ser (window_key_serde ks) ?t" and ?sv = "sd_ser (window_value_serde vs) ?t"
  obtain L where L: "backing_scan_all (wst_backing s) = map (\<lambda>(k, v). (?sk k, ?sv v)) L"
    "\<And>k v. (k, v) \<in> set L \<longleftrightarrow> m k = Some v" "\<And>k v. (k, v) \<in> set L \<Longrightarrow> window_valid vk sz k \<and> stamped_valid vv v"
    "sorted_wrt (\<lambda>p q. ?sk (fst p) < ?sk (fst q)) L" "wst_key_serde s = ks" "wst_value_serde s = vs"
    by (rule window_holds_list [OF S d]) blast
  let ?P = "\<lambda>p. from \<le> snd (fst p) \<and> snd (fst p) \<le> to" and ?row = "\<lambda>p. (fst (fst p), snd (fst p), snd p)"
  have "collect_opt (map (wst_scan_any s from to) (map (\<lambda>(k, v). (?sk k, ?sv v)) L)) =
      Some (map (\<lambda>(x, y). if from \<le> snd x \<and> snd x \<le> to then [(fst x, snd x, y)] else []) L)"
    using S L(3,5,6) scan_any_typed [of s vk vv sz] by (intro collect_opt_typed) auto
  then have "fetch_all_in_range from to s = Some (map ?row (filter ?P L))"
    using concat_map_filter [of ?P ?row L] L(1) by (simp add: fetch_all_in_range_def wb_same split_def)
  moreover have "distinct L"
    using L(4) by (induction L) auto
  then have "distinct (map ?row (filter ?P L))"
    by (simp add: distinct_map inj_on_def prod_eq_iff)
  moreover have "set (map ?row (filter ?P L)) = {(k, ws, ts, v). m (k, ws) = Some (ts, v) \<and> from \<le> ws \<and> ws \<le> to}"
    using L(2) by (force simp: image_iff)
  ultimately show ?thesis
    by blast
qed

section \<open>The specification\<close>

definition in_window :: "time_windows \<Rightarrow> int \<Rightarrow> int \<Rightarrow> bool" where
  "in_window w ws t \<longleftrightarrow> tw_advance w dvd ws \<and> 0 \<le> ws \<and> ws \<le> t \<and> t < ws + tw_size w"

definition stream_time_of :: "('k, 'v) rec list \<Rightarrow> int" where
  "stream_time_of rs = fold (\<lambda>r t. max t (r_timestamp r)) rs i64_min"

text \<open>Whether the last record of a list is admitted to a window, and the records admitted to it, in order of arrival.\<close>

definition admits :: "time_windows \<Rightarrow> 'k \<times> int \<Rightarrow> ('k, 'v) rec \<Rightarrow> int \<Rightarrow> bool" where
  "admits w x r stream_time \<longleftrightarrow>
     r_key r = Some (fst x) \<and> in_window w (snd x) (r_timestamp r) \<and> stream_time - tw_grace w \<le> snd x + tw_size w"

definition window_entries :: "time_windows \<Rightarrow> 'k \<times> int \<Rightarrow> ('k, 'v) rec list \<Rightarrow> (int \<times> 'v) list" where
  "window_entries w x rs =
    concat (map (\<lambda>i. if admits w x (rs ! i) (stream_time_of (take (Suc i) rs)) then [(r_timestamp (rs ! i), r_value (rs ! i))] else [])
      [0..<length rs])"

definition window_value :: "('v \<Rightarrow> 'va option \<Rightarrow> 'va) \<Rightarrow> int \<times> 'v \<Rightarrow> (int \<times> 'va) option \<Rightarrow> int \<times> 'va" where
  "window_value val e prior =
    (max (fst e) (case prior of None \<Rightarrow> i64_min | Some (t, _) \<Rightarrow> t), val (snd e) (map_option snd prior))"

definition window_fold :: "('v \<Rightarrow> 'va option \<Rightarrow> 'va) \<Rightarrow> (int \<times> 'v) list \<Rightarrow> (int \<times> 'va) option" where
  "window_fold val es = fold (\<lambda>e prior. Some (window_value val e prior)) es None"

lemma stream_time_of_snoc: "stream_time_of (rs @ [r]) = max (stream_time_of rs) (r_timestamp r)"
  by (simp add: stream_time_of_def)

lemma window_entries_snoc:
  "window_entries w x (rs @ [r]) = window_entries w x rs @
    (if admits w x r (max (stream_time_of rs) (r_timestamp r)) then [(r_timestamp r, r_value r)] else [])"
proof -
  have "window_entries w x (rs @ [r]) =
    concat (map (\<lambda>i. if admits w x (rs ! i) (stream_time_of (take (Suc i) rs)) then [(r_timestamp (rs ! i), r_value (rs ! i))] else [])
      [0..<length rs]) @ (if admits w x r (stream_time_of (rs @ [r])) then [(r_timestamp r, r_value r)] else [])"
    unfolding window_entries_def by (simp add: nth_append) (intro arg_cong [where f = concat] map_cong refl, simp add: nth_append)
  then show ?thesis
    by (simp add: window_entries_def stream_time_of_snoc)
qed

lemma length_window_entries: "length (window_entries w x rs) \<le> length rs"
  by (induction rs rule: rev_induct) (auto simp: window_entries_snoc, simp add: window_entries_def)

lemma window_fold_snoc: "window_fold val (es @ [e]) = Some (window_value val e (window_fold val es))"
  by (simp add: window_fold_def)

section \<open>The loop over the windows\<close>

lemma window_loop_view:
  assumes S: "serde_contract ks vk" "serde_contract vs vv"
  shows "win_view ks vk vs vv sz s m \<Longrightarrow> distinct wss \<Longrightarrow> \<forall>ws \<in> set wss. window_valid vk sz (k, ws) \<Longrightarrow> in_i64 ts \<Longrightarrow>
    \<forall>ws \<in> set wss. \<not> window_is_closed ws sz close \<longrightarrow> vv (val (map_option snd (m (k, ws)))) \<Longrightarrow>
    \<exists>outs s'. window_loop rc emit fwd sz val k ts close wss s = Some (outs, s') \<and> (is_on_close emit \<longrightarrow> outs = []) \<and>
      win_view ks vk vs vv sz s' (\<lambda>x. if fst x = k \<and> snd x \<in> set wss \<and> \<not> window_is_closed (snd x) sz close
         then Some (window_value (\<lambda>_. val) (ts, ()) (m x)) else m x)"
proof (induction wss arbitrary: s m)
  case (Cons ws wss)
  show ?case
  proof (cases "window_is_closed ws sz close")
    case True
    obtain outs s' where r: "window_loop rc emit fwd sz val k ts close wss s = Some (outs, s')" "is_on_close emit \<longrightarrow> outs = []"
        "win_view ks vk vs vv sz s' (\<lambda>x. if fst x = k \<and> snd x \<in> set wss \<and> \<not> window_is_closed (snd x) sz close
           then Some (window_value (\<lambda>_. val) (ts, ()) (m x)) else m x)"
      using Cons.IH [OF Cons.prems(1)] Cons.prems(2-) by auto
    have "(\<lambda>x. if fst x = k \<and> snd x \<in> set wss \<and> \<not> window_is_closed (snd x) sz close then Some (window_value (\<lambda>_. val) (ts, ()) (m x)) else m x) =
        (\<lambda>x. if fst x = k \<and> snd x \<in> set (ws # wss) \<and> \<not> window_is_closed (snd x) sz close then Some (window_value (\<lambda>_. val) (ts, ()) (m x)) else m x)"
      using True by (intro ext) auto
    then show ?thesis
      using r True by auto
  next
    case False
    let ?x = "(k, ws)"
    let ?v = "window_value (\<lambda>_. val) (ts, ()) (m ?x)"
    have valid: "window_valid vk sz ?x"
      using Cons.prems(3) by simp
    obtain s1 where s1: "fetch_single k ws (wst_set_record_context rc s) = Some (m ?x, s1)" "win_view ks vk vs vv sz s1 m"
      using win_view_get [OF S win_view_ctx [OF Cons.prems(1)] valid] by blast
    have "in_i64 (fst ?v)"
      using win_view_valid [OF S Cons.prems(1), of ?x] Cons.prems(4)
      by (auto simp: window_value_def stamped_valid_def in_i64_def max_def split: option.splits)
    then have put: "win_view ks vk vs vv sz (wst_put k ws (snd ?v) (fst ?v) s1) (m(?x \<mapsto> ?v))"
      using win_view_put [OF S s1(2) valid, of "snd ?v" "fst ?v"] Cons.prems(5) False by (simp add: window_value_def)
    have nin: "ws \<notin> set wss"
      using Cons.prems(2) by simp
    have vvs: "\<forall>ws' \<in> set wss. \<not> window_is_closed ws' sz close \<longrightarrow> vv (val (map_option snd ((m(?x \<mapsto> ?v)) (k, ws'))))"
      using Cons.prems(5) nin by auto
    obtain outs s' where r: "window_loop rc emit fwd sz val k ts close wss (wst_put k ws (snd ?v) (fst ?v) s1) = Some (outs, s')"
        "is_on_close emit \<longrightarrow> outs = []"
        "win_view ks vk vs vv sz s' (\<lambda>x. if fst x = k \<and> snd x \<in> set wss \<and> \<not> window_is_closed (snd x) sz close
           then Some (window_value (\<lambda>_. val) (ts, ()) ((m(?x \<mapsto> ?v)) x)) else (m(?x \<mapsto> ?v)) x)"
      using Cons.IH [OF put _ _ Cons.prems(4) vvs] Cons.prems(2,3) by auto
    have "(\<lambda>x. if fst x = k \<and> snd x \<in> set wss \<and> \<not> window_is_closed (snd x) sz close
           then Some (window_value (\<lambda>_. val) (ts, ()) ((m(?x \<mapsto> ?v)) x)) else (m(?x \<mapsto> ?v)) x) =
        (\<lambda>x. if fst x = k \<and> snd x \<in> set (ws # wss) \<and> \<not> window_is_closed (snd x) sz close then Some (window_value (\<lambda>_. val) (ts, ()) (m x)) else m x)"
      using False nin by (intro ext) auto
    moreover have "in_i64 (ws + sz)"
      using valid by (simp add: window_valid_def)
    ultimately show ?thesis
      using False s1(1) r by (auto simp: window_value_def checked_i64_def Let_def is_on_update_def is_on_close_def)
  qed
qed simp

section \<open>Emit-final\<close>

definition final_record :: "int \<Rightarrow> 'k \<times> int \<Rightarrow> int \<times> 'va \<Rightarrow> ('k windowed, 'va change) rec" where
  "final_record sz x e = rec_new (Some (window_of (fst x) (snd x) (snd x + sz))) (change_update None (snd e)) (fst e)"

definition final_records :: "int \<Rightarrow> ('k \<times> int \<Rightarrow> (int \<times> 'va) option) \<Rightarrow> int \<Rightarrow> int \<Rightarrow> ('k windowed, 'va change) rec set" where
  "final_records sz m lo hi = {final_record sz x e | x e. m x = Some e \<and> lo \<le> snd x + sz \<and> snd x + sz < hi}"

lemma final_record_key:
  "r_key (final_record sz x e) = Some (window_of (fst x) (snd x) (snd x + sz))"
  "r_key (final_record sz x e) = r_key (final_record sz x' e') \<longleftrightarrow> x = x'"
  by (auto simp: final_record_def rec_new_def window_of_def prod_eq_iff)

lemma emit_closed_windows_final:
  assumes S: "serde_contract ks vk" "serde_contract vs vv" and h: "win_view ks vk vs vv sz s m"
    and c: "in_i64 (close - sz)" "in_i64 (close - sz - 1)" "in_i64 emitted" "0 \<le> sz"
  shows "\<exists>final. emit_closed_windows sz emitted close s = Some final \<and> distinct (map r_key final) \<and>
    set final = final_records sz m emitted close"
proof -
  obtain due where due: "fetch_all_in_range (sat_sub emitted sz) (close - sz - 1) s = Some due" "distinct due"
      "set due = {(k, ws, ts, v). m (k, ws) = Some (ts, v) \<and> sat_sub emitted sz \<le> ws \<and> ws \<le> close - sz - 1}"
    using win_view_all [OF S h] by blast
  have valid: "in_i64 ws \<and> in_i64 (ws + sz)" if "m (k, ws) = Some e" for k ws e
    using win_view_valid [OF S h that] by (simp add: window_valid_def)
  let ?close_of = "\<lambda>(k, ws, ts, v). (k, ws, ws + sz, ts, v)"
  let ?kept = "sort_key (\<lambda>(_, ws, _, _, _). ws) (filter (\<lambda>(_, _, en, _, _). emitted \<le> en) (map ?close_of due))"
  let ?out = "\<lambda>(k, ws, en, ts, v). rec_new (Some (window_of k ws en)) (change_update None v) ts"
  have "collect_opt (map (\<lambda>(k, ws, ts, v). map_option (\<lambda>en. (k, ws, en, ts, v)) (checked_i64 (ws + sz))) due) = Some (map ?close_of due)"
    by (rule collect_opt_map_Some) (use valid due(3) in \<open>auto simp: checked_i64_def\<close>)
  then have "emit_closed_windows sz emitted close s = Some (map ?out ?kept)"
    using c(1,2) due(1) by (simp add: emit_closed_windows_def checked_i64_def)
  note emit = this
  have kept: "set ?kept = {(k, ws, en, ts, v). m (k, ws) = Some (ts, v) \<and> en = ws + sz \<and> emitted \<le> en \<and> en < close}"
  proof -
    have low: "sat_sub emitted sz \<le> ws" if "m (k, ws) = Some e" "emitted \<le> ws + sz" for k ws e
      using valid [OF that(1)] that(2) c(3,4) by (auto simp: sat_sub_def clamp_i64_def in_i64_def)
    have img: "(k, ws, en, ts, v) \<in> ?close_of ` set due \<longleftrightarrow> (k, ws, ts, v) \<in> set due \<and> en = ws + sz" for k ws en ts v
      by (auto simp: image_iff split: prod.splits)
    have mem: "(k, ws, ts, v) \<in> set due \<longleftrightarrow> m (k, ws) = Some (ts, v) \<and> sat_sub emitted sz \<le> ws \<and> ws \<le> close - sz - 1" for k ws ts v
      unfolding due(3) by simp
    show ?thesis
    proof (intro set_eqI)
      fix x
      show "x \<in> set ?kept \<longleftrightarrow> x \<in> {(k, ws, en, ts, v). m (k, ws) = Some (ts, v) \<and> en = ws + sz \<and> emitted \<le> en \<and> en < close}"
        by (cases x) (use low img mem in auto)
    qed
  qed
  have "distinct (map ?close_of due)"
    using due(2) by (simp add: distinct_map inj_on_def split: prod.splits)
  then have "distinct ?kept"
    by simp
  moreover have "inj_on (\<lambda>x. r_key (?out x)) (set ?kept)"
    unfolding kept by (auto simp: inj_on_def rec_new_def window_of_def)
  ultimately have "distinct (map (\<lambda>x. r_key (?out x)) ?kept)"
    by (simp only: distinct_map)
  then have "distinct (map r_key (map ?out ?kept))"
    by (simp add: comp_def)
  moreover have "set (map ?out ?kept) = final_records sz m emitted close"
    unfolding set_map kept final_records_def final_record_def by (force simp: image_iff)
  ultimately show ?thesis
    using emit by blast
qed

section \<open>One record\<close>

definition windows_ok :: "time_windows \<Rightarrow> bool" where
  "windows_ok w \<longleftrightarrow> 1 \<le> tw_advance w \<and> tw_advance w \<le> tw_size w \<and> 0 \<le> tw_grace w \<and> tw_size w + tw_grace w < i64_max"

definition window_record_ok :: "('k \<Rightarrow> bool) \<Rightarrow> time_windows \<Rightarrow> ('k, 'v) rec \<Rightarrow> bool" where
  "window_record_ok vk w r \<longleftrightarrow>
     (case r_key r of None \<Rightarrow> False | Some k \<Rightarrow> vk k) \<and> 0 \<le> r_timestamp r \<and> r_timestamp r + tw_size w \<le> i64_max"

definition window_table_of :: "('k \<Rightarrow> 'v \<Rightarrow> 'va option \<Rightarrow> 'va) \<Rightarrow> time_windows \<Rightarrow> ('k, 'v) rec list \<Rightarrow> 'k \<times> int \<Rightarrow> (int \<times> 'va) option" where
  "window_table_of val w rs x = window_fold (val (fst x)) (window_entries w x rs)"

definition values_valid :: "nat \<Rightarrow> ('k \<Rightarrow> 'v \<Rightarrow> 'va option \<Rightarrow> 'va) \<Rightarrow> ('v \<Rightarrow> bool) \<Rightarrow> ('va \<Rightarrow> bool) \<Rightarrow> bool" where
  "values_valid N val good vv \<longleftrightarrow> (\<forall>k es e. length es \<le> N \<longrightarrow> (\<forall>x \<in> set es. good (snd x)) \<longrightarrow> window_fold (val k) es = Some e \<longrightarrow> vv (snd e))"

lemma window_table_of_snoc:
  "window_table_of val w (rs @ [r]) x =
    (if admits w x r (max (stream_time_of rs) (r_timestamp r))
     then Some (window_value (val (fst x)) (r_timestamp r, r_value r) (window_table_of val w rs x)) else window_table_of val w rs x)"
  by (simp add: window_table_of_def window_entries_snoc window_fold_snoc)

lemma window_entries_values: "e \<in> set (window_entries w x rs) \<Longrightarrow> \<exists>r \<in> set rs. snd e = r_value r"
  by (auto simp: window_entries_def split: if_splits)

lemma window_core_step:
  assumes S: "serde_contract ks vk" "serde_contract vs vv" and w: "windows_ok w"
    and h: "win_view ks vk vs vv (tw_size w) s (window_table_of val w rs)"
    and r: "window_record_ok vk w r" "r_key r = Some k" and stm: "stm = max (stream_time_of rs) (r_timestamp r)" "stream_time_of rs \<le> i64_max"
    and vals: "values_valid N val good vv" "length rs < N" "\<forall>r' \<in> set (rs @ [r]). good (r_value r')" and em: "in_i64 emitted"
  shows "\<exists>outs l s'. window_core rc emit fwd w emitted (val k (r_value r)) k (r_timestamp r) (sat_sub stm (tw_grace w)) s = Some (outs, l, s') \<and>
    win_view ks vk vs vv (tw_size w) s' (window_table_of val w (rs @ [r])) \<and>
    (is_on_close emit \<longrightarrow> l = stm - tw_grace w \<and> distinct (map r_key outs) \<and>
       set outs = final_records (tw_size w) (window_table_of val w (rs @ [r])) emitted (stm - tw_grace w))"
proof -
  let ?sz = "tw_size w" and ?ts = "r_timestamp r" and ?m = "window_table_of val w rs" and ?m' = "window_table_of val w (rs @ [r])"
  have ts: "0 \<le> ?ts" "?ts + ?sz \<le> i64_max" "vk k"
    using r by (auto simp: window_record_ok_def)
  have wok: "1 \<le> tw_advance w" "tw_advance w \<le> ?sz" "0 \<le> tw_grace w" "?sz + tw_grace w < i64_max"
    using w by (auto simp: windows_ok_def)
  have close: "sat_sub stm (tw_grace w) = stm - tw_grace w" "0 \<le> stm" "stm \<le> i64_max"
    using stm ts wok by (auto simp: sat_sub_def clamp_i64_def)
  obtain wss where wss: "windows_for w ?ts = Some wss" "sorted_wrt (<) wss" "set wss = {ws. in_window w ws ?ts}"
    using windows_for_list [of w ?ts] wok ts unfolding in_window_def by auto
  have vw: "window_valid vk ?sz (k, ws)" if "ws \<in> set wss" for ws
    using that wss(3) ts wok by (auto simp: window_valid_def in_window_def in_i64_def)
  have closed: "window_is_closed ws ?sz (stm - tw_grace w) \<longleftrightarrow> \<not> admits w (k, ws) r stm" if "ws \<in> set wss" for ws
  proof -
    have "sat_add ws ?sz = ws + ?sz"
      using vw [OF that] by (simp add: window_valid_def sat_add_def)
    then show ?thesis
      using that r(2) wss(3) by (auto simp: window_is_closed_def admits_def)
  qed
  have new: "?m' x = (if fst x = k \<and> snd x \<in> set wss \<and> \<not> window_is_closed (snd x) ?sz (stm - tw_grace w)
      then Some (window_value (\<lambda>_. val k (r_value r)) (?ts, ()) (?m x)) else ?m x)" for x
    using closed [of "snd x"] r(2) wss(3) by (cases x) (auto simp: window_table_of_snoc stm(1) admits_def window_value_def)
  have "vv (val k (r_value r) (map_option snd (?m (k, ws))))" if ws: "ws \<in> set wss" "\<not> window_is_closed ws ?sz (stm - tw_grace w)" for ws
  proof -
    have "?m' (k, ws) = Some (window_value (val k) (?ts, r_value r) (?m (k, ws)))"
      using closed ws by (simp add: window_table_of_snoc stm(1))
    then have fold: "window_fold (val k) (window_entries w (k, ws) (rs @ [r])) = Some (window_value (val k) (?ts, r_value r) (?m (k, ws)))"
      by (simp add: window_table_of_def)
    have len: "length (window_entries w (k, ws) (rs @ [r])) \<le> N"
      using length_window_entries [of w "(k, ws)" "rs @ [r]"] vals(2) by simp
    have good: "\<forall>e \<in> set (window_entries w (k, ws) (rs @ [r])). good (snd e)"
      using window_entries_values [of _ w "(k, ws)" "rs @ [r]"] vals(3) by fastforce
    have "vv (snd (window_value (val k) (?ts, r_value r) (?m (k, ws))))"
      using vals(1) len good fold unfolding values_valid_def by blast
    then show ?thesis
      by (simp add: window_value_def)
  qed
  moreover have "distinct wss"
    using wss(2) by (induction wss) auto
  moreover have "in_i64 ?ts"
    using ts wok by (simp add: in_i64_def)
  ultimately obtain outs s1 where loop: "window_loop rc emit fwd ?sz (val k (r_value r)) k ?ts (stm - tw_grace w) wss s = Some (outs, s1)"
      "is_on_close emit \<longrightarrow> outs = []" "win_view ks vk vs vv ?sz s1 ?m'"
    using window_loop_view [OF S h, of wss k ?ts "stm - tw_grace w" "val k (r_value r)" rc emit fwd] vw unfolding new by blast
  obtain final where final: "emit_closed_windows ?sz emitted (stm - tw_grace w) s1 = Some final" "distinct (map r_key final)"
      "set final = final_records ?sz ?m' emitted (stm - tw_grace w)"
    using emit_closed_windows_final [OF S loop(3), of "stm - tw_grace w" emitted] close(2,3) wok em by (auto simp: in_i64_def)
  show ?thesis
    using wss(1) loop final by (cases "is_on_close emit") (simp_all add: window_core_def close(1))
qed

section \<open>Runs\<close>

lemma final_records_mono: "final_records sz m lo hi \<subseteq> final_records sz m lo (hi + 1)"
  unfolding final_records_def by force

lemma final_records_split:
  assumes "lo \<le> mid" "mid \<le> hi"
  shows "final_records sz m lo hi = final_records sz m lo mid \<union> final_records sz m mid hi"
proof -
  have "lo \<le> e \<and> e < hi \<longleftrightarrow> (lo \<le> e \<and> e < mid) \<or> (mid \<le> e \<and> e < hi)" for e
    using assms by auto
  then show ?thesis
    unfolding final_records_def by blast
qed

lemma final_records_cong:
  assumes "\<And>x. snd x + sz < hi \<Longrightarrow> m x = m' x"
  shows "final_records sz m lo hi = final_records sz m' lo hi"
proof -
  have "m x = Some e \<and> lo \<le> snd x + sz \<and> snd x + sz < hi \<longleftrightarrow> m' x = Some e \<and> lo \<le> snd x + sz \<and> snd x + sz < hi" for x e
    using assms [of x] by auto
  then show ?thesis
    unfolding final_records_def by simp
qed

lemma final_records_disjoint: "r_key ` final_records sz m lo mid \<inter> r_key ` final_records sz m' mid hi = {}"
  unfolding final_records_def by (auto simp: final_record_key window_of_def)

definition window_keeps :: "'k serde \<Rightarrow> ('k \<Rightarrow> bool) \<Rightarrow> 'va serde \<Rightarrow> ('va \<Rightarrow> bool) \<Rightarrow> time_windows \<Rightarrow> ('k \<Rightarrow> 'v \<Rightarrow> 'va option \<Rightarrow> 'va) \<Rightarrow> ('v \<Rightarrow> bool) \<Rightarrow>
    emit_strategy \<Rightarrow> ('k, 'v) rec list \<Rightarrow> ('k, 'va) windowed_out \<Rightarrow> int \<Rightarrow> ('k, 'va) window_store \<Rightarrow> bool" where
  "window_keeps ks vk vs vv w val good emit rs outs emitted s \<longleftrightarrow>
     win_view ks vk vs vv (tw_size w) s (window_table_of val w rs) \<and> in_i64 emitted \<and> stream_time_of rs \<le> i64_max \<and>
     (\<forall>r \<in> set rs. good (r_value r)) \<and>
     (is_on_close emit \<longrightarrow> (if rs = [] then emitted = i64_min else emitted = stream_time_of rs - tw_grace w) \<and>
        distinct (map r_key outs) \<and> set outs = final_records (tw_size w) (window_table_of val w rs) i64_min emitted)"

lemma window_core_keeps:
  assumes S: "serde_contract ks vk" "serde_contract vs vv" and w: "windows_ok w"
    and keeps: "window_keeps ks vk vs vv w val good emit rs outs emitted s"
    and r: "window_record_ok vk w r" "r_key r = Some k" "good (r_value r)"
    and vals: "values_valid N val good vv" "length rs < N"
  shows "\<exists>out l s'. window_core rc emit fwd w emitted (val k (r_value r)) k (r_timestamp r)
        (sat_sub (max (stream_time_of rs) (r_timestamp r)) (tw_grace w)) s = Some (out, l, s') \<and>
      window_keeps ks vk vs vv w val good emit (rs @ [r]) (outs @ out) l s'"
proof -
  let ?sz = "tw_size w" and ?m = "window_table_of val w rs" and ?m' = "window_table_of val w (rs @ [r])"
  let ?stm = "max (stream_time_of rs) (r_timestamp r)"
  let ?close = "?stm - tw_grace w"
  note k = keeps [unfolded window_keeps_def]
  have h: "win_view ks vk vs vv ?sz s ?m" and stm: "stream_time_of rs \<le> i64_max" and em: "in_i64 emitted"
    and g: "\<forall>r' \<in> set (rs @ [r]). good (r_value r')"
    using k r(3) by auto
  obtain out l s' where step: "window_core rc emit fwd w emitted (val k (r_value r)) k (r_timestamp r) (sat_sub ?stm (tw_grace w)) s = Some (out, l, s')"
      "win_view ks vk vs vv ?sz s' ?m'"
      "is_on_close emit \<longrightarrow> l = ?close \<and> distinct (map r_key out) \<and> set out = final_records ?sz ?m' emitted ?close"
    using window_core_step [OF S w h r(1,2) refl stm vals g em] by blast
  have ts: "0 \<le> r_timestamp r" "r_timestamp r \<le> i64_max" "0 \<le> tw_grace w" "tw_grace w < i64_max"
    using r(1) w by (auto simp: window_record_ok_def windows_ok_def)
  have l: "in_i64 l"
  proof (cases "is_on_close emit")
    case True
    then show ?thesis
      using step(3) ts stm by (auto simp: in_i64_def)
  next
    case False
    then show ?thesis
      using step(1) em by (auto simp: window_core_def split: bind_splits prod.splits)
  qed
  have final: "distinct (map r_key (outs @ out)) \<and> set (outs @ out) = final_records ?sz ?m' i64_min ?close" if c: "is_on_close emit"
  proof -
    have le: "i64_min \<le> emitted" "emitted \<le> ?close"
      using k c em ts by (auto simp: in_i64_def split: if_splits)
    have old: "?m' x = ?m x" if x: "snd x + ?sz < emitted" for x
      using le(2) x by (auto simp: window_table_of_snoc admits_def)
    have "final_records ?sz ?m' i64_min emitted = final_records ?sz ?m i64_min emitted"
      by (rule final_records_cong) (rule old)
    then have all: "set (outs @ out) = final_records ?sz ?m' i64_min ?close"
      using final_records_split [OF le, of ?sz ?m'] k c step(3) by simp
    have "set (map r_key outs) \<inter> set (map r_key out) = {}"
      using k c step(3) final_records_disjoint [of ?sz ?m i64_min emitted ?m' ?close] by simp
    then show ?thesis
      using all k c step(3) by simp
  qed
  have "window_keeps ks vk vs vv w val good emit (rs @ [r]) (outs @ out) l s'"
    unfolding window_keeps_def using step(2,3) l g ts stm final by (simp add: stream_time_of_snoc)
  then show ?thesis
    using step(1) by blast
qed

lemma window_keeps_fresh:
  "window_keeps ks vk vs vv w val good emit [] [] i64_min (wst_fresh cached name ks vs topic (tw_size w))"
proof -
  have empty: "window_table_of val w [] = (\<lambda>_. None)"
    by (simp add: fun_eq_iff window_table_of_def window_entries_def window_fold_def)
  then show ?thesis
    using win_view_fresh [of ks vk vs vv "tw_size w" cached name topic "tw_size w"]
    by (simp add: window_keeps_def final_records_def stream_time_of_def in_i64_def)
qed

abbreviation wa_step :: "record_context \<times> ('k, 'v) rec \<Rightarrow> ('k, 'v, 'va) window_aggregate \<Rightarrow> ('k, 'va) window_store \<Rightarrow>
    (('k windowed, 'va change) rec list \<times> ('k, 'v, 'va) window_aggregate \<times> ('k, 'va) window_store) option" where
  "wa_step \<equiv> \<lambda>i. wa_process (fst i) (snd i)"

abbreviation wr_step :: "record_context \<times> ('k, 'v) rec \<Rightarrow> ('k, 'v) window_reduce \<Rightarrow> ('k, 'v) window_store \<Rightarrow>
    (('k windowed, 'v change) rec list \<times> ('k, 'v) window_reduce \<times> ('k, 'v) window_store) option" where
  "wr_step \<equiv> \<lambda>i. wr_process (fst i) (snd i)"

lemma wa_run_keeps:
  assumes S: "serde_contract ks vk" "serde_contract vs vv" and w: "windows_ok (wa_windows p0)"
    and p0: "wa_stream_time p0 = i64_min" "wa_last_emitted_close p0 = i64_min"
    and vals: "values_valid (length inputs) (wa_value p0) good vv"
    and inputs: "\<forall>i \<in> set inputs. window_record_ok vk (wa_windows p0) (snd i) \<and> good (r_value (snd i))"
  shows "\<exists>outs p s. proc_run wa_step inputs p0 (wst_fresh cached name ks vs topic (tw_size (wa_windows p0))) = Some (outs, p, s) \<and>
    window_keeps ks vk vs vv (wa_windows p0) (wa_value p0) good (wa_emit p0) (map snd inputs) outs (wa_last_emitted_close p) s"
proof -
  let ?w = "wa_windows p0"
  let ?keeps = "\<lambda>n g outs p s. length g = n \<and> p = p0\<lparr>wa_stream_time := stream_time_of (map snd g), wa_last_emitted_close := wa_last_emitted_close p\<rparr> \<and>
    window_keeps ks vk vs vv ?w (wa_value p0) good (wa_emit p0) (map snd g) outs (wa_last_emitted_close p) s"
  have step: "\<exists>out p' s'. wa_step i p s = Some (out, p', s') \<and> ?keeps (Suc n) (g @ [i]) (outs @ out) p' s'"
    if kp: "?keeps n g outs p s" and i: "window_record_ok vk ?w (snd i) \<and> good (r_value (snd i))" and n: "n < length inputs" for n i g outs p s
  proof -
    obtain k where k: "r_key (snd i) = Some k"
      using i by (auto simp: window_record_ok_def split: option.splits)
    have pe: "p = p0\<lparr>wa_stream_time := stream_time_of (map snd g), wa_last_emitted_close := wa_last_emitted_close p\<rparr>"
      using kp by simp
    have p: "wa_windows p = ?w" "wa_emit p = wa_emit p0" "wa_forwarder p = wa_forwarder p0" "wa_value p = wa_value p0"
      "wa_stream_time p = stream_time_of (map snd g)"
      "p\<lparr>wa_stream_time := t, wa_last_emitted_close := l\<rparr> = p0\<lparr>wa_stream_time := t, wa_last_emitted_close := l\<rparr>" for t l
      by (subst pe, simp)+
    have keeps: "window_keeps ks vk vs vv ?w (wa_value p0) good (wa_emit p0) (map snd g) outs (wa_last_emitted_close p) s"
      and len: "length (map snd g) < length inputs" and ok: "window_record_ok vk ?w (snd i)" "good (r_value (snd i))"
      using kp i n by auto
    obtain out l s' where "window_core (fst i) (wa_emit p0) (wa_forwarder p0) ?w (wa_last_emitted_close p) (wa_value p0 k (r_value (snd i))) k
        (r_timestamp (snd i)) (sat_sub (max (stream_time_of (map snd g)) (r_timestamp (snd i))) (tw_grace ?w)) s = Some (out, l, s')"
      "window_keeps ks vk vs vv ?w (wa_value p0) good (wa_emit p0) (map snd g @ [snd i]) (outs @ out) l s'"
      using window_core_keeps [OF S w keeps ok(1) k ok(2) vals len] by blast
    then show ?thesis
      using kp k by (simp add: wa_process_core p Let_def stream_time_of_snoc)
  qed
  have "?keeps 0 [] [] p0 (wst_fresh cached name ks vs topic (tw_size ?w))"
    using window_keeps_fresh [where w = ?w] p0 by (cases p0) (simp add: stream_time_of_def)
  from proc_run_out_inv [where keeps = ?keeps and step = wa_step and upd = "\<lambda>i g. g @ [i]" and N = "length inputs", OF step this inputs]
  show ?thesis
    by (auto simp: fold_snoc)
qed

lemma wr_run_keeps:
  fixes ks :: "'k serde" and p0 :: "('k, 'v) window_reduce"
  assumes S: "serde_contract ks vk" "serde_contract vs vv" and w: "windows_ok (wr_windows p0)"
    and p0: "wr_stream_time p0 = i64_min" "wr_last_emitted_close p0 = i64_min"
    and vals: "values_valid (length inputs) (wr_value p0 :: 'k \<Rightarrow> 'v \<Rightarrow> 'v option \<Rightarrow> 'v) good vv"
    and inputs: "\<forall>i \<in> set inputs. window_record_ok vk (wr_windows p0) (snd i) \<and> good (r_value (snd i))"
  shows "\<exists>outs p s. proc_run wr_step inputs p0 (wst_fresh cached name ks vs topic (tw_size (wr_windows p0))) = Some (outs, p, s) \<and>
    window_keeps ks vk vs vv (wr_windows p0) (wr_value p0) good (wr_emit p0) (map snd inputs) outs (wr_last_emitted_close p) s"
proof -
  let ?w = "wr_windows p0"
  let ?keeps = "\<lambda>n g outs p s. length g = n \<and> p = p0\<lparr>wr_stream_time := stream_time_of (map snd g), wr_last_emitted_close := wr_last_emitted_close p\<rparr> \<and>
    window_keeps ks vk vs vv ?w (wr_value p0) good (wr_emit p0) (map snd g) outs (wr_last_emitted_close p) s"
  have step: "\<exists>out p' s'. wr_step i p s = Some (out, p', s') \<and> ?keeps (Suc n) (g @ [i]) (outs @ out) p' s'"
    if kp: "?keeps n g outs p s" and i: "window_record_ok vk ?w (snd i) \<and> good (r_value (snd i))" and n: "n < length inputs" for n i g outs p s
  proof -
    obtain k where k: "r_key (snd i) = Some k"
      using i by (auto simp: window_record_ok_def split: option.splits)
    have pe: "p = p0\<lparr>wr_stream_time := stream_time_of (map snd g), wr_last_emitted_close := wr_last_emitted_close p\<rparr>"
      using kp by simp
    have p: "wr_windows p = ?w" "wr_emit p = wr_emit p0" "wr_forwarder p = wr_forwarder p0" "wr_value p = wr_value p0"
      "wr_stream_time p = stream_time_of (map snd g)"
      "p\<lparr>wr_stream_time := t, wr_last_emitted_close := l\<rparr> = p0\<lparr>wr_stream_time := t, wr_last_emitted_close := l\<rparr>" for t l
      by (subst pe, simp)+
    have keeps: "window_keeps ks vk vs vv ?w (wr_value p0) good (wr_emit p0) (map snd g) outs (wr_last_emitted_close p) s"
      and len: "length (map snd g) < length inputs" and ok: "window_record_ok vk ?w (snd i)" "good (r_value (snd i))"
      using kp i n by auto
    obtain out l s' where "window_core (fst i) (wr_emit p0) (wr_forwarder p0) ?w (wr_last_emitted_close p) (wr_value p0 k (r_value (snd i))) k
        (r_timestamp (snd i)) (sat_sub (max (stream_time_of (map snd g)) (r_timestamp (snd i))) (tw_grace ?w)) s = Some (out, l, s')"
      "window_keeps ks vk vs vv ?w (wr_value p0) good (wr_emit p0) (map snd g @ [snd i]) (outs @ out) l s'"
      using window_core_keeps [OF S w keeps ok(1) k ok(2) vals len] by blast
    then show ?thesis
      using kp k by (simp add: wr_process_core p Let_def stream_time_of_snoc)
  qed
  have "?keeps 0 [] [] p0 (wst_fresh cached name ks vs topic (tw_size ?w))"
    using window_keeps_fresh [where w = ?w] p0 by (cases p0) (simp add: stream_time_of_def)
  from proc_run_out_inv [where keeps = ?keeps and step = wr_step and upd = "\<lambda>i g. g @ [i]" and N = "length inputs", OF step this inputs]
  show ?thesis
    by (auto simp: fold_snoc)
qed

section \<open>Properties\<close>

lemma window_keeps_fetch:
  assumes "serde_contract ks vk" "serde_contract vs vv" "window_keeps ks vk vs vv w val good emit rs outs emitted s" "window_valid vk (tw_size w) (k, ws)"
  shows "\<exists>s'. fetch_single k ws s = Some (window_fold (val k) (window_entries w (k, ws) rs), s')"
  using assms(3) win_view_get [OF assms(1,2) _ assms(4), of s "window_table_of val w rs"]
  by (auto simp: window_keeps_def window_table_of_def)

text \<open>C18: Windowed aggregation is the fold of each window's records.  After any sequence of records on a fresh window
  store, cached or not and under either emit strategy, the store holds for every key and window the left fold of
  the aggregator over the records admitted to that window, in order of arrival, stamped with the largest record
  timestamp, and nothing for a window that admitted no record; no input makes the processor panic.\<close>

theorem window_aggregate_exact:
  assumes "serde_contract ks vk" "serde_contract vs vv" "windows_ok (wa_windows p0)"
    and "wa_stream_time p0 = i64_min" "wa_last_emitted_close p0 = i64_min"
    and "values_valid (length inputs) (wa_value p0) good vv"
    and "\<forall>i \<in> set inputs. window_record_ok vk (wa_windows p0) (snd i) \<and> good (r_value (snd i))"
    and "window_valid vk (tw_size (wa_windows p0)) (k, ws)"
  shows "\<exists>outs p s s'. proc_run wa_step inputs p0 (wst_fresh cached name ks vs topic (tw_size (wa_windows p0))) = Some (outs, p, s) \<and>
    fetch_single k ws s = Some (window_fold (wa_value p0 k) (window_entries (wa_windows p0) (k, ws) (map snd inputs)), s')"
  using wa_run_keeps [OF assms(1-7)] window_keeps_fetch [OF assms(1,2) _ assms(8)] by blast

definition count_windows :: "emit_strategy \<Rightarrow> (string, int, int) window_aggregate" where
  "count_windows emit = \<lparr>wa_store_name = ''w'', wa_windows = \<lparr>tw_size = 10, tw_advance = 5, tw_grace = 3\<rparr>, wa_init = 0,
     wa_agg = (\<lambda>_ _ n. n + 1), wa_emit = emit, wa_stream_time = i64_min, wa_last_emitted_close = i64_min, wa_forwarder = tf_resolve False\<rparr>"

definition window_inputs :: "(record_context \<times> (string, int) rec) list" where
  "window_inputs = map (\<lambda>(k, ts). (\<lparr>rc_topic = ''in'', rc_partition = 0, rc_offset = 0, rc_timestamp = ts\<rparr>, rec_new (Some k) 7 ts))
     [(''a'', 7), (''a'', 3), (''b'', 14), (''a'', 2)]"

lemma window_inputs_ok:
  "\<forall>i \<in> set window_inputs. window_record_ok (\<lambda>s. utf8_valid (str_bytes s)) \<lparr>tw_size = 10, tw_advance = 5, tw_grace = 3\<rparr> (snd i) \<and> in_i64 (r_value (snd i))"
  by (simp add: window_inputs_def window_record_ok_def rec_new_def str_bytes_def in_i64_def)

lemma window_inputs_entries:
  "window_entries \<lparr>tw_size = 10, tw_advance = 5, tw_grace = 3\<rparr> (''a'', 0) (map snd window_inputs) = [(7, 7), (3, 7)]"
  by (simp add: window_inputs_def window_entries_def admits_def in_window_def stream_time_of_def rec_new_def upt_rec)

lemma count_windows_value: "wa_value (count_windows emit) k v old = (case old of None \<Rightarrow> 0 | Some n \<Rightarrow> n) + 1"
  by (simp add: wa_value_def count_windows_def split: option.splits)

lemma window_fold_none [simp]: "window_fold val es = None \<longleftrightarrow> es = []"
  by (cases es rule: rev_cases) (simp_all add: window_fold_def)

lemma window_fold_induct:
  assumes "window_fold val es = Some e" "\<forall>x \<in> set es. good (snd x)"
    and "\<And>v. good v \<Longrightarrow> P (Suc 0) (val v None)" "\<And>n v a. good v \<Longrightarrow> P n a \<Longrightarrow> P (Suc n) (val v (Some a))"
  shows "P (length es) (snd e)"
  using assms(1,2)
proof (induction es arbitrary: e rule: rev_induct)
  case Nil
  then show ?case
    by (simp add: window_fold_def)
next
  case (snoc x es)
  then show ?case
    using assms(3,4) by (cases "window_fold val es") (auto simp: window_fold_snoc window_value_def)
qed

lemma count_windows_valid: "values_valid (length window_inputs) (wa_value (count_windows emit)) in_i64 in_i64"
proof -
  have "snd e = int (length es)" if "window_fold (wa_value (count_windows emit) k) es = Some e" for k es e
    using that by (rule window_fold_induct [where good = "\<lambda>_. True"]) (simp_all add: count_windows_value)
  then show ?thesis
    by (auto simp: values_valid_def in_i64_def window_inputs_def)
qed

lemma count_windows_parts:
  "wa_windows (count_windows emit) = \<lparr>tw_size = 10, tw_advance = 5, tw_grace = 3\<rparr>" "wa_emit (count_windows emit) = emit"
  "wa_stream_time (count_windows emit) = i64_min" "wa_last_emitted_close (count_windows emit) = i64_min"
  by (simp_all add: count_windows_def)

lemma count_windows_a: "window_fold (wa_value (count_windows emit) k) [(7, 7), (3, 7)] = Some (7, 2)"
  by (simp add: window_fold_def window_value_def wa_value_def count_windows_def)

lemma sample_windows_ok: "windows_ok \<lparr>tw_size = 10, tw_advance = 5, tw_grace = 3\<rparr>"
  by (simp add: windows_ok_def)

lemma sample_window_valid: "window_valid (\<lambda>s. utf8_valid (str_bytes s)) 10 (''a'', 0)"
  by (simp add: window_valid_def str_bytes_def in_i64_def)

lemma window_aggregate_exact_witness:
  "\<exists>outs p s s'. proc_run wa_step window_inputs (count_windows OnWindowUpdate) (wst_fresh True ''w'' StringSerde I64Serde ''t'' 10) = Some (outs, p, s) \<and>
    fetch_single ''a'' 0 s = Some (Some (7, 2), s')"
  using window_aggregate_exact [where ?p0.0 = "count_windows OnWindowUpdate" and k = "''a''" and ws = 0 and cached = True and name = "''w''" and topic = "''t''",
      OF string_serde.serde_contract_axioms i64_serde.serde_contract_axioms _ _ _ count_windows_valid]
    window_inputs_ok window_inputs_entries count_windows_a sample_windows_ok sample_window_valid
  by (simp add: count_windows_parts)

text \<open>C19: Emit-final emits every closed window once, with its final result.  Under \<^verbatim>\<open>on_window_close\<close>, after any sequence of
  records, the records forwarded so far have pairwise different windowed keys: no window is emitted twice.  Every window
  whose end lies before the close time (stream time minus grace) has been emitted, no window whose end lies after it has,
  and what was emitted is the value and the timestamp the store holds for the window at the end of the run: a window is
  never emitted while it is open, never with a value that changes later, and never forgotten.\<close>

theorem window_emit_final_once:
  assumes "serde_contract ks vk" "serde_contract vs vv" "windows_ok (wa_windows p0)" "is_on_close (wa_emit p0)"
    and "wa_stream_time p0 = i64_min" "wa_last_emitted_close p0 = i64_min"
    and "values_valid (length inputs) (wa_value p0) good vv"
    and "\<forall>i \<in> set inputs. window_record_ok vk (wa_windows p0) (snd i) \<and> good (r_value (snd i))" "inputs \<noteq> []"
  shows "\<exists>outs p s. proc_run wa_step inputs p0 (wst_fresh cached name ks vs topic (tw_size (wa_windows p0))) = Some (outs, p, s) \<and>
    distinct (map r_key outs) \<and>
    final_records (tw_size (wa_windows p0)) (window_table_of (wa_value p0) (wa_windows p0) (map snd inputs)) i64_min
      (stream_time_of (map snd inputs) - tw_grace (wa_windows p0)) \<subseteq> set outs \<and>
    set outs \<subseteq> final_records (tw_size (wa_windows p0)) (window_table_of (wa_value p0) (wa_windows p0) (map snd inputs)) i64_min
      (stream_time_of (map snd inputs) - tw_grace (wa_windows p0) + 1)"
  using wa_run_keeps [OF assms(1-3,5-8), of cached name topic] assms(4,9)
  by (auto simp: window_keeps_def intro: subsetD [OF final_records_mono])

lemma window_emit_final_once_witness:
  "\<exists>outs p s. proc_run wa_step window_inputs (count_windows OnWindowClose) (wst_fresh False ''w'' StringSerde I64Serde ''t'' 10) = Some (outs, p, s) \<and>
    distinct (map r_key outs) \<and> final_record 10 (''a'', 0) (7, 2) \<in> set outs"
proof -
  have "stream_time_of (map snd window_inputs) = 14" "window_inputs \<noteq> []"
    by (simp_all add: window_inputs_def stream_time_of_def rec_new_def)
  moreover have "final_record 10 (''a'', 0) (7, 2) \<in> final_records 10
      (window_table_of (wa_value (count_windows OnWindowClose)) \<lparr>tw_size = 10, tw_advance = 5, tw_grace = 3\<rparr> (map snd window_inputs)) i64_min 11"
    unfolding final_records_def
    by (intro CollectI exI [of _ "(''a'', 0)"] exI [of _ "(7, 2)"])
      (simp add: window_table_of_def window_inputs_entries count_windows_a)
  ultimately show ?thesis
    using window_emit_final_once [where ?p0.0 = "count_windows OnWindowClose" and cached = False and name = "''w''" and topic = "''t''",
        OF string_serde.serde_contract_axioms i64_serde.serde_contract_axioms _ _ _ _ count_windows_valid]
      window_inputs_ok sample_windows_ok
    by (auto simp: count_windows_parts is_on_close_def)
qed

text \<open>C24: Windowed reduction is the fold of each window's records: as for aggregation, with the first record of a
  window as the seed.\<close>

theorem window_reduce_exact:
  fixes ks :: "'k serde" and p0 :: "('k, 'v) window_reduce"
  assumes "serde_contract ks vk" "serde_contract vs vv" "windows_ok (wr_windows p0)"
    and "wr_stream_time p0 = i64_min" "wr_last_emitted_close p0 = i64_min"
    and "values_valid (length inputs) (wr_value p0 :: 'k \<Rightarrow> 'v \<Rightarrow> 'v option \<Rightarrow> 'v) good vv"
    and "\<forall>i \<in> set inputs. window_record_ok vk (wr_windows p0) (snd i) \<and> good (r_value (snd i))"
    and "window_valid vk (tw_size (wr_windows p0)) (k, ws)"
  shows "\<exists>outs p s s'. proc_run wr_step inputs p0 (wst_fresh cached name ks vs topic (tw_size (wr_windows p0))) = Some (outs, p, s) \<and>
    fetch_single k ws s = Some (window_fold (wr_value p0 k) (window_entries (wr_windows p0) (k, ws) (map snd inputs)), s')"
  using wr_run_keeps [OF assms(1-7)] window_keeps_fetch [OF assms(1,2) _ assms(8)] by blast

definition max_windows :: "(string, int) window_reduce" where
  "max_windows = \<lparr>wr_store_name = ''w'', wr_windows = \<lparr>tw_size = 10, tw_advance = 5, tw_grace = 3\<rparr>, wr_reducer = max,
     wr_emit = OnWindowUpdate, wr_stream_time = i64_min, wr_last_emitted_close = i64_min, wr_forwarder = tf_resolve False\<rparr>"

lemma max_windows_value: "wr_value max_windows k v old = (case old of None \<Rightarrow> v | Some acc \<Rightarrow> max acc v)"
  by (simp add: wr_value_def max_windows_def split: option.splits)

lemma max_windows_valid: "values_valid n (wr_value max_windows :: string \<Rightarrow> int \<Rightarrow> int option \<Rightarrow> int) in_i64 in_i64"
proof -
  have "in_i64 (snd e)" if "window_fold (wr_value max_windows k) es = Some e" "\<forall>x \<in> set es. in_i64 (snd x)" for k :: string and es e
    using that by (rule window_fold_induct) (simp_all add: max_windows_value max_def)
  then show ?thesis
    by (auto simp: values_valid_def)
qed

lemma window_reduce_exact_witness:
  "\<exists>outs p s s'. proc_run wr_step window_inputs max_windows (wst_fresh True ''w'' StringSerde I64Serde ''t'' 10) = Some (outs, p, s) \<and>
    fetch_single ''a'' 0 s = Some (Some (7, 7), s')"
proof -
  have fold: "window_fold (wr_value max_windows k) [(7, 7), (3, 7)] = Some (7, 7)" for k :: string
    by (simp add: window_fold_def window_value_def max_windows_value)
  moreover have "wr_windows max_windows = \<lparr>tw_size = 10, tw_advance = 5, tw_grace = 3\<rparr>" "wr_stream_time max_windows = i64_min"
    "wr_last_emitted_close max_windows = i64_min"
    by (simp_all add: max_windows_def)
  ultimately show ?thesis
    using window_reduce_exact [where ?p0.0 = max_windows and inputs = window_inputs and k = "''a''" and ws = 0 and cached = True and name = "''w''" and topic = "''t''",
        OF string_serde.serde_contract_axioms i64_serde.serde_contract_axioms _ _ _ max_windows_valid]
      window_inputs_ok window_inputs_entries sample_windows_ok sample_window_valid
    by (simp add: fold)
qed

end
