(* ===== verification/Processor_Graph.thy ===== *)
theory Processor_Graph
  imports Processor_Api "HOL-Library.Multiset" "HOL-Library.Monad_Syntax"
begin

text \<open>
  The runnable processor graph: \<^verbatim>\<open>processor/erased.rs\<close> (erased records and the dispatch), \<^verbatim>\<open>processor/api.rs\<close>
  (\<^verbatim>\<open>forward\<close> and \<^verbatim>\<open>schedule\<close>), \<^verbatim>\<open>processor/punctuation.rs\<close> (schedules), \<^verbatim>\<open>processor/node.rs\<close> (the node
  adapters with their downcasts), \<^verbatim>\<open>store/registry.rs\<close> and \<^verbatim>\<open>processor/graph.rs\<close> (the driver).

  The body of a user's processor or punctuator is a parameter: a value of the type \<open>prog\<close>, the tree of the
  context calls it can make.  What its fields hold is the user state \<open>'u\<close>; a state store behind
  \<^verbatim>\<open>Box<dyn StateStore>\<close> is an element of \<open>'st\<close>, and the trait's methods are a record of functions on it.  A
  \<^verbatim>\<open>Box<dyn Any>\<close> is a datum with the name of its type.  The result \<^const>\<open>None\<close> is a panic or, for the driver loop
  \<open>drain\<close>, also a loop that never ends; the theorems exclude both.
\<close>

section \<open>Erased records\<close>

record 'd any =
  an_type :: string
  an_data :: 'd

definition downcast :: "string \<Rightarrow> 'd any \<Rightarrow> 'd option" where
  "downcast t a = (if an_type a = t then Some (an_data a) else None)"

text \<open>The text of a serde error is not kept.\<close>

datatype processor_error =
    Downcast string string
  | Serde_Error string
  | Unknown_Subtopology string

record 'd erased_record =
  er_key :: "'d any option"
  er_value :: "'d any"
  er_timestamp :: int

record output_record =
  or_topic :: string
  or_key :: "bytes option"
  or_value :: "bytes option"
  or_timestamp :: int

section \<open>Schedules and user code\<close>

datatype punctuation_type = StreamTime | WallClockTime

text \<open>The context calls of a processor or punctuator: \<^verbatim>\<open>forward\<close>, \<^verbatim>\<open>schedule\<close> with the handle it returns, \<^verbatim>\<open>cancel\<close> on
  a handle, access to a named store (the second continuation is taken when the store is absent), access to its
  own fields and to the read-only global stores, and a panic.\<close>

datatype ('d, 'st, 'u) prog =
    Done
  | Forward "'d option" 'd int "('d, 'st, 'u) prog"
  | Schedule int punctuation_type "int \<Rightarrow> ('d, 'st, 'u) prog" "nat \<Rightarrow> ('d, 'st, 'u) prog"
  | Cancel nat "('d, 'st, 'u) prog"
  | With_Store string "'st \<Rightarrow> 'st" "'st \<Rightarrow> ('d, 'st, 'u) prog" "('d, 'st, 'u) prog"
  | With_Fields "'u \<Rightarrow> 'u" "'u \<Rightarrow> ('d, 'st, 'u) prog"
  | Panic

text \<open>\<^verbatim>\<open>TypedPunctuator<K, V, P>\<close> carries the types its context forwards; \<open>se_cancel\<close> is the address of the shared flag.\<close>

record ('d, 'st, 'u) schedule_entry =
  se_node_idx :: nat
  se_interval :: int
  se_ty :: punctuation_type
  se_next_time :: int
  se_punctuator :: "int \<Rightarrow> ('d, 'st, 'u) prog"
  se_key_type :: string
  se_value_type :: string
  se_cancel :: nat

record ('d, 'st, 'u) dispatch =
  d_buffer :: "(nat \<times> 'd erased_record) list"
  d_children :: "nat list"
  d_output :: "output_record list"
  d_stores :: "(string \<times> 'st) list"
  d_node_idx :: nat
  d_schedules :: "('d, 'st, 'u) schedule_entry list"
  d_stream_time :: int
  d_wall_clock :: int
  d_flags :: "bool list"
  d_user :: 'u

definition is_cancelled :: "bool list \<Rightarrow> ('d, 'st, 'u) schedule_entry \<Rightarrow> bool" where
  "is_cancelled flags e \<longleftrightarrow> se_cancel e < length flags \<and> flags ! se_cancel e"

text \<open>One boxed copy per child, in order; without children the record is dropped.\<close>

definition forward :: "string \<Rightarrow> string \<Rightarrow> 'd option \<Rightarrow> 'd \<Rightarrow> int \<Rightarrow> ('d, 'st, 'u) dispatch \<Rightarrow> ('d, 'st, 'u) dispatch" where
  "forward kt vt key value ts d =
    d\<lparr>d_buffer := d_buffer d @ map (\<lambda>child. (child, \<lparr>er_key = map_option (\<lambda>k. \<lparr>an_type = kt, an_data = k\<rparr>) key,
       er_value = \<lparr>an_type = vt, an_data = value\<rparr>, er_timestamp = ts\<rparr>)) (d_children d)\<rparr>"

definition schedule :: "string \<Rightarrow> string \<Rightarrow> int \<Rightarrow> punctuation_type \<Rightarrow> (int \<Rightarrow> ('d, 'st, 'u) prog) \<Rightarrow> ('d, 'st, 'u) dispatch \<Rightarrow>
    (nat \<times> ('d, 'st, 'u) dispatch) option" where
  "schedule kt vt interval ty punct d =
    (if interval < 1 then None
     else let base = (case ty of StreamTime \<Rightarrow> d_stream_time d | WallClockTime \<Rightarrow> d_wall_clock d);
              cancel = length (d_flags d);
              e = \<lparr>se_node_idx = d_node_idx d, se_interval = interval, se_ty = ty, se_next_time = sat_add base interval,
                   se_punctuator = punct, se_key_type = kt, se_value_type = vt, se_cancel = cancel\<rparr>
          in Some (cancel, d\<lparr>d_schedules := d_schedules d @ [e], d_flags := d_flags d @ [False]\<rparr>))"

definition cancel_flag :: "nat \<Rightarrow> ('d, 'st, 'u) dispatch \<Rightarrow> ('d, 'st, 'u) dispatch" where
  "cancel_flag h d = d\<lparr>d_flags := (d_flags d)[h := True]\<rparr>"

definition registry_put :: "string \<Rightarrow> 'st \<Rightarrow> (string \<times> 'st) list \<Rightarrow> (string \<times> 'st) list" where
  "registry_put name s reg = map (\<lambda>(n, s0). if n = name then (n, s) else (n, s0)) reg"

text \<open>User code runs against a context typed with the node's output types.\<close>

primrec run_prog :: "('d, 'st, 'u) prog \<Rightarrow> string \<Rightarrow> string \<Rightarrow> ('d, 'st, 'u) dispatch \<Rightarrow> ('d, 'st, 'u) dispatch option" where
  "run_prog Done kt vt d = Some d"
| "run_prog (Forward k v ts p) kt vt d = run_prog p kt vt (forward kt vt k v ts d)"
| "run_prog (Schedule iv ty pu cont) kt vt d =
    (case schedule kt vt iv ty pu d of None \<Rightarrow> None | Some (h, d') \<Rightarrow> run_prog (cont h) kt vt d')"
| "run_prog (Cancel h p) kt vt d = run_prog p kt vt (cancel_flag h d)"
| "run_prog (With_Store name upd cont absent) kt vt d =
    (case map_of (d_stores d) name of
       None \<Rightarrow> run_prog absent kt vt d
     | Some s \<Rightarrow> run_prog (cont s) kt vt (d\<lparr>d_stores := registry_put name (upd s) (d_stores d)\<rparr>))"
| "run_prog (With_Fields upd cont) kt vt d = run_prog (cont (d_user d)) kt vt (d\<lparr>d_user := upd (d_user d)\<rparr>)"
| "run_prog Panic kt vt d = None"

section \<open>Nodes\<close>

text \<open>\<^verbatim>\<open>ProcessorNode<KIn, VIn, KOut, VOut>\<close> with the bodies of \<^verbatim>\<open>init\<close>, \<^verbatim>\<open>process\<close> and \<^verbatim>\<open>close\<close> of its processor, and \<^verbatim>\<open>SinkNode<K, V, KS, VS>\<close>.\<close>

datatype ('d, 'st, 'u) erased_node =
    Processor_Node string string string string string "('d, 'st, 'u) prog" "record_context \<Rightarrow> ('d, 'd) rec \<Rightarrow> ('d, 'st, 'u) prog" "'u \<Rightarrow> 'u"
  | Sink_Node string string string string "'d serde" "'d serde"

definition downcast_record :: "string \<Rightarrow> string \<Rightarrow> string \<Rightarrow> 'd erased_record \<Rightarrow> processor_error + ('d, 'd) rec" where
  "downcast_record name kt vt er =
    (case downcast vt (er_value er) of
       None \<Rightarrow> Inl (Downcast name vt)
     | Some value \<Rightarrow>
        (case er_key er of
           None \<Rightarrow> Inr (rec_new None value (er_timestamp er))
         | Some boxed \<Rightarrow>
            (case downcast kt boxed of
               None \<Rightarrow> Inl (Downcast name kt)
             | Some k \<Rightarrow> Inr (rec_new (Some k) value (er_timestamp er)))))"

fun node_init :: "('d, 'st, 'u) erased_node \<Rightarrow> ('d, 'st, 'u) dispatch \<Rightarrow> ('d, 'st, 'u) dispatch option" where
  "node_init (Processor_Node name kin vin kout vout initp body closep) d = run_prog initp kout vout d"
| "node_init (Sink_Node name topic kt vt ks vs) d = Some d"

fun node_close :: "('d, 'st, 'u) erased_node \<Rightarrow> 'u \<Rightarrow> 'u" where
  "node_close (Processor_Node name kin vin kout vout initp body closep) u = closep u"
| "node_close (Sink_Node name topic kt vt ks vs) u = u"

fun node_process :: "record_context \<Rightarrow> ('d, 'st, 'u) erased_node \<Rightarrow> 'd erased_record \<Rightarrow> ('d, 'st, 'u) dispatch \<Rightarrow>
    (processor_error option \<times> ('d, 'st, 'u) dispatch) option" where
  "node_process rc (Processor_Node name kin vin kout vout initp body closep) er d =
    (case downcast_record name kin vin er of
       Inl e \<Rightarrow> Some (Some e, d)
     | Inr r \<Rightarrow> map_option (Pair None) (run_prog (body rc r) kout vout d))"
| "node_process rc (Sink_Node name topic kt vt ks vs) er d =
    (case downcast_record name kt vt er of
       Inl e \<Rightarrow> Some (Some e, d)
     | Inr r \<Rightarrow> Some (None, d\<lparr>d_output := d_output d @
         [\<lparr>or_topic = topic, or_key = map_option (sd_ser ks topic) (r_key r), or_value = Some (sd_ser vs topic (r_value r)),
           or_timestamp = er_timestamp er\<rparr>]\<rparr>))"

text \<open>\<^verbatim>\<open>SourceNode<K, V, KS, VS>\<close> with the topic and children of its \<^verbatim>\<open>GraphSource\<close>.\<close>

record 'd graph_source =
  gs_topic :: string
  gs_name :: string
  gs_key_type :: string
  gs_value_type :: string
  gs_key_serde :: "'d serde"
  gs_value_serde :: "'d serde"
  gs_children :: "nat list"

definition source_deserialize :: "'d graph_source \<Rightarrow> bytes option \<Rightarrow> bytes \<Rightarrow> int \<Rightarrow> processor_error + 'd erased_record" where
  "source_deserialize src key value ts =
    (case (case key of
             None \<Rightarrow> Inr None
           | Some kb \<Rightarrow> (case sd_de (gs_key_serde src) (gs_name src) kb of
                          None \<Rightarrow> Inl (Serde_Error (gs_name src))
                        | Some k \<Rightarrow> Inr (Some \<lparr>an_type = gs_key_type src, an_data = k\<rparr>))) of
       Inl e \<Rightarrow> Inl e
     | Inr k \<Rightarrow> (case sd_de (gs_value_serde src) (gs_name src) value of
                  None \<Rightarrow> Inl (Serde_Error (gs_name src))
                | Some v \<Rightarrow> Inr \<lparr>er_key = k, er_value = \<lparr>an_type = gs_value_type src, an_data = v\<rparr>, er_timestamp = ts\<rparr>))"

section \<open>The graph\<close>

text \<open>The methods of \<^verbatim>\<open>dyn StateStore\<close> the graph calls; \<open>so_flush_cache_into\<close> returns what it pushes for the given children.\<close>

record ('d, 'st) store_ops =
  so_name :: "'st \<Rightarrow> string"
  so_changelog_topic :: "'st \<Rightarrow> string"
  so_take_changelog_ts :: "'st \<Rightarrow> (bytes \<times> bytes option \<times> int option) list \<times> 'st"
  so_apply_changelog_ts :: "bytes \<Rightarrow> bytes option \<Rightarrow> int \<Rightarrow> 'st \<Rightarrow> 'st"
  so_set_logging :: "bool \<Rightarrow> 'st \<Rightarrow> 'st"
  so_flush_cache_into :: "nat list \<Rightarrow> 'st \<Rightarrow> ((nat \<times> 'd erased_record) list \<times> 'st) option"
  so_clear :: "'st \<Rightarrow> 'st"
  so_snapshot :: "'st \<Rightarrow> bytes option"
  so_restore_snapshot :: "bytes \<Rightarrow> 'st \<Rightarrow> streams_error + 'st"

text \<open>The store registry and the cache owners are hash maps: association lists in the order of their iteration.\<close>

record ('d, 'st, 'u) graph =
  g_nodes :: "('d, 'st, 'u) erased_node list"
  g_children :: "nat list list"
  g_sources :: "'d graph_source list"
  g_output :: "output_record list"
  g_stores :: "(string \<times> 'st) list"
  g_schedules :: "('d, 'st, 'u) schedule_entry list"
  g_stream_time :: int
  g_wall_clock :: int
  g_cache_owner :: "(string \<times> nat) list"
  g_flags :: "bool list"
  g_user :: 'u

text \<open>The disjoint borrows of a dispatch, and the graph after the call.\<close>

definition lend :: "('d, 'st, 'u) graph \<Rightarrow> nat \<Rightarrow> nat list \<Rightarrow> (nat \<times> 'd erased_record) list \<Rightarrow> ('d, 'st, 'u) dispatch" where
  "lend g idx children buffer =
    \<lparr>d_buffer = buffer, d_children = children, d_output = g_output g, d_stores = g_stores g, d_node_idx = idx,
     d_schedules = g_schedules g, d_stream_time = g_stream_time g, d_wall_clock = g_wall_clock g, d_flags = g_flags g,
     d_user = g_user g\<rparr>"

definition take_back :: "('d, 'st, 'u) dispatch \<Rightarrow> ('d, 'st, 'u) graph \<Rightarrow> ('d, 'st, 'u) graph" where
  "take_back d g =
    g\<lparr>g_output := d_output d, g_stores := d_stores d, g_schedules := d_schedules d, g_flags := d_flags d, g_user := d_user d\<rparr>"

type_synonym ('d, 'st, 'u) outcome = "(processor_error option \<times> ('d, 'st, 'u) graph) option"

definition drain_step :: "record_context \<Rightarrow> nat \<Rightarrow> 'd erased_record \<Rightarrow> (nat \<times> 'd erased_record) list \<Rightarrow> ('d, 'st, 'u) graph \<Rightarrow>
    (processor_error option \<times> (nat \<times> 'd erased_record) list \<times> ('d, 'st, 'u) graph) option" where
  "drain_step rc idx er buffer g =
    (if idx < length (g_children g) \<and> idx < length (g_nodes g)
     then map_option (\<lambda>(res, d). (res, d_buffer d, take_back d g))
       (node_process rc (g_nodes g ! idx) er (lend g idx (g_children g ! idx) buffer))
     else None)"

partial_function (option) drain :: "record_context \<Rightarrow> (nat \<times> 'd erased_record) list \<Rightarrow> ('d, 'st, 'u) graph \<Rightarrow> ('d, 'st, 'u) outcome" where
  "drain rc buffer g =
    (case buffer of
       [] \<Rightarrow> Some (None, g)
     | (idx, er) # rest \<Rightarrow>
        Option.bind (drain_step rc idx er rest g)
          (\<lambda>(res, buffer', g'). case res of Some e \<Rightarrow> Some (Some e, g') | None \<Rightarrow> drain rc buffer' g'))"

text \<open>The seeding loop of \<^verbatim>\<open>pipe\<close>: one deserialization per child of each source on the topic; the first error ends it.\<close>

fun seed_children :: "'d graph_source \<Rightarrow> bytes option \<Rightarrow> bytes \<Rightarrow> int \<Rightarrow> nat list \<Rightarrow> processor_error + (nat \<times> 'd erased_record) list" where
  "seed_children src key value ts [] = Inr []"
| "seed_children src key value ts (c # cs) =
    (case source_deserialize src key value ts of
       Inl e \<Rightarrow> Inl e
     | Inr er \<Rightarrow> map_sum id (Cons (c, er)) (seed_children src key value ts cs))"

fun seed :: "string \<Rightarrow> bytes option \<Rightarrow> bytes \<Rightarrow> int \<Rightarrow> 'd graph_source list \<Rightarrow> processor_error + (nat \<times> 'd erased_record) list" where
  "seed topic key value ts [] = Inr []"
| "seed topic key value ts (src # srcs) =
    (if gs_topic src = topic
     then (case seed_children src key value ts (gs_children src) of
             Inl e \<Rightarrow> Inl e
           | Inr b \<Rightarrow> map_sum id (append b) (seed topic key value ts srcs))
     else seed topic key value ts srcs)"

definition pipe :: "string \<Rightarrow> int \<Rightarrow> int \<Rightarrow> bytes option \<Rightarrow> bytes \<Rightarrow> int \<Rightarrow> ('d, 'st, 'u) graph \<Rightarrow> ('d, 'st, 'u) outcome" where
  "pipe topic part offset key value timestamp g =
    (let g1 = g\<lparr>g_stream_time := max (g_stream_time g) timestamp\<rparr>;
         rc = \<lparr>rc_topic = topic, rc_partition = part, rc_offset = offset, rc_timestamp = timestamp\<rparr>
     in case seed topic key value timestamp (g_sources g1) of
          Inl e \<Rightarrow> Some (Some e, g1)
        | Inr buffer \<Rightarrow> drain rc buffer g1)"

text \<open>Firing one schedule: the punctuator is swapped out while it runs, then what it forwarded is drained.\<close>

definition set_punctuator :: "nat \<Rightarrow> (int \<Rightarrow> ('d, 'st, 'u) prog) \<Rightarrow> ('d, 'st, 'u) graph \<Rightarrow> ('d, 'st, 'u) graph" where
  "set_punctuator i p g = g\<lparr>g_schedules := (g_schedules g)[i := (g_schedules g ! i)\<lparr>se_punctuator := p\<rparr>]\<rparr>"

definition internal_context :: "int \<Rightarrow> record_context" where
  "internal_context ts = \<lparr>rc_topic = [], rc_partition = -1, rc_offset = -1, rc_timestamp = ts\<rparr>"

definition fire_schedule :: "nat \<Rightarrow> int \<Rightarrow> ('d, 'st, 'u) graph \<Rightarrow> ('d, 'st, 'u) outcome" where
  "fire_schedule i ts g =
    (if i < length (g_schedules g) \<and> se_node_idx (g_schedules g ! i) < length (g_children g)
     then let e = g_schedules g ! i; punct = se_punctuator e; g1 = set_punctuator i (\<lambda>_. Done) g in
       Option.bind (run_prog (punct ts) (se_key_type e) (se_value_type e) (lend g1 (se_node_idx e) (g_children g1 ! se_node_idx e) []))
         (\<lambda>d. drain (internal_context ts) (d_buffer d) (set_punctuator i punct (take_back d g1)))
     else None)"

definition next_fire :: "int \<Rightarrow> int \<Rightarrow> int \<Rightarrow> int" where
  "next_fire now next_time interval =
    (if sat_add next_time interval \<le> now then sat_add now interval else sat_add next_time interval)"

fun punctuate_loop :: "punctuation_type \<Rightarrow> int \<Rightarrow> nat list \<Rightarrow> ('d, 'st, 'u) graph \<Rightarrow> ('d, 'st, 'u) outcome" where
  "punctuate_loop ty now [] g = Some (None, g)"
| "punctuate_loop ty now (i # is) g =
    (let e = g_schedules g ! i in
     if se_ty e \<noteq> ty \<or> is_cancelled (g_flags g) e \<or> now < se_next_time e then punctuate_loop ty now is g
     else Option.bind (fire_schedule i now g) (\<lambda>(res, g1). case res of
            Some err \<Rightarrow> Some (Some err, g1)
          | None \<Rightarrow> punctuate_loop ty now is
              (g1\<lparr>g_schedules := (g_schedules g1)[i := (g_schedules g1 ! i)\<lparr>se_next_time := next_fire now (se_next_time e) (se_interval e)\<rparr>]\<rparr>)))"

definition punctuate :: "punctuation_type \<Rightarrow> int \<Rightarrow> ('d, 'st, 'u) graph \<Rightarrow> ('d, 'st, 'u) outcome" where
  "punctuate ty now g =
    (let g1 = g\<lparr>g_schedules := filter (\<lambda>e. \<not> is_cancelled (g_flags g) e) (g_schedules g)\<rparr>
     in punctuate_loop ty now [0..<length (g_schedules g1)] g1)"

definition punctuate_stream_time :: "int \<Rightarrow> ('d, 'st, 'u) graph \<Rightarrow> ('d, 'st, 'u) outcome" where
  "punctuate_stream_time t g =
    (let g1 = g\<lparr>g_stream_time := max (g_stream_time g) t\<rparr> in punctuate StreamTime (g_stream_time g1) g1)"

definition punctuate_wall_clock :: "int \<Rightarrow> ('d, 'st, 'u) graph \<Rightarrow> ('d, 'st, 'u) outcome" where
  "punctuate_wall_clock now_ms g = punctuate WallClockTime now_ms (g\<lparr>g_wall_clock := now_ms\<rparr>)"

text \<open>Flushing the record caches, upstream owners first.\<close>

fun flush_owners :: "('d, 'st) store_ops \<Rightarrow> (string \<times> nat) list \<Rightarrow> record_context \<Rightarrow> ('d, 'st, 'u) graph \<Rightarrow> ('d, 'st, 'u) outcome" where
  "flush_owners ops [] rc g = Some (None, g)"
| "flush_owners ops ((name, idx) # owners) rc g =
    (if idx < length (g_children g)
     then Option.bind
       (case map_of (g_stores g) name of
          None \<Rightarrow> Some ([], g)
        | Some s \<Rightarrow> map_option (\<lambda>(pushed, s'). (pushed, g\<lparr>g_stores := registry_put name s' (g_stores g)\<rparr>))
                      (so_flush_cache_into ops (g_children g ! idx) s))
       (\<lambda>(buffer, g1). Option.bind (drain rc buffer g1)
          (\<lambda>(res, g2). case res of Some e \<Rightarrow> Some (Some e, g2) | None \<Rightarrow> flush_owners ops owners rc g2))
     else None)"

definition flush_caches :: "('d, 'st) store_ops \<Rightarrow> ('d, 'st, 'u) graph \<Rightarrow> ('d, 'st, 'u) outcome" where
  "flush_caches ops g = flush_owners ops (sort_key snd (g_cache_owner g)) (internal_context (g_stream_time g)) g"

fun init_nodes :: "nat list \<Rightarrow> ('d, 'st, 'u) graph \<Rightarrow> ('d, 'st, 'u) graph option" where
  "init_nodes [] g = Some g"
| "init_nodes (idx # is) g =
    Option.bind (node_init (g_nodes g ! idx) (lend (g\<lparr>g_output := []\<rparr>) idx [] []))
      (\<lambda>d. init_nodes is ((take_back d g)\<lparr>g_output := g_output g\<rparr>))"

definition init_processors :: "('d, 'st, 'u) graph \<Rightarrow> ('d, 'st, 'u) graph option" where
  "init_processors g = init_nodes [0..<length (g_nodes g)] g"

definition close_processors :: "('d, 'st, 'u) graph \<Rightarrow> ('d, 'st, 'u) graph" where
  "close_processors g = g\<lparr>g_user := fold node_close (g_nodes g) (g_user g)\<rparr>"

definition take_output :: "('d, 'st, 'u) graph \<Rightarrow> output_record list \<times> ('d, 'st, 'u) graph" where
  "take_output g = (g_output g, g\<lparr>g_output := []\<rparr>)"

section \<open>Changelogs and snapshots of the stores\<close>

definition drain_changelogs :: "('d, 'st) store_ops \<Rightarrow> string list \<Rightarrow> ('d, 'st, 'u) graph \<Rightarrow>
    (string \<times> bytes \<times> bytes option \<times> int option) list \<times> ('d, 'st, 'u) graph" where
  "drain_changelogs ops reuse g =
    (concat (map (\<lambda>(_, s). let (entries, _) = so_take_changelog_ts ops s; topic = so_changelog_topic ops s in
         if entries = [] \<or> topic \<in> set reuse then [] else map (\<lambda>(k, v, ts). (topic, k, v, ts)) entries) (g_stores g)),
     g\<lparr>g_stores := map (\<lambda>(n, s). (n, snd (so_take_changelog_ts ops s))) (g_stores g)\<rparr>)"

definition restore_apply :: "('d, 'st) store_ops \<Rightarrow> string \<Rightarrow> bytes \<Rightarrow> bytes option \<Rightarrow> int \<Rightarrow> ('d, 'st, 'u) graph \<Rightarrow> ('d, 'st, 'u) graph" where
  "restore_apply ops name key value ts g =
    (case map_of (g_stores g) name of
       None \<Rightarrow> g
     | Some s \<Rightarrow> g\<lparr>g_stores := registry_put name (so_apply_changelog_ts ops key value ts s) (g_stores g)\<rparr>)"

definition set_logging :: "('d, 'st) store_ops \<Rightarrow> bool \<Rightarrow> ('d, 'st, 'u) graph \<Rightarrow> ('d, 'st, 'u) graph" where
  "set_logging ops on g = g\<lparr>g_stores := map (\<lambda>(n, s). (n, so_set_logging ops on s)) (g_stores g)\<rparr>"

definition clear_stores :: "('d, 'st) store_ops \<Rightarrow> ('d, 'st, 'u) graph \<Rightarrow> ('d, 'st, 'u) graph" where
  "clear_stores ops g = g\<lparr>g_stores := map (\<lambda>(n, s). (n, so_clear ops s)) (g_stores g)\<rparr>"

fun snapshot_loop :: "('d, 'st) store_ops \<Rightarrow> (string \<times> 'st) list \<Rightarrow> task_snapshot \<Rightarrow> task_snapshot option" where
  "snapshot_loop ops [] snap = Some snap"
| "snapshot_loop ops ((_, s) # stores) snap =
    Option.bind (so_snapshot ops s) (\<lambda>data. snapshot_loop ops stores (bt_insert (so_name ops s) data snap))"

definition snapshot_stores :: "('d, 'st) store_ops \<Rightarrow> ('d, 'st, 'u) graph \<Rightarrow> task_snapshot option" where
  "snapshot_stores ops g = snapshot_loop ops (g_stores g) []"

fun restore_loop :: "('d, 'st) store_ops \<Rightarrow> task_snapshot \<Rightarrow> (string \<times> 'st) list \<Rightarrow> streams_error option \<times> (string \<times> 'st) list" where
  "restore_loop ops snap [] = (None, [])"
| "restore_loop ops snap ((n, s) # stores) =
    (case map_of snap (so_name ops s) of
       None \<Rightarrow> map_prod id (Cons (n, so_clear ops s)) (restore_loop ops snap stores)
     | Some data \<Rightarrow>
        (case so_restore_snapshot ops data s of
           Inl e \<Rightarrow> (Some e, (n, s) # stores)
         | Inr s' \<Rightarrow> map_prod id (Cons (n, s')) (restore_loop ops snap stores)))"

definition restore_store_snapshots :: "('d, 'st) store_ops \<Rightarrow> task_snapshot \<Rightarrow> ('d, 'st, 'u) graph \<Rightarrow>
    streams_error option \<times> ('d, 'st, 'u) graph" where
  "restore_store_snapshots ops snap g =
    (let (res, stores) = restore_loop ops snap (g_stores g) in (res, g\<lparr>g_stores := stores\<rparr>))"

section \<open>User code that does not panic\<close>

primrec prog_ok :: "('d, 'st, 'u) prog \<Rightarrow> bool" where
  "prog_ok Done = True"
| "prog_ok (Forward k v ts p) = prog_ok p"
| "prog_ok (Schedule iv ty pu cont) = (1 \<le> iv \<and> (\<forall>t. prog_ok (pu t)) \<and> (\<forall>h. prog_ok (cont h)))"
| "prog_ok (Cancel h p) = prog_ok p"
| "prog_ok (With_Store name upd cont absent) = ((\<forall>s. prog_ok (cont s)) \<and> prog_ok absent)"
| "prog_ok (With_Fields upd cont) = (\<forall>u. prog_ok (cont u))"
| "prog_ok Panic = False"

definition er_typed :: "string \<times> string \<Rightarrow> 'd erased_record \<Rightarrow> bool" where
  "er_typed ty er \<longleftrightarrow> an_type (er_value er) = snd ty \<and> (\<forall>k. er_key er = Some k \<longrightarrow> an_type k = fst ty)"

text \<open>Flags are only ever added or set.\<close>

definition flags_le :: "bool list \<Rightarrow> bool list \<Rightarrow> bool" where
  "flags_le fs fs' \<longleftrightarrow> length fs \<le> length fs' \<and> (\<forall>i < length fs. fs ! i \<longrightarrow> fs' ! i)"

lemma flags_le_refl [simp]: "flags_le fs fs"
  by (simp add: flags_le_def)

lemma flags_le_trans: "flags_le a b \<Longrightarrow> flags_le b c \<Longrightarrow> flags_le a c"
  by (simp add: flags_le_def)

lemma flags_le_snoc: "flags_le fs (fs @ [b])"
  by (simp add: flags_le_def nth_append)

lemma flags_le_update: "flags_le fs (fs[h := True])"
  by (cases "h < length fs") (auto simp: flags_le_def nth_list_update)

lemma is_cancelled_mono: "flags_le fs fs' \<Longrightarrow> is_cancelled fs e \<Longrightarrow> is_cancelled fs' e"
  by (auto simp: flags_le_def is_cancelled_def)

definition clock_of :: "punctuation_type \<Rightarrow> int \<Rightarrow> int \<Rightarrow> int" where
  "clock_of ty st wc = (case ty of StreamTime \<Rightarrow> st | WallClockTime \<Rightarrow> wc)"

text \<open>A schedule registered by a node with the given output types, when the clocks stood at \<open>st\<close> and \<open>wc\<close>.\<close>

definition fresh_schedule :: "int \<Rightarrow> int \<Rightarrow> bool list \<Rightarrow> ('d, 'st, 'u) schedule_entry \<Rightarrow> bool" where
  "fresh_schedule st wc flags e \<longleftrightarrow>
     1 \<le> se_interval e \<and> se_next_time e = sat_add (clock_of (se_ty e) st wc) (se_interval e) \<and>
     (\<forall>t. prog_ok (se_punctuator e t)) \<and> se_cancel e < length flags"

definition evolves :: "string \<Rightarrow> string \<Rightarrow> ('d, 'st, 'u) dispatch \<Rightarrow> ('d, 'st, 'u) dispatch \<Rightarrow> bool" where
  "evolves kt vt d d' \<longleftrightarrow>
     d_children d' = d_children d \<and> d_node_idx d' = d_node_idx d \<and> d_output d' = d_output d \<and>
     d_stream_time d' = d_stream_time d \<and> d_wall_clock d' = d_wall_clock d \<and>
     map fst (d_stores d') = map fst (d_stores d) \<and> flags_le (d_flags d) (d_flags d') \<and>
     (\<exists>out. d_buffer d' = d_buffer d @ out \<and> (\<forall>(c, er) \<in> set out. c \<in> set (d_children d) \<and> er_typed (kt, vt) er)) \<and>
     (\<exists>new. d_schedules d' = d_schedules d @ new \<and>
        (\<forall>e \<in> set new. fresh_schedule (d_stream_time d) (d_wall_clock d) (d_flags d') e \<and>
           se_node_idx e = d_node_idx d \<and> se_key_type e = kt \<and> se_value_type e = vt))"

lemma fresh_schedule_mono: "fresh_schedule st wc fs e \<Longrightarrow> flags_le fs fs' \<Longrightarrow> fresh_schedule st wc fs' e"
  by (auto simp: fresh_schedule_def flags_le_def)

lemma evolves_trans:
  assumes "evolves kt vt d1 d2" "evolves kt vt d2 d3"
  shows "evolves kt vt d1 d3"
proof -
  obtain out1 out2 where "d_buffer d2 = d_buffer d1 @ out1" "\<forall>(c, er) \<in> set out1. c \<in> set (d_children d1) \<and> er_typed (kt, vt) er"
    "d_buffer d3 = d_buffer d2 @ out2" "\<forall>(c, er) \<in> set out2. c \<in> set (d_children d1) \<and> er_typed (kt, vt) er"
    using assms by (auto simp: evolves_def)
  then have out: "\<exists>out. d_buffer d3 = d_buffer d1 @ out \<and> (\<forall>(c, er) \<in> set out. c \<in> set (d_children d1) \<and> er_typed (kt, vt) er)"
    by (intro exI [of _ "out1 @ out2"]) auto
  obtain new1 new2 where "d_schedules d2 = d_schedules d1 @ new1" "d_schedules d3 = d_schedules d2 @ new2"
    "\<forall>e \<in> set new1. fresh_schedule (d_stream_time d1) (d_wall_clock d1) (d_flags d2) e \<and>
       se_node_idx e = d_node_idx d1 \<and> se_key_type e = kt \<and> se_value_type e = vt"
    "\<forall>e \<in> set new2. fresh_schedule (d_stream_time d1) (d_wall_clock d1) (d_flags d3) e \<and>
       se_node_idx e = d_node_idx d1 \<and> se_key_type e = kt \<and> se_value_type e = vt" "flags_le (d_flags d2) (d_flags d3)"
    using assms by (auto simp: evolves_def)
  then have new: "\<exists>new. d_schedules d3 = d_schedules d1 @ new \<and>
        (\<forall>e \<in> set new. fresh_schedule (d_stream_time d1) (d_wall_clock d1) (d_flags d3) e \<and>
           se_node_idx e = d_node_idx d1 \<and> se_key_type e = kt \<and> se_value_type e = vt)"
    by (intro exI [of _ "new1 @ new2"]) (auto intro: fresh_schedule_mono)
  show ?thesis
    unfolding evolves_def
  proof (intro conjI)
    show "flags_le (d_flags d1) (d_flags d3)"
      using assms flags_le_trans by (auto simp: evolves_def)
  qed (use assms out new in \<open>simp_all add: evolves_def\<close>)
qed

lemma evolves_forward: "evolves kt vt d (forward kt vt k v ts d)"
  by (auto simp: evolves_def forward_def er_typed_def)

lemma evolves_schedule: "schedule kt vt iv ty pu d = Some (h, d') \<Longrightarrow> \<forall>t. prog_ok (pu t) \<Longrightarrow> evolves kt vt d d'"
  by (auto simp: evolves_def schedule_def fresh_schedule_def clock_of_def flags_le_snoc Let_def split: if_splits punctuation_type.splits)

lemma evolves_cancel: "evolves kt vt d (cancel_flag h d)"
  by (simp add: evolves_def cancel_flag_def flags_le_update)

lemma registry_put_names [simp]: "map fst (registry_put name s reg) = map fst reg"
  by (simp add: registry_put_def comp_def split_def if_distrib cong: if_cong)

lemma evolves_store: "evolves kt vt d (d\<lparr>d_stores := registry_put name s (d_stores d)\<rparr>)"
  by (simp add: evolves_def)

lemma evolves_fields: "evolves kt vt d (d\<lparr>d_user := u\<rparr>)"
  by (simp add: evolves_def)

lemma evolves_refl: "evolves kt vt d d"
  by (simp add: evolves_def)

lemma run_prog_evolves:
  "prog_ok p \<Longrightarrow> \<exists>d'. run_prog p kt vt d = Some d' \<and> evolves kt vt d d'"
proof (induction p arbitrary: d)
  case Done
  then show ?case
    by (simp add: evolves_refl)
next
  case (Forward k v ts p)
  then obtain d' where "run_prog p kt vt (forward kt vt k v ts d) = Some d'" "evolves kt vt (forward kt vt k v ts d) d'"
    using Forward.IH [of "forward kt vt k v ts d"] by auto
  then show ?case
    using evolves_trans [OF evolves_forward] by auto
next
  case (Schedule iv ty pu cont)
  obtain h d1 where d1: "schedule kt vt iv ty pu d = Some (h, d1)"
    using Schedule.prems by (simp add: schedule_def Let_def)
  then have 1: "evolves kt vt d d1"
    using Schedule.prems by (intro evolves_schedule) auto
  obtain d' where "run_prog (cont h) kt vt d1 = Some d'" "evolves kt vt d1 d'"
    using Schedule.IH(2) [of "cont h" d1] Schedule.prems by auto
  then show ?case
    using d1 evolves_trans [OF 1] by auto
next
  case (Cancel h p)
  then obtain d' where "run_prog p kt vt (cancel_flag h d) = Some d'" "evolves kt vt (cancel_flag h d) d'"
    using Cancel.IH [of "cancel_flag h d"] by auto
  then show ?case
    using evolves_trans [OF evolves_cancel] by auto
next
  case (With_Store name upd cont absent)
  show ?case
  proof (cases "map_of (d_stores d) name")
    case None
    then show ?thesis
      using With_Store.IH(2) [of d] With_Store.prems by auto
  next
    case (Some s)
    let ?d = "d\<lparr>d_stores := registry_put name (upd s) (d_stores d)\<rparr>"
    obtain d' where "run_prog (cont s) kt vt ?d = Some d'" "evolves kt vt ?d d'"
      using With_Store.IH(1) [of "cont s" ?d] With_Store.prems by auto
    then show ?thesis
      using Some evolves_trans [OF evolves_store] by auto
  qed
next
  case (With_Fields upd cont)
  let ?d = "d\<lparr>d_user := upd (d_user d)\<rparr>"
  obtain d' where "run_prog (cont (d_user d)) kt vt ?d = Some d'" "evolves kt vt ?d d'"
    using With_Fields.IH [of "cont (d_user d)" ?d] With_Fields.prems by auto
  then show ?case
    using evolves_trans [OF evolves_fields] by auto
qed simp

section \<open>Well-typed graphs\<close>

text \<open>What the typed handles of the topology builder establish: an edge joins the output types of its source to
  the input types of its target, a child comes after its parents in node order, and user code does not panic.\<close>

fun node_in :: "('d, 'st, 'u) erased_node \<Rightarrow> string \<times> string" where
  "node_in (Processor_Node name kin vin kout vout initp body closep) = (kin, vin)"
| "node_in (Sink_Node name topic kt vt ks vs) = (kt, vt)"

fun node_out :: "('d, 'st, 'u) erased_node \<Rightarrow> (string \<times> string) option" where
  "node_out (Processor_Node name kin vin kout vout initp body closep) = Some (kout, vout)"
| "node_out (Sink_Node name topic kt vt ks vs) = None"

fun node_ok :: "('d, 'st, 'u) erased_node \<Rightarrow> bool" where
  "node_ok (Processor_Node name kin vin kout vout initp body closep) \<longleftrightarrow> prog_ok initp \<and> (\<forall>rc r. prog_ok (body rc r))"
| "node_ok (Sink_Node name topic kt vt ks vs) \<longleftrightarrow> True"

definition edges_ok :: "('d, 'st, 'u) graph \<Rightarrow> bool" where
  "edges_ok g \<longleftrightarrow> length (g_children g) = length (g_nodes g) \<and>
     (\<forall>i < length (g_nodes g). node_ok (g_nodes g ! i) \<and>
        (\<forall>c \<in> set (g_children g ! i). i < c \<and> c < length (g_nodes g) \<and> node_out (g_nodes g ! i) = Some (node_in (g_nodes g ! c)))) \<and>
     (\<forall>src \<in> set (g_sources g). \<forall>c \<in> set (gs_children src).
        c < length (g_nodes g) \<and> node_in (g_nodes g ! c) = (gs_key_type src, gs_value_type src))"

definition schedule_ok :: "('d, 'st, 'u) graph \<Rightarrow> ('d, 'st, 'u) schedule_entry \<Rightarrow> bool" where
  "schedule_ok g e \<longleftrightarrow> se_node_idx e < length (g_nodes g) \<and>
     node_out (g_nodes g ! se_node_idx e) = Some (se_key_type e, se_value_type e) \<and>
     1 \<le> se_interval e \<and> in_i64 (se_next_time e) \<and> (\<forall>t. prog_ok (se_punctuator e t)) \<and> se_cancel e < length (g_flags g) \<and>
     (se_ty e = StreamTime \<longrightarrow> se_next_time e \<le> sat_add (g_stream_time g) (se_interval e))"

definition graph_ok :: "('d, 'st, 'u) graph \<Rightarrow> bool" where
  "graph_ok g \<longleftrightarrow> edges_ok g \<and> (\<forall>e \<in> set (g_schedules g). schedule_ok g e) \<and> in_i64 (g_stream_time g) \<and> in_i64 (g_wall_clock g)"

definition buffer_ok :: "('d, 'st, 'u) graph \<Rightarrow> (nat \<times> 'd erased_record) list \<Rightarrow> bool" where
  "buffer_ok g buffer \<longleftrightarrow> (\<forall>(i, er) \<in> set buffer. i < length (g_nodes g) \<and> er_typed (node_in (g_nodes g ! i)) er)"

text \<open>What every driver call leaves in place: the wiring and the clocks; outputs and schedules are only appended.\<close>

definition extends :: "('d, 'st, 'u) graph \<Rightarrow> ('d, 'st, 'u) graph \<Rightarrow> bool" where
  "extends g g' \<longleftrightarrow> g_nodes g' = g_nodes g \<and> g_children g' = g_children g \<and> g_sources g' = g_sources g \<and>
     g_stream_time g' = g_stream_time g \<and> g_wall_clock g' = g_wall_clock g \<and> g_cache_owner g' = g_cache_owner g \<and>
     map fst (g_stores g') = map fst (g_stores g) \<and> flags_le (g_flags g) (g_flags g') \<and>
     (\<exists>out. g_output g' = g_output g @ out) \<and>
     (\<exists>new. g_schedules g' = g_schedules g @ new \<and> (\<forall>e \<in> set new. fresh_schedule (g_stream_time g) (g_wall_clock g) (g_flags g') e))"

lemma extends_refl: "extends g g"
  by (simp add: extends_def)

lemma extends_trans:
  assumes "extends g1 g2" "extends g2 g3"
  shows "extends g1 g3"
proof -
  obtain new1 new2 where "g_schedules g2 = g_schedules g1 @ new1" "g_schedules g3 = g_schedules g2 @ new2"
    "\<forall>e \<in> set new1. fresh_schedule (g_stream_time g1) (g_wall_clock g1) (g_flags g2) e"
    "\<forall>e \<in> set new2. fresh_schedule (g_stream_time g1) (g_wall_clock g1) (g_flags g3) e" "flags_le (g_flags g2) (g_flags g3)"
    using assms by (auto simp: extends_def)
  then have new: "\<exists>new. g_schedules g3 = g_schedules g1 @ new \<and>
      (\<forall>e \<in> set new. fresh_schedule (g_stream_time g1) (g_wall_clock g1) (g_flags g3) e)"
    by (intro exI [of _ "new1 @ new2"]) (auto intro: fresh_schedule_mono)
  have flags: "flags_le (g_flags g1) (g_flags g3)"
    using assms flags_le_trans by (auto simp: extends_def)
  have out: "\<exists>out. g_output g3 = g_output g1 @ out"
    using assms by (auto simp: extends_def)
  show ?thesis
    unfolding extends_def
  proof (intro conjI)
    show "\<exists>out. g_output g3 = g_output g1 @ out" "flags_le (g_flags g1) (g_flags g3)"
      "\<exists>new. g_schedules g3 = g_schedules g1 @ new \<and> (\<forall>e \<in> set new. fresh_schedule (g_stream_time g1) (g_wall_clock g1) (g_flags g3) e)"
      by (fact out, fact flags, fact new)
  qed (use assms in \<open>simp_all add: extends_def\<close>)
qed

lemma graph_ok_edge:
  assumes "graph_ok g" "i < length (g_nodes g)"
  shows "length (g_children g) = length (g_nodes g)" "node_ok (g_nodes g ! i)"
    "c \<in> set (g_children g ! i) \<Longrightarrow> i < c" "c \<in> set (g_children g ! i) \<Longrightarrow> c < length (g_nodes g)"
    "c \<in> set (g_children g ! i) \<Longrightarrow> node_out (g_nodes g ! i) = Some (node_in (g_nodes g ! c))"
  using assms unfolding graph_ok_def edges_ok_def by blast+

lemma edges_ok_extends: "extends g g' \<Longrightarrow> edges_ok g' = edges_ok g"
  by (simp add: extends_def edges_ok_def)

lemma buffer_ok_extends: "extends g g' \<Longrightarrow> buffer_ok g' = buffer_ok g"
  by (simp add: extends_def buffer_ok_def fun_eq_iff)

lemma sat_add_i64: "in_i64 (sat_add a b)"
  by (simp add: sat_add_def clamp_i64_def in_i64_def)

lemma schedule_ok_extends:
  assumes "schedule_ok g e" "extends g g'"
  shows "schedule_ok g' e"
  using assms by (auto simp: schedule_ok_def extends_def flags_le_def)

text \<open>What a context positioned at node \<open>i\<close> does to the graph.\<close>

lemma take_back_extends:
  assumes g: "graph_ok g" and i: "i < length (g_nodes g)" "node_out (g_nodes g ! i) = Some (kt, vt)"
    and d: "evolves kt vt (lend g i (g_children g ! i) buffer) d" and buf: "buffer_ok g buffer"
  shows "graph_ok (take_back d g)" "extends g (take_back d g)" "buffer_ok g (d_buffer d)"
    "\<exists>out. d_buffer d = buffer @ out \<and> fst ` set out \<subseteq> set (g_children g ! i)"
proof -
  let ?g = "take_back d g"
  obtain new where new: "d_schedules d = g_schedules g @ new"
    "\<forall>e \<in> set new. fresh_schedule (g_stream_time g) (g_wall_clock g) (d_flags d) e \<and> se_node_idx e = i \<and> se_key_type e = kt \<and> se_value_type e = vt"
    using d by (auto simp: evolves_def lend_def)
  show ext: "extends g ?g"
    using d new by (auto simp: extends_def take_back_def evolves_def lend_def)
  have edges: "edges_ok ?g"
    using g by (simp add: graph_ok_def edges_ok_extends [OF ext])
  have parts: "g_schedules ?g = g_schedules g @ new" "g_stream_time ?g = g_stream_time g" "g_wall_clock ?g = g_wall_clock g"
    using new(1) by (simp_all add: take_back_def)
  have "schedule_ok ?g e" if "e \<in> set new" for e
    using that new(2) i g sat_add_i64
    by (auto simp: schedule_ok_def take_back_def fresh_schedule_def clock_of_def)
  moreover have "schedule_ok ?g e" if "e \<in> set (g_schedules g)" for e
    using g that schedule_ok_extends [OF _ ext] by (auto simp: graph_ok_def)
  ultimately show "graph_ok ?g"
    using edges parts g by (auto simp: graph_ok_def)
  obtain out where out: "d_buffer d = buffer @ out" "\<forall>(c, er) \<in> set out. c \<in> set (g_children g ! i) \<and> er_typed (kt, vt) er"
    using d by (auto simp: evolves_def lend_def)
  then show "\<exists>out. d_buffer d = buffer @ out \<and> fst ` set out \<subseteq> set (g_children g ! i)"
    by auto
  have "buffer_ok g out"
    unfolding buffer_ok_def
  proof (intro ballI, clarify)
    fix c er
    assume "(c, er) \<in> set out"
    then have c: "c \<in> set (g_children g ! i)" "er_typed (kt, vt) er"
      using out(2) by auto
    moreover have "node_in (g_nodes g ! c) = (kt, vt)"
      using graph_ok_edge(5) [OF g i(1) c(1)] i(2) by simp
    ultimately show "c < length (g_nodes g) \<and> er_typed (node_in (g_nodes g ! c)) er"
      using graph_ok_edge(4) [OF g i(1) c(1)] by simp
  qed
  then show "buffer_ok g (d_buffer d)"
    using buf out(1) by (auto simp: buffer_ok_def)
qed

lemma downcast_record_typed: "er_typed (kt, vt) er \<Longrightarrow> \<exists>r. downcast_record name kt vt er = Inr r"
  by (auto simp: er_typed_def downcast_record_def downcast_def split: option.splits)

lemma drain_step_typed:
  assumes g: "graph_ok g" and buf: "buffer_ok g ((i, er) # rest)"
  shows "\<exists>out g'. drain_step rc i er rest g = Some (None, rest @ out, g') \<and> graph_ok g' \<and> extends g g' \<and>
    buffer_ok g' (rest @ out) \<and> (\<forall>c \<in> fst ` set out. i < c \<and> c < length (g_nodes g))"
proof -
  have i1: "i < length (g_nodes g)" and er: "er_typed (node_in (g_nodes g ! i)) er" and rest: "buffer_ok g rest"
    using buf by (auto simp: buffer_ok_def)
  note i = i1 graph_ok_edge(1) [OF g i1] and ok = graph_ok_edge(2) [OF g i1]
  have less: "\<forall>c \<in> set (g_children g ! i). i < c \<and> c < length (g_nodes g)"
    using graph_ok_edge(3,4) [OF g i1] by blast
  show ?thesis
  proof (cases "g_nodes g ! i")
    case (Processor_Node name kin vin kout vout initp body closep)
    obtain r where r: "downcast_record name kin vin er = Inr r"
      using er Processor_Node downcast_record_typed by fastforce
    have "prog_ok (body rc r)"
      using ok Processor_Node by simp
    then obtain d where d: "run_prog (body rc r) kout vout (lend g i (g_children g ! i) rest) = Some d"
        "evolves kout vout (lend g i (g_children g ! i) rest) d"
      using run_prog_evolves by blast
    have out: "node_out (g_nodes g ! i) = Some (kout, vout)"
      using Processor_Node by simp
    note tb = take_back_extends [OF g i(1) out d(2) rest]
    obtain more where more: "d_buffer d = rest @ more" "fst ` set more \<subseteq> set (g_children g ! i)"
      using tb(4) by blast
    have "buffer_ok (take_back d g) (rest @ more)"
      using tb(3) more(1) by (simp add: buffer_ok_extends [OF tb(2)])
    then show ?thesis
      using i Processor_Node r d(1) more tb(1,2) less by (auto simp: drain_step_def)
  next
    case (Sink_Node name topic kt vt ks vs)
    obtain r where r: "downcast_record name kt vt er = Inr r"
      using er Sink_Node downcast_record_typed by fastforce
    let ?o = "\<lparr>or_topic = topic, or_key = map_option (sd_ser ks topic) (r_key r), or_value = Some (sd_ser vs topic (r_value r)),
       or_timestamp = er_timestamp er\<rparr>"
    let ?g = "g\<lparr>g_output := g_output g @ [?o]\<rparr>"
    have "drain_step rc i er rest g = Some (None, rest @ [], ?g)"
      using i Sink_Node r by (simp add: drain_step_def lend_def take_back_def)
    moreover have ext: "extends g ?g"
      by (simp add: extends_def)
    moreover have "buffer_ok ?g (rest @ [])"
      using rest by (simp add: buffer_ok_extends [OF ext])
    moreover have "graph_ok ?g"
      using g edges_ok_extends [OF ext] schedule_ok_extends [OF _ ext] by (auto simp: graph_ok_def)
    ultimately show ?thesis
      by fastforce
  qed
qed

section \<open>The driver loop ends\<close>

text \<open>Popping a node and pushing nodes after it decreases the multiset of pending nodes.\<close>

lemma buffer_decreases:
  assumes "\<forall>c \<in> fst ` set out. i < c \<and> c < n" "i < n"
  shows "(mset (map fst (rest @ out)), mset (map fst ((i, er) # rest))) \<in> mult (measure (\<lambda>c. n - c))"
proof -
  have "(mset (map fst rest) + mset (map fst out), mset (map fst rest) + {#i#}) \<in> mult (measure (\<lambda>c. n - c))"
    using assms by (intro one_step_implies_mult) auto
  then show ?thesis
    by simp
qed

lemma drain_returns:
  assumes "graph_ok g" "buffer_ok g buffer"
  shows "\<exists>g'. drain rc buffer g = Some (None, g') \<and> graph_ok g' \<and> extends g g'"
proof -
  define n where "n = length (g_nodes g)"
  have "wf (inv_image (mult (measure (\<lambda>c. n - c))) (\<lambda>b :: (nat \<times> 'a erased_record) list. mset (map fst b)))"
    by (intro wf_inv_image wf_mult wf_measure)
  then show ?thesis
    using assms n_def
  proof (induction buffer arbitrary: g rule: wf_induct_rule)
    case (less buffer)
    show ?case
    proof (cases buffer)
      case Nil
      then show ?thesis
        using less.prems by (simp add: drain.simps extends_refl)
    next
      case (Cons p rest)
      obtain i er where p: "p = (i, er)"
        by (cases p)
      obtain out g1 where step: "drain_step rc i er rest g = Some (None, rest @ out, g1)" "graph_ok g1" "extends g g1"
          "buffer_ok g1 (rest @ out)" "\<forall>c \<in> fst ` set out. i < c \<and> c < length (g_nodes g)"
        using drain_step_typed [OF less.prems(1), of i er rest rc] less.prems(2) Cons p by auto
      have "i < n"
        using less.prems Cons p by (auto simp: buffer_ok_def)
      then have dec: "(rest @ out, buffer) \<in> inv_image (mult (measure (\<lambda>c. n - c))) (\<lambda>b. mset (map fst b))"
        using buffer_decreases [of out i n rest er] step(5) less.prems(3) Cons p by simp
      have len: "n = length (g_nodes g1)"
        using step(3) less.prems(3) by (simp add: extends_def)
      obtain g' where "drain rc (rest @ out) g1 = Some (None, g')" "graph_ok g'" "extends g1 g'"
        using less.IH [OF dec step(2,4) len] by blast
      then show ?thesis
        using step(1) extends_trans [OF step(3)] Cons p by (auto simp: drain.simps [of rc "(i, er) # rest"])
    qed
  qed
qed

lemma drain_returns_empty: "drain rc [] g = Some (None, g)"
  by (simp add: drain.simps)

section \<open>Seeding\<close>

lemma source_deserialize_typed:
  "source_deserialize src key value ts = Inr er \<Longrightarrow> er_typed (gs_key_type src, gs_value_type src) er"
  by (auto simp: source_deserialize_def er_typed_def split: option.splits sum.splits)

lemma source_deserialize_error: "source_deserialize src key value ts = Inl e \<Longrightarrow> e = Serde_Error (gs_name src)"
  by (auto simp: source_deserialize_def split: option.splits sum.splits)

lemma seed_children_eq:
  "seed_children src key value ts cs =
    (case source_deserialize src key value ts of
       Inl e \<Rightarrow> if cs = [] then Inr [] else Inl e
     | Inr er \<Rightarrow> Inr (map (\<lambda>c. (c, er)) cs))"
  by (induction cs) (auto split: sum.splits)

lemma seed_typed:
  assumes "seed topic key value ts srcs = Inr buffer"
  shows "\<forall>(c, er) \<in> set buffer. \<exists>src \<in> set srcs. c \<in> set (gs_children src) \<and> er_typed (gs_key_type src, gs_value_type src) er"
  using assms
proof (induction srcs arbitrary: buffer)
  case (Cons src srcs)
  show ?case
  proof (cases "gs_topic src = topic")
    case True
    then obtain b b' where b: "seed_children src key value ts (gs_children src) = Inr b" "seed topic key value ts srcs = Inr b'" "buffer = b @ b'"
      using Cons.prems by (cases "seed topic key value ts srcs") (auto split: sum.splits)
    then have "\<forall>(c, er) \<in> set b. c \<in> set (gs_children src) \<and> er_typed (gs_key_type src, gs_value_type src) er"
      using source_deserialize_typed [of src key "value" ts] by (auto simp: seed_children_eq split: sum.splits if_splits)
    then show ?thesis
      using Cons.IH [OF b(2)] b(3) by fastforce
  next
    case False
    then show ?thesis
      using Cons by fastforce
  qed
qed simp

lemma seed_buffer_ok:
  assumes g: "graph_ok g" and "seed topic key value ts (g_sources g) = Inr buffer"
  shows "buffer_ok g buffer"
  unfolding buffer_ok_def
proof (intro ballI, clarify)
  fix c er
  assume "(c, er) \<in> set buffer"
  then obtain src where src: "src \<in> set (g_sources g)" "c \<in> set (gs_children src)" "er_typed (gs_key_type src, gs_value_type src) er"
    using seed_typed [OF assms(2)] by blast
  have "c < length (g_nodes g) \<and> node_in (g_nodes g ! c) = (gs_key_type src, gs_value_type src)"
    using g src(1,2) unfolding graph_ok_def edges_ok_def by blast
  then show "c < length (g_nodes g) \<and> er_typed (node_in (g_nodes g ! c)) er"
    using src(3) by simp
qed

definition undecodable :: "string \<Rightarrow> bytes option \<Rightarrow> bytes \<Rightarrow> 'd graph_source \<Rightarrow> bool" where
  "undecodable topic key value src \<longleftrightarrow> gs_topic src = topic \<and> gs_children src \<noteq> [] \<and>
     (sd_de (gs_value_serde src) (gs_name src) value = None \<or>
      (\<exists>kb. key = Some kb \<and> sd_de (gs_key_serde src) (gs_name src) kb = None))"

lemma seed_error_iff:
  "(\<exists>e. seed topic key value ts srcs = Inl e) \<longleftrightarrow> (\<exists>src \<in> set srcs. undecodable topic key value src)"
proof (induction srcs)
  case (Cons src srcs)
  have "(\<exists>e. source_deserialize src key value ts = Inl e) \<longleftrightarrow>
      (sd_de (gs_value_serde src) (gs_name src) value = None \<or> (\<exists>kb. key = Some kb \<and> sd_de (gs_key_serde src) (gs_name src) kb = None))"
    by (auto simp: source_deserialize_def split: option.splits sum.splits)
  then have "(\<exists>e. seed_children src key value ts (gs_children src) = Inl e) \<longleftrightarrow> gs_topic src \<noteq> topic \<and> (\<exists>e. seed_children src key value ts (gs_children src) = Inl e) \<or> undecodable topic key value src"
    by (auto simp: seed_children_eq undecodable_def split: sum.splits if_splits)
  then show ?case
    using Cons by (cases "seed topic key value ts srcs") (auto simp: undecodable_def split: sum.splits)
qed simp

lemma seed_error_name:
  "seed topic key value ts srcs = Inl e \<Longrightarrow> \<exists>src \<in> set srcs. gs_topic src = topic \<and> e = Serde_Error (gs_name src)"
proof (induction srcs)
  case (Cons src srcs)
  then show ?case
    using source_deserialize_error [of src key "value" ts]
    by (cases "seed topic key value ts srcs") (auto simp: seed_children_eq split: sum.splits if_splits)
qed simp

lemma graph_ok_stream_time:
  assumes g: "graph_ok g" and t: "in_i64 t"
  shows "graph_ok (g\<lparr>g_stream_time := max (g_stream_time g) t\<rparr>)"
proof -
  have mono: "sat_add a iv \<le> sat_add (max a b) iv" for a b iv
    by (auto simp: sat_add_def clamp_i64_def)
  have "schedule_ok (g\<lparr>g_stream_time := max (g_stream_time g) t\<rparr>) e" if "e \<in> set (g_schedules g)" for e
    using g that mono [of "g_stream_time g" "se_interval e" t] by (auto simp: graph_ok_def schedule_ok_def)
  moreover have "edges_ok (g\<lparr>g_stream_time := max (g_stream_time g) t\<rparr>) = edges_ok g"
    by (simp add: edges_ok_def)
  ultimately show ?thesis
    using g t by (auto simp: graph_ok_def max_def)
qed

section \<open>Punctuation\<close>

definition clock :: "punctuation_type \<Rightarrow> ('d, 'st, 'u) graph \<Rightarrow> int" where
  "clock ty g = clock_of ty (g_stream_time g) (g_wall_clock g)"

text \<open>A live schedule of the type that is due.\<close>

definition due :: "punctuation_type \<Rightarrow> int \<Rightarrow> bool list \<Rightarrow> ('d, 'st, 'u) schedule_entry \<Rightarrow> bool" where
  "due ty now flags e \<longleftrightarrow> se_ty e = ty \<and> \<not> is_cancelled flags e \<and> se_next_time e \<le> now"

lemma due_mono: "flags_le fs fs' \<Longrightarrow> due ty now fs' e \<Longrightarrow> due ty now fs e"
  using is_cancelled_mono by (auto simp: due_def)

lemma fire_schedule_returns:
  assumes g: "graph_ok g" and i: "i < length (g_schedules g)"
  shows "\<exists>g'. fire_schedule i ts g = Some (None, g') \<and> graph_ok g' \<and> extends g g'"
proof -
  define e where "e = g_schedules g ! i"
  define g1 where "g1 = set_punctuator i (\<lambda>_. Done) g"
  have e: "schedule_ok g e"
    using g i nth_mem unfolding graph_ok_def e_def by blast
  then have idx: "se_node_idx e < length (g_nodes g)" "node_out (g_nodes g ! se_node_idx e) = Some (se_key_type e, se_value_type e)"
    and ok: "prog_ok (se_punctuator e ts)"
    by (simp_all add: schedule_ok_def)
  have same: "g_nodes g1 = g_nodes g" "g_children g1 = g_children g" "g_schedules g1 = (g_schedules g)[i := e\<lparr>se_punctuator := \<lambda>_. Done\<rparr>]"
    by (simp_all add: g1_def set_punctuator_def e_def)
  let ?d0 = "lend g1 (se_node_idx e) (g_children g ! se_node_idx e) []"
  obtain d where d: "run_prog (se_punctuator e ts) (se_key_type e) (se_value_type e) ?d0 = Some d"
      "evolves (se_key_type e) (se_value_type e) ?d0 d"
    using run_prog_evolves [OF ok] by blast
  define d' where "d' = d\<lparr>d_schedules := (d_schedules d)[i := (d_schedules d ! i)\<lparr>se_punctuator := se_punctuator e\<rparr>]\<rparr>"
  obtain new where new: "d_schedules d = g_schedules g1 @ new"
    using d(2) by (auto simp: evolves_def lend_def)
  then have "d_schedules d' = g_schedules g @ new"
    using i by (simp add: d'_def same nth_append list_update_append) (simp add: e_def)
  then have ev: "evolves (se_key_type e) (se_value_type e) (lend g (se_node_idx e) (g_children g ! se_node_idx e) []) d'"
    using d(2) new by (auto simp: evolves_def lend_def g1_def set_punctuator_def d'_def)
  have tb: "set_punctuator i (se_punctuator e) (take_back d g1) = take_back d' g"
    by (simp add: set_punctuator_def take_back_def g1_def d'_def)
  have "buffer_ok g []"
    by (simp add: buffer_ok_def)
  note step = take_back_extends [OF g idx ev this]
  have "buffer_ok (take_back d' g) (d_buffer d')"
    using step(3) by (simp add: buffer_ok_extends [OF step(2)])
  then obtain g' where "drain (internal_context ts) (d_buffer d') (take_back d' g) = Some (None, g')" "graph_ok g'" "extends (take_back d' g) g'"
    using drain_returns [OF step(1)] by blast
  moreover have "fire_schedule i ts g = drain (internal_context ts) (d_buffer d') (take_back d' g)"
    using i idx graph_ok_edge(1) [OF g idx(1)] d(1)
    by (simp add: fire_schedule_def Let_def e_def [symmetric] g1_def [symmetric] same tb) (simp add: d'_def)
  ultimately show ?thesis
    using extends_trans [OF step(2)] by auto
qed

lemma next_fire_after:
  assumes "in_i64 now" "now < i64_max" "1 \<le> iv"
  shows "now < next_fire now next iv" "next \<le> now \<Longrightarrow> next_fire now next iv \<le> sat_add now iv" "in_i64 (next_fire now next iv)"
  using assms by (auto simp: next_fire_def sat_add_def clamp_i64_def in_i64_def)

definition resync :: "nat \<Rightarrow> int \<Rightarrow> ('d, 'st, 'u) graph \<Rightarrow> ('d, 'st, 'u) graph" where
  "resync i t g = g\<lparr>g_schedules := (g_schedules g)[i := (g_schedules g ! i)\<lparr>se_next_time := t\<rparr>]\<rparr>"

lemma resync_ok:
  assumes g: "graph_ok g" and i: "i < length (g_schedules g)" and t: "in_i64 t"
    "se_ty (g_schedules g ! i) = StreamTime \<Longrightarrow> t \<le> sat_add (g_stream_time g) (se_interval (g_schedules g ! i))"
  shows "graph_ok (resync i t g)"
proof -
  have "schedule_ok (resync i t g) e" if "e \<in> set (g_schedules (resync i t g))" for e
  proof -
    have "e = (g_schedules g ! i)\<lparr>se_next_time := t\<rparr> \<or> e \<in> set (g_schedules g)"
      using that set_update_subset_insert by (fastforce simp: resync_def)
    moreover have "schedule_ok g (g_schedules g ! i)"
      using g i nth_mem unfolding graph_ok_def by blast
    ultimately show ?thesis
      using g t by (auto simp: graph_ok_def schedule_ok_def resync_def)
  qed
  moreover have "edges_ok (resync i t g) = edges_ok g"
    by (simp add: edges_ok_def resync_def)
  ultimately show ?thesis
    using g by (simp add: graph_ok_def resync_def)
qed

lemma fresh_not_due:
  assumes "fresh_schedule st wc fs e" "now = clock_of ty st wc" "in_i64 now" "now < i64_max"
  shows "\<not> due ty now fs' e"
  using assms by (auto simp: fresh_schedule_def due_def sat_add_def clamp_i64_def in_i64_def)

definition same_wiring :: "('d, 'st, 'u) graph \<Rightarrow> ('d, 'st, 'u) graph \<Rightarrow> bool" where
  "same_wiring g g' \<longleftrightarrow> g_nodes g' = g_nodes g \<and> g_children g' = g_children g \<and> g_sources g' = g_sources g \<and>
     g_stream_time g' = g_stream_time g \<and> g_wall_clock g' = g_wall_clock g \<and> map fst (g_stores g') = map fst (g_stores g)"

lemma same_wiring_trans: "same_wiring a b \<Longrightarrow> same_wiring b c \<Longrightarrow> same_wiring a c"
  by (simp add: same_wiring_def)

lemma extends_same_wiring: "extends g g' \<Longrightarrow> same_wiring g g'"
  by (simp add: same_wiring_def extends_def)

lemma fire_and_resync:
  assumes g: "graph_ok g" and now: "now = clock ty g" "now < i64_max" and i: "i < length (g_schedules g)" "due ty now (g_flags g) (g_schedules g ! i)"
  shows "\<exists>g1 t. fire_schedule i now g = Some (None, g1) \<and> t = next_fire now (se_next_time (g_schedules g ! i)) (se_interval (g_schedules g ! i)) \<and>
    graph_ok (resync i t g1) \<and> same_wiring g (resync i t g1) \<and> length (g_schedules g) \<le> length (g_schedules (resync i t g1)) \<and>
    (\<forall>j < length (g_schedules (resync i t g1)). due ty now (g_flags (resync i t g1)) (g_schedules (resync i t g1) ! j) \<longrightarrow>
       j < length (g_schedules g) \<and> j \<noteq> i \<and> due ty now (g_flags g) (g_schedules g ! j))"
proof -
  let ?e = "g_schedules g ! i"
  define t where "t = next_fire now (se_next_time ?e) (se_interval ?e)"
  obtain g1 where g1: "fire_schedule i now g = Some (None, g1)" "graph_ok g1" "extends g g1"
    using fire_schedule_returns [OF g i(1)] by blast
  obtain new where new: "g_schedules g1 = g_schedules g @ new" "\<forall>e \<in> set new. fresh_schedule (g_stream_time g) (g_wall_clock g) (g_flags g1) e"
    and fl: "flags_le (g_flags g) (g_flags g1)"
    using g1(3) by (auto simp: extends_def)
  have e: "schedule_ok g ?e"
    using g i nth_mem unfolding graph_ok_def by blast
  have i64: "in_i64 now"
    using g now(1) by (cases ty) (auto simp: graph_ok_def clock_def clock_of_def)
  have iv: "1 \<le> se_interval ?e" and le: "se_next_time ?e \<le> now" and ty: "se_ty ?e = ty"
    using e i(2) by (auto simp: schedule_ok_def due_def)
  note nf = next_fire_after [OF i64 now(2) iv]
  have e1: "g_schedules g1 ! i = ?e"
    using i(1) new(1) by (simp add: nth_append)
  have st: "g_stream_time g1 = g_stream_time g"
    using g1(3) by (simp add: extends_def)
  have "graph_ok (resync i t g1)"
  proof (rule resync_ok [OF g1(2)])
    show "i < length (g_schedules g1)" "in_i64 t"
      using i(1) new(1) nf(3) by (auto simp: t_def)
    show "t \<le> sat_add (g_stream_time g1) (se_interval (g_schedules g1 ! i))" if "se_ty (g_schedules g1 ! i) = StreamTime"
      using that nf(2) [OF le] now(1) ty by (simp add: e1 st t_def clock_def clock_of_def)
  qed
  moreover have "same_wiring g (resync i t g1)"
    using extends_same_wiring [OF g1(3)] by (simp add: same_wiring_def resync_def)
  moreover have "j < length (g_schedules g) \<and> j \<noteq> i \<and> due ty now (g_flags g) (g_schedules g ! j)"
    if j: "j < length (g_schedules (resync i t g1))" "due ty now (g_flags (resync i t g1)) (g_schedules (resync i t g1) ! j)" for j
  proof -
    have "j \<noteq> i"
    proof
      assume "j = i"
      then have "t \<le> now"
        using j i(1) new(1) by (simp add: resync_def due_def)
      then show False
        using nf(1) [of "se_next_time ?e"] by (simp add: t_def)
    qed
    moreover have d: "due ty now (g_flags g1) ((g_schedules g @ new) ! j)"
      using j(2) \<open>j \<noteq> i\<close> by (simp add: resync_def new(1))
    moreover have "j < length (g_schedules g)"
    proof (rule ccontr)
      assume "\<not> j < length (g_schedules g)"
      then have "(g_schedules g @ new) ! j \<in> set new"
        using j(1) new(1) by (simp add: nth_append resync_def)
      then show False
        using fresh_not_due [of "g_stream_time g" "g_wall_clock g" "g_flags g1" _ now ty] new(2) d now i64 by (auto simp: clock_def)
    qed
    ultimately show ?thesis
      using due_mono [OF fl] by (auto simp: nth_append)
  qed
  ultimately show ?thesis
    using g1(1) new(1) t_def by (auto simp: resync_def)
qed

text \<open>A firing sequence: the schedules at the given positions fire one after the other, each while it is due, with an
  instant between its scheduled time and the clock, and each is then advanced.\<close>

definition advanced :: "int \<Rightarrow> ('d, 'st, 'u) schedule_entry \<Rightarrow> ('d, 'st, 'u) schedule_entry" where
  "advanced now e = e\<lparr>se_next_time := next_fire now (se_next_time e) (se_interval e)\<rparr>"

inductive fires :: "punctuation_type \<Rightarrow> int \<Rightarrow> ('d, 'st, 'u) graph \<Rightarrow> nat list \<Rightarrow> ('d, 'st, 'u) graph \<Rightarrow> bool" for ty now where
  fires_none: "fires ty now g [] g"
| fires_next: "fires ty now g (i # rest) g'"
  if "i < length (g_schedules g)" "due ty now (g_flags g) (g_schedules g ! i)"
    "se_next_time (g_schedules g ! i) \<le> ts" "ts \<le> now" "fire_schedule i ts g = Some (None, g1)"
    "fires ty now (g1\<lparr>g_schedules := (g_schedules g1)[i := advanced now (g_schedules g1 ! i)]\<rparr>) rest g'"

text \<open>A pass fires in order of position and changes no schedule it does not fire.\<close>

definition pass :: "punctuation_type \<Rightarrow> int \<Rightarrow> ('d, 'st, 'u) graph \<Rightarrow> nat list \<Rightarrow> ('d, 'st, 'u) graph \<Rightarrow> bool" where
  "pass ty now g fired g' \<longleftrightarrow> fires ty now g fired g' \<and> sorted_wrt (<) fired \<and> length (g_schedules g) \<le> length (g_schedules g') \<and>
     (\<forall>i < length (g_schedules g). (i \<in> set fired \<longrightarrow> due ty now (g_flags g) (g_schedules g ! i)) \<and>
        g_schedules g' ! i = (if i \<in> set fired then advanced now (g_schedules g ! i) else g_schedules g ! i))"

lemma pass_none: "pass ty now g [] g"
  by (simp add: pass_def fires_none)

lemma pass_next:
  assumes j: "j < length (g_schedules g)" "due ty now (g_flags g) (g_schedules g ! j)"
    and g1: "fire_schedule j now g = Some (None, g1)" "extends g g1"
    and t: "t = next_fire now (se_next_time (g_schedules g ! j)) (se_interval (g_schedules g ! j))"
    and rest: "pass ty now (resync j t g1) fired g'" "\<forall>i \<in> set fired. j < i"
  shows "pass ty now g (j # fired) g'"
proof -
  obtain new where new: "g_schedules g1 = g_schedules g @ new" and fl: "flags_le (g_flags g) (g_flags g1)"
    using g1(2) by (auto simp: extends_def)
  have adv: "resync j t g1 = g1\<lparr>g_schedules := (g_schedules g1)[j := advanced now (g_schedules g1 ! j)]\<rparr>"
    using j(1) new t by (simp add: resync_def advanced_def nth_append)
  have entries: "g_schedules (resync j t g1) ! i = (if i = j then advanced now (g_schedules g ! j) else g_schedules g ! i)"
      "i < length (g_schedules (resync j t g1))" if "i < length (g_schedules g)" for i
    using that j(1) new by (simp_all add: adv nth_append)
  have flags: "g_flags (resync j t g1) = g_flags g1"
    by (simp add: resync_def)
  have "se_next_time (g_schedules g ! j) \<le> now"
    using j(2) by (simp add: due_def)
  then have "fires ty now g (j # fired) g'"
    using rest(1) fires_next [OF j _ _ g1(1)] by (simp add: pass_def adv)
  moreover have "(i \<in> set (j # fired) \<longrightarrow> due ty now (g_flags g) (g_schedules g ! i)) \<and>
      g_schedules g' ! i = (if i \<in> set (j # fired) then advanced now (g_schedules g ! i) else g_schedules g ! i)" if i: "i < length (g_schedules g)" for i
  proof -
    have r: "i \<in> set fired \<longrightarrow> due ty now (g_flags g1) (g_schedules (resync j t g1) ! i)"
        "g_schedules g' ! i = (if i \<in> set fired then advanced now (g_schedules (resync j t g1) ! i) else g_schedules (resync j t g1) ! i)"
      using rest(1) entries(2) [OF i] by (simp_all add: pass_def flags)
    show ?thesis
      using r rest(2) j(2) entries(1) [OF i] due_mono [OF fl] by (cases "i = j") auto
  qed
  moreover have "length (g_schedules g) \<le> length (g_schedules g')"
    using rest(1) new by (simp add: pass_def resync_def)
  ultimately show ?thesis
    using rest by (simp add: pass_def)
qed

lemma punctuate_loop_returns:
  assumes "graph_ok g" "now = clock ty g" "now < i64_max" "j \<le> n" "n \<le> length (g_schedules g)"
    and "\<forall>i < length (g_schedules g). due ty now (g_flags g) (g_schedules g ! i) \<longrightarrow> j \<le> i \<and> i < n"
  shows "\<exists>g'. punctuate_loop ty now [j..<n] g = Some (None, g') \<and> graph_ok g' \<and> same_wiring g g' \<and>
    (\<forall>e \<in> set (g_schedules g'). \<not> due ty now (g_flags g') e) \<and> (\<exists>fired. pass ty now g fired g' \<and> set fired \<subseteq> {j..<n})"
  using assms
proof (induction "n - j" arbitrary: j g)
  case 0
  then have "\<forall>e \<in> set (g_schedules g). \<not> due ty now (g_flags g) e"
    by (force simp: in_set_conv_nth)
  then show ?case
    using 0 pass_none [of ty now g] by (auto simp: same_wiring_def)
next
  case (Suc m)
  have jn: "j < n"
    using Suc.hyps(2) by simp
  note j = jn upt_conv_Cons [OF jn]
  let ?e = "g_schedules g ! j"
  show ?case
  proof (cases "due ty now (g_flags g) ?e")
    case False
    have "Suc j \<le> i \<and> i < n" if "i < length (g_schedules g)" "due ty now (g_flags g) (g_schedules g ! i)" for i
    proof -
      have "j \<le> i" "i < n" "i \<noteq> j"
        using Suc.prems(6) that False by blast+
      then show ?thesis
        by simp
    qed
    then have "\<forall>i < length (g_schedules g). due ty now (g_flags g) (g_schedules g ! i) \<longrightarrow> Suc j \<le> i \<and> i < n"
      by blast
    moreover have "punctuate_loop ty now [j..<n] g = punctuate_loop ty now [Suc j..<n] g"
      using False by (auto simp: j(2) due_def Let_def)
    moreover have "{Suc j..<n} \<subseteq> {j..<n}"
      by auto
    ultimately show ?thesis
      using Suc.hyps(1) [of "Suc j" g, OF _ Suc.prems(1-3) _ Suc.prems(5)] Suc.hyps(2) j(1) by fastforce
  next
    case True
    have jl: "j < length (g_schedules g)"
      using j(1) Suc.prems(5) by simp
    obtain g1 t where 1: "fire_schedule j now g = Some (None, g1)" "t = next_fire now (se_next_time ?e) (se_interval ?e)"
        "graph_ok (resync j t g1)" "same_wiring g (resync j t g1)" "length (g_schedules g) \<le> length (g_schedules (resync j t g1))"
        "\<forall>i < length (g_schedules (resync j t g1)). due ty now (g_flags (resync j t g1)) (g_schedules (resync j t g1) ! i) \<longrightarrow>
           i < length (g_schedules g) \<and> i \<noteq> j \<and> due ty now (g_flags g) (g_schedules g ! i)"
      using fire_and_resync [OF Suc.prems(1-3) jl True] by blast
    let ?g = "resync j t g1"
    have clk: "now = clock ty ?g"
      using Suc.prems(2) 1(4) by (simp add: clock_def same_wiring_def)
    have "Suc j \<le> i \<and> i < n" if "i < length (g_schedules ?g)" "due ty now (g_flags ?g) (g_schedules ?g ! i)" for i
    proof -
      have "i < length (g_schedules g)" "i \<noteq> j" "due ty now (g_flags g) (g_schedules g ! i)"
        using 1(6) that by blast+
      moreover have "j \<le> i" "i < n"
        using Suc.prems(6) calculation by blast+
      ultimately show ?thesis
        by simp
    qed
    then have rest: "\<forall>i < length (g_schedules ?g). due ty now (g_flags ?g) (g_schedules ?g ! i) \<longrightarrow> Suc j \<le> i \<and> i < n"
      by blast
    have "punctuate_loop ty now [j..<n] g = punctuate_loop ty now [Suc j..<n] ?g"
      using True 1(1,2) by (auto simp: j(2) due_def Let_def resync_def)
    moreover obtain g' fired where "punctuate_loop ty now [Suc j..<n] ?g = Some (None, g')" "graph_ok g'" "same_wiring ?g g'"
        "\<forall>e \<in> set (g_schedules g'). \<not> due ty now (g_flags g') e" and fired: "pass ty now ?g fired g'" "set fired \<subseteq> {Suc j..<n}"
    proof -
      have "m = n - Suc j" "Suc j \<le> n" "n \<le> length (g_schedules ?g)"
        using Suc.hyps(2) j(1) Suc.prems(5) 1(5) by linarith+
      from Suc.hyps(1) [OF this(1) 1(3) clk Suc.prems(3) this(2,3) rest] show thesis
        using that by blast
    qed
    moreover have "pass ty now g (j # fired) g'"
    proof (rule pass_next [OF jl True 1(1) _ 1(2) fired(1)])
      show "extends g g1"
        using fire_schedule_returns [OF Suc.prems(1) jl, of now] 1(1) by auto
    qed (use fired(2) in auto)
    moreover have "set (j # fired) \<subseteq> {j..<n}"
      using fired(2) j(1) by auto
    ultimately show ?thesis
      using same_wiring_trans [OF 1(4)] by metis
  qed
qed

lemma punctuate_returns:
  assumes g: "graph_ok g" and now: "now = clock ty g" "now < i64_max"
  shows "\<exists>g'. punctuate ty now g = Some (None, g') \<and> graph_ok g' \<and> same_wiring g g' \<and> (\<forall>e \<in> set (g_schedules g'). \<not> due ty now (g_flags g') e) \<and>
    (\<exists>fired. pass ty now (g\<lparr>g_schedules := filter (\<lambda>e. \<not> is_cancelled (g_flags g) e) (g_schedules g)\<rparr>) fired g' \<and>
       set fired \<subseteq> {..<length (filter (\<lambda>e. \<not> is_cancelled (g_flags g) e) (g_schedules g))})"
proof -
  let ?g = "g\<lparr>g_schedules := filter (\<lambda>e. \<not> is_cancelled (g_flags g) e) (g_schedules g)\<rparr>"
  have "edges_ok ?g = edges_ok g" "schedule_ok ?g = schedule_ok g"
    by (simp_all add: edges_ok_def schedule_ok_def fun_eq_iff)
  then have "graph_ok ?g"
    using g by (auto simp: graph_ok_def)
  moreover have "now = clock ty ?g" "same_wiring g ?g"
    using now(1) by (simp_all add: clock_def same_wiring_def)
  ultimately obtain g' fired where "punctuate_loop ty now [0..<length (g_schedules ?g)] ?g = Some (None, g')" "graph_ok g'" "same_wiring g g'"
      "\<forall>e \<in> set (g_schedules g'). \<not> due ty now (g_flags g') e" "pass ty now ?g fired g'" "set fired \<subseteq> {0..<length (g_schedules ?g)}"
    using punctuate_loop_returns [of ?g now ty 0 "length (g_schedules ?g)"] now(2) same_wiring_trans by blast
  then show ?thesis
    unfolding punctuate_def Let_def by (intro exI [of _ g'] conjI exI [of _ fired]) auto
qed

lemma pipe_result:
  assumes "graph_ok g" "in_i64 ts"
  shows "\<exists>g'. pipe topic part offset key value ts g = Some (case seed topic key value ts (g_sources g) of Inl e \<Rightarrow> Some e | Inr _ \<Rightarrow> None, g') \<and>
    graph_ok g' \<and> extends (g\<lparr>g_stream_time := max (g_stream_time g) ts\<rparr>) g' \<and>
    (\<forall>e. seed topic key value ts (g_sources g) = Inl e \<longrightarrow> g' = g\<lparr>g_stream_time := max (g_stream_time g) ts\<rparr>)"
proof -
  let ?g = "g\<lparr>g_stream_time := max (g_stream_time g) ts\<rparr>"
  have g: "graph_ok ?g"
    using graph_ok_stream_time [OF assms] .
  have src: "g_sources ?g = g_sources g"
    by simp
  show ?thesis
  proof (cases "seed topic key value ts (g_sources g)")
    case (Inl e)
    then show ?thesis
      using g extends_refl by (simp add: pipe_def Let_def)
  next
    case (Inr buffer)
    have "buffer_ok ?g buffer"
      using seed_buffer_ok [OF g] Inr src by metis
    then obtain g' where "drain \<lparr>rc_topic = topic, rc_partition = part, rc_offset = offset, rc_timestamp = ts\<rparr> buffer ?g = Some (None, g')"
        "graph_ok g'" "extends ?g g'"
      using drain_returns [OF g] by blast
    then show ?thesis
      using Inr by (simp add: pipe_def Let_def)
  qed
qed

section \<open>Snapshots of all stores\<close>

text \<open>A registry keys every store by its own name.\<close>

definition registry_ok :: "('d, 'st) store_ops \<Rightarrow> ('st \<Rightarrow> bool) \<Rightarrow> (string \<times> 'st) list \<Rightarrow> bool" where
  "registry_ok ops store_ok reg \<longleftrightarrow> distinct (map fst reg) \<and> (\<forall>(n, s) \<in> set reg. so_name ops s = n \<and> store_ok s)"

text \<open>The contract of the snapshot methods of \<^verbatim>\<open>StateStore\<close>: restoring into any store of the same kind gives the
  content of the snapshotted one.\<close>

locale state_store_contract =
  fixes ops :: "('d, 'st) store_ops" and store_ok :: "'st \<Rightarrow> bool" and content :: "'st \<Rightarrow> 'c"
  assumes restore_snapshot: "store_ok s \<Longrightarrow> store_ok s0 \<Longrightarrow> so_snapshot ops s = Some data \<Longrightarrow>
    \<exists>s'. so_restore_snapshot ops data s0 = Inr s' \<and> store_ok s' \<and> content s' = content s"
begin

lemma snapshot_loop_view:
  assumes "registry_ok ops store_ok reg" "snapshot_loop ops reg acc = Some snap" "bt_ok acc"
  shows "bt_ok snap \<and> (\<forall>n. map_of snap n = (case map_of reg n of None \<Rightarrow> map_of acc n | Some s \<Rightarrow> so_snapshot ops s)) \<and>
    (\<forall>n s. map_of reg n = Some s \<longrightarrow> so_snapshot ops s \<noteq> None)"
  using assms
proof (induction reg arbitrary: acc)
  case (Cons p reg)
  obtain n s where p: "p = (n, s)"
    by (cases p)
  then obtain data where data: "so_snapshot ops s = Some data" "snapshot_loop ops reg (bt_insert n data acc) = Some snap"
    using Cons.prems by (auto simp: registry_ok_def bind_eq_Some_conv)
  have reg: "registry_ok ops store_ok reg" "map_of reg n = None"
    using Cons.prems(1) p by (auto simp: registry_ok_def map_of_eq_None_iff)
  show ?case
    using Cons.IH [OF reg(1) data(2)] Cons.prems(3) data(1) reg(2) p by (auto split: option.splits)
qed simp

lemma restore_loop_view:
  assumes snap: "\<forall>n. map_of snap n = (case map_of reg n of None \<Rightarrow> None | Some s \<Rightarrow> so_snapshot ops s)"
    "\<forall>n s. map_of reg n = Some s \<longrightarrow> so_snapshot ops s \<noteq> None \<and> store_ok s"
    and reg0: "registry_ok ops store_ok reg0" "fst ` set reg0 \<subseteq> fst ` set reg"
  shows "\<exists>reg'. restore_loop ops snap reg0 = (None, reg') \<and> map fst reg' = map fst reg0 \<and>
    (\<forall>n s'. map_of reg' n = Some s' \<longrightarrow> store_ok s' \<and> (\<exists>s. map_of reg n = Some s \<and> content s' = content s))"
  using reg0
proof (induction reg0)
  case (Cons p reg0)
  obtain n s0 where p: "p = (n, s0)"
    by (cases p)
  have n: "so_name ops s0 = n" "store_ok s0" and reg0: "registry_ok ops store_ok reg0" "fst ` set reg0 \<subseteq> fst ` set reg" and m: "n \<in> fst ` set reg"
    using Cons.prems p by (auto simp: registry_ok_def)
  obtain s where s: "map_of reg n = Some s"
    using m by (metis map_of_eq_None_iff option.exhaust)
  obtain data where data: "so_snapshot ops s = Some data" "store_ok s"
    using snap(2) s by blast
  obtain s' where s': "so_restore_snapshot ops data s0 = Inr s'" "store_ok s'" "content s' = content s"
    using restore_snapshot [OF data(2) n(2) data(1)] by blast
  obtain reg' where reg': "restore_loop ops snap reg0 = (None, reg')" "map fst reg' = map fst reg0"
      "\<forall>n s'. map_of reg' n = Some s' \<longrightarrow> store_ok s' \<and> (\<exists>s. map_of reg n = Some s \<and> content s' = content s)"
    using Cons.IH [OF reg0] by blast
  show ?case
    using s data(1) s' reg' snap(1) n(1) p by (intro exI [of _ "(n, s') # reg'"]) auto
qed simp

lemma restore_snapshot_stores:
  assumes reg: "registry_ok ops store_ok (g_stores g)" and snap: "snapshot_stores ops g = Some snap"
    and reg0: "registry_ok ops store_ok (g_stores g0)" "fst ` set (g_stores g0) = fst ` set (g_stores g)"
  shows "bt_ok snap \<and> fst ` set snap = fst ` set (g_stores g) \<and> (\<exists>g'. restore_store_snapshots ops snap g0 = (None, g') \<and>
    (\<forall>n s. map_of (g_stores g) n = Some s \<longrightarrow> (\<exists>s'. map_of (g_stores g') n = Some s' \<and> content s' = content s)))"
proof -
  have view: "bt_ok snap" "\<forall>n. map_of snap n = (case map_of (g_stores g) n of None \<Rightarrow> None | Some s \<Rightarrow> so_snapshot ops s)"
    "\<forall>n s. map_of (g_stores g) n = Some s \<longrightarrow> so_snapshot ops s \<noteq> None"
    using snapshot_loop_view [OF reg, of "[]" snap] snap by (auto simp: snapshot_stores_def split: option.splits)
  have "\<forall>n s. map_of (g_stores g) n = Some s \<longrightarrow> store_ok s"
    using reg by (auto simp: registry_ok_def dest: map_of_SomeD)
  then obtain reg' where reg': "restore_loop ops snap (g_stores g0) = (None, reg')" "map fst reg' = map fst (g_stores g0)"
      "\<forall>n s'. map_of reg' n = Some s' \<longrightarrow> store_ok s' \<and> (\<exists>s. map_of (g_stores g) n = Some s \<and> content s' = content s)"
    using restore_loop_view [OF view(2) _ reg0(1)] view(3) reg0(2) by auto
  have "\<exists>s'. map_of reg' n = Some s' \<and> content s' = content s" if "map_of (g_stores g) n = Some s" for n s
  proof -
    have "n \<in> fst ` set reg'"
      using that reg'(2) reg0(2) map_of_eq_None_iff by (metis image_set option.distinct(1))
    then obtain s' where "map_of reg' n = Some s'"
      by (metis map_of_eq_None_iff option.exhaust)
    then show ?thesis
      using reg'(3) that by fastforce
  qed
  moreover have "fst ` set snap = fst ` set (g_stores g)"
  proof (intro set_eqI)
    fix n
    have "map_of snap n = None \<longleftrightarrow> map_of (g_stores g) n = None"
      using view(2,3) by (cases "map_of (g_stores g) n") auto
    then show "n \<in> fst ` set snap \<longleftrightarrow> n \<in> fst ` set (g_stores g)"
      unfolding map_of_eq_None_iff by blast
  qed
  ultimately show ?thesis
    using reg'(1) view(1) by (simp add: restore_store_snapshots_def)
qed

end

text \<open>The key-value store behind \<^verbatim>\<open>Box<dyn StateStore>\<close>.\<close>

definition kv_store_ops :: "string \<Rightarrow> string \<Rightarrow> ('k + 'v change, ('k, 'v) kv_store) store_ops" where
  "kv_store_ops kt vt =
    \<lparr>so_name = kv_name, so_changelog_topic = kv_changelog_topic,
     so_take_changelog_ts = (\<lambda>s. let (log, s') = kv_take_changelog s in (map (\<lambda>(k, v). (k, v, None)) log, s')),
     so_apply_changelog_ts = (\<lambda>k v _. kv_apply_changelog k v), so_set_logging = kv_set_logging,
     so_flush_cache_into = (\<lambda>children s. map_option (map_prod (map (\<lambda>(child, k, c, ts).
        (child, \<lparr>er_key = Some \<lparr>an_type = kt, an_data = Inl k\<rparr>, er_value = \<lparr>an_type = vt, an_data = Inr c\<rparr>, er_timestamp = ts\<rparr>))) id)
        (kv_flush_cache_into children s)),
     so_clear = kv_clear, so_snapshot = kv_snapshot, so_restore_snapshot = kv_restore_snapshot\<rparr>"

interpretation kv_state_store: state_store_contract "kv_store_ops kt vt" "\<lambda>s. backing_ok (kv_backing s)" "\<lambda>s. backing_view (kv_backing s)"
proof
  fix s s0 :: "('a, 'b) kv_store" and data
  assume "backing_ok (kv_backing s)" "backing_ok (kv_backing s0)" "so_snapshot (kv_store_ops kt vt) s = Some data"
  then show "\<exists>s'. so_restore_snapshot (kv_store_ops kt vt) data s0 = Inr s' \<and> backing_ok (kv_backing s') \<and>
      backing_view (kv_backing s') = backing_view (kv_backing s)"
    using backing_restore_snapshot [of "kv_backing s" "kv_backing s0" data]
    by (auto simp: kv_store_ops_def kv_snapshot_def kv_restore_snapshot_def)
qed

section \<open>Properties\<close>

text \<open>A source of strings, a processor that forwards each record twice and schedules a punctuation every ten
  milliseconds, and a sink.\<close>

definition echo_graph :: "(string, unit, nat) graph" where
  "echo_graph =
    \<lparr>g_nodes = [Processor_Node ''echo'' ''String'' ''String'' ''String'' ''String'' Done
        (\<lambda>rc r. Forward (r_key r) (r_value r) (r_timestamp r) (Forward (r_key r) (r_value r) (r_timestamp r) (With_Fields Suc (\<lambda>_. Done)))) id,
        Sink_Node ''sink'' ''out'' ''String'' ''String'' StringSerde StringSerde],
     g_children = [[1], []],
     g_sources = [\<lparr>gs_topic = ''in'', gs_name = ''src'', gs_key_type = ''String'', gs_value_type = ''String'',
        gs_key_serde = StringSerde, gs_value_serde = StringSerde, gs_children = [0]\<rparr>],
     g_output = [], g_stores = [],
     g_schedules = [\<lparr>se_node_idx = 0, se_interval = 10, se_ty = StreamTime, se_next_time = 10,
        se_punctuator = (\<lambda>ts. Forward None ''tick'' ts Done), se_key_type = ''String'', se_value_type = ''String'', se_cancel = 0\<rparr>],
     g_stream_time = 0, g_wall_clock = 0, g_cache_owner = [], g_flags = [False], g_user = 0\<rparr>"

lemma echo_graph_ok: "graph_ok echo_graph" "g_stream_time echo_graph = 0"
proof -
  have "edges_ok echo_graph"
    by (auto simp: edges_ok_def echo_graph_def less_Suc_eq)
  then show "graph_ok echo_graph"
    by (auto simp: graph_ok_def schedule_ok_def echo_graph_def in_i64_def sat_add_def clamp_i64_def)
qed (simp add: echo_graph_def)

text \<open>C7: The graph driver always comes to rest.  On a well-typed graph whose user code does not panic, piping in any
  record of any topic returns: the loop over the forward buffer ends although every node may forward any number
  of records to any of its children, no index is out of range, and the graph is well-typed again afterwards with
  its wiring unchanged.\<close>

theorem graph_pipe_terminates:
  assumes "graph_ok g" "in_i64 ts"
  shows "\<exists>res g'. pipe topic part offset key value ts g = Some (res, g') \<and> graph_ok g' \<and>
    g_nodes g' = g_nodes g \<and> g_children g' = g_children g \<and> g_stream_time g' = max (g_stream_time g) ts"
  using pipe_result [OF assms, of topic part offset key "value"] by (auto simp: extends_def)

lemma graph_pipe_terminates_witness:
  "\<exists>res g'. pipe ''in'' 0 7 None (str_bytes ''a'') 25 echo_graph = Some (res, g') \<and> graph_ok g' \<and> g_stream_time g' = 25"
  using graph_pipe_terminates [of echo_graph 25 "''in''" 0 7 None "str_bytes ''a''"] echo_graph_ok by (auto simp: in_i64_def)


text \<open>C8: No type confusion.  On a well-typed graph no record ever reaches a node of other types: piping a record in
  never reports a downcast error, whatever the processors forward.\<close>

theorem graph_pipe_type_safe:
  assumes "graph_ok g" "in_i64 ts" "pipe topic part offset key value ts g = Some (Some err, g')"
  shows "err \<noteq> Downcast node expected"
  using pipe_result [OF assms(1,2), of topic part offset key "value"] assms(3) seed_error_name [of topic key "value" ts "g_sources g"]
  by (auto split: sum.splits)

lemma echo_graph_undecodable:
  "pipe ''in'' 0 7 None [255] 25 echo_graph = Some (Some (Serde_Error ''src''), echo_graph\<lparr>g_stream_time := 25\<rparr>)"
  by (simp add: pipe_def echo_graph_def Let_def source_deserialize_def StringSerde_def utf8_decode_def)

lemma graph_pipe_type_safe_witness:
  "\<exists>err g'. pipe ''in'' 0 7 None [255] 25 echo_graph = Some (Some err, g') \<and> err \<noteq> Downcast ''echo'' ''String''"
  using graph_pipe_type_safe [OF echo_graph_ok(1) _ echo_graph_undecodable] echo_graph_undecodable by (auto simp: in_i64_def)


text \<open>C11: Undecodable input is the only error.  Piping a record in reports an error exactly when some source on the topic
  that has a child cannot decode its key or value; then no node has run, and nothing but the stream time has
  changed.\<close>

theorem graph_pipe_error_iff:
  assumes "graph_ok g" "in_i64 ts"
  shows "\<exists>res g'. pipe topic part offset key value ts g = Some (res, g') \<and>
    (res = None \<longleftrightarrow> \<not> (\<exists>src \<in> set (g_sources g). undecodable topic key value src)) \<and>
    (res \<noteq> None \<longrightarrow> g' = g\<lparr>g_stream_time := max (g_stream_time g) ts\<rparr>)"
  using pipe_result [OF assms, of topic part offset key "value"] seed_error_iff [of topic key "value" ts "g_sources g"]
  by (cases "seed topic key value ts (g_sources g)") auto

lemma graph_pipe_error_iff_witness:
  "\<exists>res g'. pipe ''in'' 0 7 None (str_bytes ''a'') 25 echo_graph = Some (res, g') \<and> res = None"
proof -
  have "\<not> (\<exists>src \<in> set (g_sources echo_graph). undecodable ''in'' None (str_bytes ''a'') src)"
    by (simp add: undecodable_def echo_graph_def StringSerde_def utf8_decode_def str_bytes_def)
  then show ?thesis
    using graph_pipe_error_iff [of echo_graph 25 "''in''" 0 7 None "str_bytes ''a''"] echo_graph_ok(1) by (auto simp: in_i64_def)
qed


text \<open>C10: A punctuation pass fires every due schedule once and re-arms it.  A stream-time pass at any instant below the
  largest one returns without an error.  Every live schedule keeps its place: those that are due fire, once each and in
  order, unless user code cancels them earlier in the pass, and are advanced; the others are left as they are, and
  schedules registered during the pass come after them and do not fire in it.  Afterwards no live stream-time schedule
  is due, and each fires again at the latest one interval after the current stream time.\<close>

theorem graph_punctuation_rearms:
  assumes "graph_ok g" "in_i64 t" "max (g_stream_time g) t < i64_max"
  defines "now \<equiv> max (g_stream_time g) t" and "live \<equiv> filter (\<lambda>e. \<not> is_cancelled (g_flags g) e) (g_schedules g)"
  shows "\<exists>fired g'. punctuate_stream_time t g = Some (None, g') \<and> graph_ok g' \<and> g_stream_time g' = now \<and>
    fires StreamTime now (g\<lparr>g_stream_time := now, g_schedules := live\<rparr>) fired g' \<and> sorted_wrt (<) fired \<and>
    set fired \<subseteq> {..<length live} \<and> length live \<le> length (g_schedules g') \<and>
    (\<forall>i < length live.
       if i \<in> set fired then due StreamTime now (g_flags g) (live ! i) \<and> g_schedules g' ! i = advanced now (live ! i)
       else \<not> due StreamTime now (g_flags g') (live ! i) \<and> g_schedules g' ! i = live ! i) \<and>
    (\<forall>e \<in> set (g_schedules g'). se_ty e = StreamTime \<and> \<not> is_cancelled (g_flags g') e \<longrightarrow>
       now < se_next_time e \<and> se_next_time e \<le> sat_add now (se_interval e))"
proof -
  let ?g = "g\<lparr>g_stream_time := now\<rparr>"
  have "graph_ok ?g" "now = clock StreamTime ?g"
    using graph_ok_stream_time [OF assms(1,2)] by (simp_all add: clock_def clock_of_def now_def)
  from punctuate_returns [OF this assms(3) [folded now_def]]
  obtain g' fired where g': "punctuate StreamTime now ?g = Some (None, g')" "graph_ok g'" "same_wiring ?g g'"
      "\<forall>e \<in> set (g_schedules g'). \<not> due StreamTime now (g_flags g') e"
    and fired: "pass StreamTime now (g\<lparr>g_stream_time := now, g_schedules := live\<rparr>) fired g'" "set fired \<subseteq> {..<length live}"
    by (auto simp: live_def)
  have st: "g_stream_time g' = now"
    using g'(3) by (simp add: same_wiring_def)
  have "\<forall>e \<in> set (g_schedules g'). schedule_ok g' e"
    using g'(2) by (simp add: graph_ok_def)
  then have rearmed: "\<forall>e \<in> set (g_schedules g'). se_ty e = StreamTime \<and> \<not> is_cancelled (g_flags g') e \<longrightarrow>
       now < se_next_time e \<and> se_next_time e \<le> sat_add now (se_interval e)"
    using g'(4) st by (auto simp: due_def schedule_ok_def)
  have "length live \<le> length (g_schedules g')"
    using fired(1) by (simp add: pass_def)
  then have rest: "\<not> due StreamTime now (g_flags g') (g_schedules g' ! i)" if "i < length live" for i
    using g'(4) nth_mem less_le_trans that by blast
  have entry: "(i \<in> set fired \<longrightarrow> due StreamTime now (g_flags g) (live ! i)) \<and>
      g_schedules g' ! i = (if i \<in> set fired then advanced now (live ! i) else live ! i)" if "i < length live" for i
    using fired(1) that by (simp add: pass_def)
  have "if i \<in> set fired then due StreamTime now (g_flags g) (live ! i) \<and> g_schedules g' ! i = advanced now (live ! i)
       else \<not> due StreamTime now (g_flags g') (live ! i) \<and> g_schedules g' ! i = live ! i" if "i < length live" for i
    using rest [OF that] entry [OF that] by (cases "i \<in> set fired") simp_all
  moreover have "punctuate_stream_time t g = Some (None, g')"
    using g'(1) by (simp add: punctuate_stream_time_def now_def)
  ultimately show ?thesis
    using g'(2) st fired rearmed by (intro exI [of _ fired] exI [of _ g']) (simp add: pass_def)
qed

lemma graph_punctuation_rearms_witness:
  "\<exists>fired g'. punctuate_stream_time 25 echo_graph = Some (None, g') \<and> graph_ok g' \<and> g_stream_time g' = 25 \<and>
    fires StreamTime 25 (echo_graph\<lparr>g_stream_time := 25\<rparr>) fired g' \<and> 1 \<le> length (g_schedules g') \<and>
    filter (due StreamTime 25 (g_flags g')) (g_schedules g') = []"
proof -
  have "max (g_stream_time echo_graph) 25 = 25" "filter (\<lambda>e. \<not> is_cancelled (g_flags echo_graph) e) (g_schedules echo_graph) = g_schedules echo_graph"
      "length (g_schedules echo_graph) = 1" "echo_graph\<lparr>g_stream_time := 25, g_schedules := g_schedules echo_graph\<rparr> = echo_graph\<lparr>g_stream_time := 25\<rparr>"
    by (simp_all add: echo_graph_def is_cancelled_def)
  moreover have "in_i64 25" "(25 :: int) < i64_max"
    by (simp_all add: in_i64_def)
  ultimately obtain fired g' where g': "punctuate_stream_time 25 echo_graph = Some (None, g')" "graph_ok g'" "g_stream_time g' = 25"
      "fires StreamTime 25 (echo_graph\<lparr>g_stream_time := 25\<rparr>) fired g'" "1 \<le> length (g_schedules g')"
    and "\<forall>e \<in> set (g_schedules g'). se_ty e = StreamTime \<and> \<not> is_cancelled (g_flags g') e \<longrightarrow>
       25 < se_next_time e \<and> se_next_time e \<le> sat_add 25 (se_interval e)"
    using graph_punctuation_rearms [OF echo_graph_ok(1), of 25] by metis
  then have "filter (due StreamTime 25 (g_flags g')) (g_schedules g') = []"
    by (auto simp: due_def filter_empty_conv)
  then show ?thesis
    using g' by blast
qed

end
