(* ===== verification/Suppress_Store.thy ===== *)
theory Suppress_Store
  imports Processor_Api
begin

text \<open>
  The suppression buffer: \<^verbatim>\<open>store/suppress_bufval.rs\<close> (the changelog value codec) and \<^verbatim>\<open>store/suppress_store.rs\<close>
  (\<^verbatim>\<open>SuppressBytesStore\<close>).

  The buffer is a map from slots \<open>(buffer_time, seq)\<close> to entries with an index from key bytes to slots.  Its
  specification is a stable priority queue: the list of pending changes by buffer time, one per key.  The
  sequence counter and the byte total are unbounded here; the source's are 64 bits wide.
\<close>

section \<open>The changelog value codec\<close>

record suppress_record_ctx =
  sc_topic :: string
  sc_partition :: int
  sc_offset :: int
  sc_timestamp :: int

definition i32_max :: int where
  "i32_max = 2147483647"

text \<open>\<^verbatim>\<open>i32::try_from(len).expect(..)\<close> and \<^verbatim>\<open>put_i32\<close>.\<close>

definition put_len :: "nat \<Rightarrow> bytes option" where
  "put_len n = (if int n \<le> i32_max then Some (i32_to_be (int n)) else None)"

definition ctx_write :: "suppress_record_ctx \<Rightarrow> bytes option" where
  "ctx_write c =
    do { l \<leftarrow> put_len (length (sc_topic c));
         Some (i64_to_be (sc_timestamp c) @ i64_to_be (sc_offset c) @ l @ str_bytes (sc_topic c) @
               i32_to_be (sc_partition c) @ i32_to_be 0) }"

text \<open>\<^verbatim>\<open>buf.get(o..o + n)?\<close> with the offset advanced.\<close>

definition get_bytes :: "nat \<Rightarrow> bytes \<Rightarrow> (bytes \<times> bytes) option" where
  "get_bytes n buf = (if n \<le> length buf then Some (take n buf, drop n buf) else None)"

definition get_i64 :: "bytes \<Rightarrow> (int \<times> bytes) option" where
  "get_i64 buf = map_option (map_prod i64_of_be id) (get_bytes 8 buf)"

definition get_i32 :: "bytes \<Rightarrow> (int \<times> bytes) option" where
  "get_i32 buf = map_option (map_prod i32_of_be id) (get_bytes 4 buf)"

definition get_run :: "int \<Rightarrow> bytes \<Rightarrow> (bytes \<times> bytes) option" where
  "get_run len buf = (if len < 0 then None else get_bytes (nat len) buf)"

definition ctx_read :: "bytes \<Rightarrow> (suppress_record_ctx \<times> bytes) option" where
  "ctx_read buf =
    do { (timestamp, b1) \<leftarrow> get_i64 buf;
         (offset, b2) \<leftarrow> get_i64 b1;
         (topic_len, b3) \<leftarrow> get_i32 b2;
         (topic_bytes, b4) \<leftarrow> get_run topic_len b3;
         topic \<leftarrow> utf8_decode topic_bytes;
         (part, b5) \<leftarrow> get_i32 b4;
         (_, b6) \<leftarrow> get_bytes 4 b5;
         Some (\<lparr>sc_topic = topic, sc_partition = part, sc_offset = offset, sc_timestamp = timestamp\<rparr>, b6) }"

record buffered_change =
  bc_ctx :: suppress_record_ctx
  bc_prior :: "bytes option"
  bc_old :: "bytes option"
  bc_new :: "bytes option"
  bc_buffer_time :: int

definition add_value :: "bytes option \<Rightarrow> bytes option" where
  "add_value v = (case v of None \<Rightarrow> Some (i32_to_be (-1)) | Some v \<Rightarrow> map_option (\<lambda>l. l @ v) (put_len (length v)))"

definition serialize_buffer_change ::
  "suppress_record_ctx \<Rightarrow> bytes option \<Rightarrow> bytes option \<Rightarrow> bytes option \<Rightarrow> int \<Rightarrow> bytes option" where
  "serialize_buffer_change ctx prior old new buffer_time =
    do { c \<leftarrow> ctx_write ctx;
         p \<leftarrow> add_value prior;
         oldb \<leftarrow> (case old of
                 None \<Rightarrow> Some (i32_to_be (-1))
               | Some ob \<Rightarrow> if prior = Some ob then Some (i32_to_be (-2)) else map_option (\<lambda>l. l @ ob) (put_len (length ob)));
         n \<leftarrow> add_value new;
         Some (c @ p @ oldb @ n @ i64_to_be buffer_time) }"

definition read_add_value :: "bytes \<Rightarrow> (bytes option \<times> bytes) option" where
  "read_add_value buf =
    do { (len, b) \<leftarrow> get_i32 buf;
         (if len = -1 then Some (None, b) else map_option (map_prod Some id) (get_run len b)) }"

definition try_deserialize_buffer_change :: "bytes \<Rightarrow> buffered_change option" where
  "try_deserialize_buffer_change buf =
    do { (ctx, b1) \<leftarrow> ctx_read buf;
         (prior, b2) \<leftarrow> read_add_value b1;
         (old_tag, b3) \<leftarrow> get_i32 b2;
         (old, b4) \<leftarrow> (if old_tag = -1 then Some (None, b3)
                      else if old_tag = -2 then Some (prior, b3)
                      else map_option (map_prod Some id) (get_run old_tag b3));
         (new, b5) \<leftarrow> read_add_value b4;
         (buffer_time, _) \<leftarrow> get_i64 b5;
         Some \<lparr>bc_ctx = ctx, bc_prior = prior, bc_old = old, bc_new = new, bc_buffer_time = buffer_time\<rparr> }"

section \<open>SuppressBytesStore\<close>

record suppress_entry =
  sx_key_bytes :: bytes
  sx_new_bytes :: "bytes option"
  sx_old_bytes :: "bytes option"
  sx_record_ts :: int

type_synonym slot = "int \<times> nat"

record ('k, 'v) suppress_store =
  sup_name :: string
  sup_changelog_topic :: string
  sup_logging :: bool
  sup_key_serde :: "'k serde"
  sup_value_serde :: "'v serde"
  sup_entries :: "(slot, suppress_entry) btree"
  sup_index :: "bytes \<rightharpoonup> slot"
  sup_seq :: nat
  sup_byte_size :: nat
  sup_changelog :: "(bytes \<times> bytes option) list"

definition sup_new :: "string \<Rightarrow> 'k serde \<Rightarrow> 'v serde \<Rightarrow> string \<Rightarrow> ('k, 'v) suppress_store" where
  "sup_new name ks vs topic =
    \<lparr>sup_name = name, sup_changelog_topic = topic, sup_logging = True, sup_key_serde = ks, sup_value_serde = vs,
     sup_entries = [], sup_index = Map.empty, sup_seq = 0, sup_byte_size = 0, sup_changelog = []\<rparr>"

definition entry_size :: "bytes \<Rightarrow> bytes option \<Rightarrow> nat" where
  "entry_size key_bytes new_bytes = length key_bytes + (case new_bytes of None \<Rightarrow> 0 | Some b \<Rightarrow> length b)"

definition size_of_entry :: "suppress_entry \<Rightarrow> nat" where
  "size_of_entry e = entry_size (sx_key_bytes e) (sx_new_bytes e)"

text \<open>\<^verbatim>\<open>byte_size -= size\<close> panics below zero.\<close>

definition sub_size :: "nat \<Rightarrow> ('k, 'v) suppress_store \<Rightarrow> ('k, 'v) suppress_store option" where
  "sub_size n s = (if n \<le> sup_byte_size s then Some (s\<lparr>sup_byte_size := sup_byte_size s - n\<rparr>) else None)"

definition remove_existing :: "bytes \<Rightarrow> ('k, 'v) suppress_store \<Rightarrow> (bytes option \<times> ('k, 'v) suppress_store) option" where
  "remove_existing kb s =
    (case sup_index s kb of
       None \<Rightarrow> Some (None, s)
     | Some slot \<Rightarrow>
        (case map_of (sup_entries s) slot of
           None \<Rightarrow> None
         | Some e \<Rightarrow> map_option (Pair (sx_new_bytes e))
             (sub_size (size_of_entry e)
               (s\<lparr>sup_index := (sup_index s)(kb := None), sup_entries := bt_remove slot (sup_entries s)\<rparr>))))"

definition insert_slot :: "int \<Rightarrow> suppress_entry \<Rightarrow> ('k, 'v) suppress_store \<Rightarrow> ('k, 'v) suppress_store" where
  "insert_slot buffer_time e s =
    (let slot = (buffer_time, sup_seq s) in
     s\<lparr>sup_seq := sup_seq s + 1, sup_index := (sup_index s)(sx_key_bytes e \<mapsto> slot),
       sup_byte_size := sup_byte_size s + size_of_entry e, sup_entries := bt_insert slot e (sup_entries s)\<rparr>)"

definition decode_entry :: "('k, 'v) suppress_store \<Rightarrow> suppress_entry \<Rightarrow> ('k \<times> 'v change \<times> int) option" where
  "decode_entry s e =
    do { k \<leftarrow> sd_de (sup_key_serde s) (sup_changelog_topic s) (sx_key_bytes e);
         old \<leftarrow> de_opt (sup_value_serde s) (sup_changelog_topic s) (sx_old_bytes e);
         new \<leftarrow> de_opt (sup_value_serde s) (sup_changelog_topic s) (sx_new_bytes e);
         Some (k, \<lparr>ch_old = old, ch_new = new\<rparr>, sx_record_ts e) }"

definition pop_slot :: "slot \<Rightarrow> ('k, 'v) suppress_store \<Rightarrow> (('k \<times> 'v change \<times> int) \<times> ('k, 'v) suppress_store) option" where
  "pop_slot slot s =
    (case map_of (sup_entries s) slot of
       None \<Rightarrow> None
     | Some e \<Rightarrow>
        do { s1 \<leftarrow> sub_size (size_of_entry e)
                   (s\<lparr>sup_entries := bt_remove slot (sup_entries s), sup_index := (sup_index s)(sx_key_bytes e := None)\<rparr>);
             let s2 = (if sup_logging s1 then s1\<lparr>sup_changelog := sup_changelog s1 @ [(sx_key_bytes e, None)]\<rparr> else s1);
             out \<leftarrow> decode_entry s2 e;
             Some (out, s2) })"

definition sup_put :: "'k \<Rightarrow> int \<Rightarrow> 'v change \<Rightarrow> suppress_record_ctx \<Rightarrow> ('k, 'v) suppress_store \<Rightarrow> ('k, 'v) suppress_store option" where
  "sup_put key buffer_time change ctx s =
    (let kb = sd_ser (sup_key_serde s) (sup_changelog_topic s) key;
         new_bytes = map_option (sd_ser (sup_value_serde s) (sup_changelog_topic s)) (ch_new change);
         old_bytes = map_option (sd_ser (sup_value_serde s) (sup_changelog_topic s)) (ch_old change)
     in do { (existing_new, s1) \<leftarrow> remove_existing kb s;
             let prior_bytes = (case existing_new of Some b \<Rightarrow> Some b | None \<Rightarrow> old_bytes);
             let s2 = insert_slot buffer_time
               \<lparr>sx_key_bytes = kb, sx_new_bytes = new_bytes, sx_old_bytes = old_bytes, sx_record_ts = sc_timestamp ctx\<rparr> s1;
             (if sup_logging s2
              then do { value \<leftarrow> serialize_buffer_change ctx prior_bytes old_bytes new_bytes buffer_time;
                        Some (s2\<lparr>sup_changelog := sup_changelog s2 @ [(kb, Some value)]\<rparr>) }
              else Some s2) })"

function evict_while :: "int \<Rightarrow> ('k, 'v) suppress_store \<Rightarrow> (('k \<times> 'v change \<times> int) list \<times> ('k, 'v) suppress_store) option" where
  "evict_while threshold s =
    (case sup_entries s of
       [] \<Rightarrow> Some ([], s)
     | (slot, _) # _ \<Rightarrow>
        if threshold < fst slot then Some ([], s)
        else (case pop_slot slot s of
                None \<Rightarrow> None
              | Some (out, s1) \<Rightarrow> map_option (map_prod (Cons out) id) (evict_while threshold s1)))"
  by pat_completeness auto

lemma pop_slot_shrinks:
  assumes "sup_entries s = (slot, e) # es" "pop_slot slot s = Some (out, s1)"
  shows "length (sup_entries s1) < length (sup_entries s)"
proof -
  have "length (filter (\<lambda>(k', _). k' \<noteq> slot) es) \<le> length es"
    by simp
  moreover have "sup_entries s1 = filter (\<lambda>(k', _). k' \<noteq> slot) es"
    using assms by (auto simp: pop_slot_def sub_size_def bt_remove_def Let_def split: if_splits bind_splits)
  ultimately show ?thesis
    using assms(1) by (simp add: less_Suc_eq_le)
qed

termination evict_while
proof (relation "measure (\<lambda>(_, s). length (sup_entries s))")
qed (use pop_slot_shrinks in \<open>fastforce+\<close>)

declare evict_while.simps [simp del]

definition evict_oldest :: "('k, 'v) suppress_store \<Rightarrow> (('k \<times> 'v change \<times> int) option \<times> ('k, 'v) suppress_store) option" where
  "evict_oldest s =
    (case sup_entries s of
       [] \<Rightarrow> Some (None, s)
     | (slot, _) # _ \<Rightarrow> map_option (map_prod Some id) (pop_slot slot s))"

definition sup_len :: "('k, 'v) suppress_store \<Rightarrow> nat" where
  "sup_len s = length (sup_entries s)"

definition sup_take_changelog :: "('k, 'v) suppress_store \<Rightarrow> (bytes \<times> bytes option) list \<times> ('k, 'v) suppress_store" where
  "sup_take_changelog s = (sup_changelog s, s\<lparr>sup_changelog := []\<rparr>)"

definition sup_apply_changelog :: "bytes \<Rightarrow> bytes option \<Rightarrow> ('k, 'v) suppress_store \<Rightarrow> ('k, 'v) suppress_store option" where
  "sup_apply_changelog key value s =
    (case value of
       Some v \<Rightarrow>
         do { d \<leftarrow> try_deserialize_buffer_change v;
              (_, s1) \<leftarrow> remove_existing key s;
              Some (insert_slot (bc_buffer_time d)
                \<lparr>sx_key_bytes = key, sx_new_bytes = bc_new d, sx_old_bytes = bc_old d, sx_record_ts = sc_timestamp (bc_ctx d)\<rparr> s1) }
     | None \<Rightarrow> map_option snd (remove_existing key s))"

definition sup_set_logging :: "bool \<Rightarrow> ('k, 'v) suppress_store \<Rightarrow> ('k, 'v) suppress_store" where
  "sup_set_logging on s = s\<lparr>sup_logging := on\<rparr>"

definition sup_clear :: "('k, 'v) suppress_store \<Rightarrow> ('k, 'v) suppress_store" where
  "sup_clear s = s\<lparr>sup_entries := [], sup_index := Map.empty, sup_seq := 0, sup_byte_size := 0, sup_changelog := []\<rparr>"

fun put_slots :: "string \<Rightarrow> bytes \<Rightarrow> (slot \<times> suppress_entry) list \<Rightarrow> bytes option" where
  "put_slots topic buffer [] = Some buffer"
| "put_slots topic buffer (((buffer_time, seq), e) # es) =
    do { b \<leftarrow> put_sized (buffer @ i64_to_be buffer_time @ to_be 8 seq) (sx_key_bytes e);
         value \<leftarrow> serialize_buffer_change \<lparr>sc_topic = topic, sc_partition = 0, sc_offset = 0, sc_timestamp = sx_record_ts e\<rparr>
           None (sx_old_bytes e) (sx_new_bytes e) buffer_time;
         b' \<leftarrow> put_sized b value;
         put_slots topic b' es }"

definition sup_snapshot :: "('k, 'v) suppress_store \<Rightarrow> bytes option" where
  "sup_snapshot s =
    (if length (sup_entries s) \<le> u32_max
     then put_slots (sup_changelog_topic s)
       (put_u32 (store_payload @ to_be 8 (sup_seq s) @ to_be 8 (sup_byte_size s)) (length (sup_entries s))) (sup_entries s)
     else None)"

text \<open>A byte total always fits \<^verbatim>\<open>usize\<close> on the 64-bit targets.\<close>

fun read_slots :: "nat \<Rightarrow> (slot, suppress_entry) btree \<Rightarrow> (bytes \<rightharpoonup> slot) \<Rightarrow> ((slot, suppress_entry) btree \<times> (bytes \<rightharpoonup> slot)) reader" where
  "read_slots 0 entries index = ok (entries, index)"
| "read_slots (Suc n) entries index =
    and_then reader_i64 (\<lambda>buffer_time. and_then reader_u64 (\<lambda>seq. and_then reader_sized (\<lambda>kb. and_then reader_sized (\<lambda>value.
      case try_deserialize_buffer_change value of
        None \<Rightarrow> (\<lambda>_. Inl (SnapshotError ''malformed suppress buffer value in snapshot''))
      | Some d \<Rightarrow> read_slots n (bt_insert (buffer_time, seq)
          \<lparr>sx_key_bytes = kb, sx_new_bytes = bc_new d, sx_old_bytes = bc_old d, sx_record_ts = sc_timestamp (bc_ctx d)\<rparr> entries)
          (index(kb \<mapsto> (buffer_time, seq)))))))"

definition sup_restore_snapshot :: "bytes \<Rightarrow> ('k, 'v) suppress_store \<Rightarrow> ('k, 'v) suppress_store result" where
  "sup_restore_snapshot data s =
    map_sum id fst (and_then reader_store_version (\<lambda>_. and_then reader_u64 (\<lambda>seq. and_then reader_u64 (\<lambda>byte_size.
      and_then reader_u32 (\<lambda>count. and_then (read_slots count [] Map.empty) (\<lambda>(entries, index). and_then reader_finish (\<lambda>_.
        ok (s\<lparr>sup_entries := entries, sup_index := index, sup_seq := seq, sup_byte_size := byte_size, sup_changelog := []\<rparr>))))))) data)"

section \<open>The codec\<close>

definition in_i32 :: "int \<Rightarrow> bool" where
  "in_i32 x \<longleftrightarrow> - 2147483648 \<le> x \<and> x \<le> 2147483647"

definition ctx_ok :: "suppress_record_ctx \<Rightarrow> bool" where
  "ctx_ok c \<longleftrightarrow> in_i64 (sc_timestamp c) \<and> in_i64 (sc_offset c) \<and> in_i32 (sc_partition c) \<and> utf8_valid (str_bytes (sc_topic c))"

lemma get_bytes_append [simp]: "length a = n \<Longrightarrow> get_bytes n (a @ b) = Some (a, b)"
  by (simp add: get_bytes_def)

lemma get_i64_append [simp]: "in_i64 x \<Longrightarrow> get_i64 (i64_to_be x @ b) = Some (x, b)"
  by (simp add: get_i64_def)

lemma get_i32_append [simp]: "in_i32 x \<Longrightarrow> get_i32 (i32_to_be x @ b) = Some (x, b)"
  by (simp add: get_i32_def in_i32_def i32_roundtrip)

lemma get_run_append [simp]: "get_run (int (length a)) (a @ b) = Some (a, b)"
  by (simp add: get_run_def)

lemma put_len_Some: "put_len n = Some l \<longleftrightarrow> int n \<le> i32_max \<and> l = i32_to_be (int n)"
  by (auto simp: put_len_def)

lemma len_in_i32 [simp]: "int n \<le> i32_max \<Longrightarrow> in_i32 (int n)" "in_i32 (-1)" "in_i32 (-2)" "in_i32 0"
  by (auto simp: in_i32_def i32_max_def)

lemma ctx_read_write:
  assumes "ctx_write c = Some b" "ctx_ok c"
  shows "ctx_read (b @ rest) = Some (c, rest)"
  using assms
  by (auto simp: ctx_write_def ctx_read_def ctx_ok_def put_len_Some bind_eq_Some_conv utf8_decode_str_bytes
      simp flip: str_bytes_length)

lemma read_add_value_add:
  assumes "add_value v = Some b"
  shows "read_add_value (b @ rest) = Some (v, rest)"
  using assms by (auto simp: add_value_def read_add_value_def put_len_Some split: option.splits)

lemma buffer_change_roundtrip:
  assumes "serialize_buffer_change ctx prior old new bt = Some b" "ctx_ok ctx" "in_i64 bt"
  shows "try_deserialize_buffer_change b = Some \<lparr>bc_ctx = ctx, bc_prior = prior, bc_old = old, bc_new = new, bc_buffer_time = bt\<rparr>"
proof -
  obtain c p ob n where parts: "ctx_write ctx = Some c" "add_value prior = Some p" "add_value new = Some n"
      "(case old of None \<Rightarrow> Some (i32_to_be (-1))
        | Some x \<Rightarrow> if prior = Some x then Some (i32_to_be (-2)) else map_option (\<lambda>l. l @ x) (put_len (length x))) = Some ob"
      "b = c @ p @ ob @ n @ i64_to_be bt"
    using assms(1) unfolding serialize_buffer_change_def by (auto simp: bind_eq_Some_conv simp del: append_assoc)
  have bt: "get_i64 (i64_to_be bt) = Some (bt, [])"
    using get_i64_append [OF assms(3), of "[]"] by simp
  show ?thesis
    using parts(4) unfolding try_deserialize_buffer_change_def parts(5)
    by (auto simp: ctx_read_write [OF parts(1) assms(2)] read_add_value_add [OF parts(2)] read_add_value_add [OF parts(3)] bt put_len_Some
        split: option.splits if_splits)
qed

section \<open>The queue\<close>

definition sup_queue :: "('k, 'v) suppress_store \<Rightarrow> (int \<times> suppress_entry) list" where
  "sup_queue s = map (\<lambda>((bt, _), e). (bt, e)) (sup_entries s)"

definition bq_del :: "bytes \<Rightarrow> (int \<times> suppress_entry) list \<Rightarrow> (int \<times> suppress_entry) list" where
  "bq_del kb Q = filter (\<lambda>(_, e). sx_key_bytes e \<noteq> kb) Q"

definition enqueue :: "int \<Rightarrow> 'e \<Rightarrow> (int \<times> 'e) list \<Rightarrow> (int \<times> 'e) list" where
  "enqueue bt e Q = takeWhile (\<lambda>(b, _). b \<le> bt) Q @ (bt, e) # dropWhile (\<lambda>(b, _). b \<le> bt) Q"

definition sup_inv :: "('k, 'v) suppress_store \<Rightarrow> bool" where
  "sup_inv s \<longleftrightarrow> bt_ok (sup_entries s) \<and> (\<forall>((_, q), _) \<in> set (sup_entries s). q < sup_seq s) \<and>
     (\<forall>kb slot. sup_index s kb = Some slot \<longleftrightarrow> (\<exists>e. (slot, e) \<in> set (sup_entries s) \<and> sx_key_bytes e = kb)) \<and>
     sup_byte_size s = sum_list (map (\<lambda>(_, e). size_of_entry e) (sup_entries s))"

lemma bt_insert_last_seq:
  assumes "bt_ok m" "\<forall>((_, q), _) \<in> set m. q < (sq :: nat)"
  shows "bt_insert (bt :: int, sq) e m =
    takeWhile (\<lambda>((b, _), _). b \<le> bt) m @ ((bt, sq), e) # dropWhile (\<lambda>((b, _), _). b \<le> bt) m"
  using assms
proof (induction m)
  case (Cons p m)
  obtain b q e' where p: "p = ((b, q), e')"
    by (metis prod.collapse)
  show ?case
    using Cons by (auto simp: p bt_ok_Cons less_prod_def)
qed simp

lemma queue_takeWhile:
  "map (\<lambda>((bt, _), e). (bt, e)) (takeWhile (\<lambda>((b, _), _). b \<le> t) m @ ((t, q), x) # dropWhile (\<lambda>((b, _), _). b \<le> t) m) =
   enqueue t x (map (\<lambda>((bt, _), e). (bt, e)) m)"
  by (induction m) (auto simp: enqueue_def)

lemma bt_remove_slot:
  assumes "bt_ok m" "(slot, e) \<in> set m" "\<forall>p \<in> set m. \<forall>p' \<in> set m. key (snd p) = key (snd p') \<longrightarrow> p = p'"
  shows "bt_remove slot m = filter (\<lambda>(_, e'). key e' \<noteq> key e) m"
  unfolding bt_remove_def
proof (rule filter_cong [OF refl])
  fix p
  assume p: "p \<in> set m"
  have "fst p = slot \<longleftrightarrow> p = (slot, e)"
    using assms(1,2) p bt_ok_map_of_iff by (metis eq_fst_iff option.inject prod.collapse)
  also have "\<dots> \<longleftrightarrow> key (snd p) = key e"
    using assms(2,3) p by fastforce
  finally show "(case p of (k', uu) \<Rightarrow> k' \<noteq> slot) \<longleftrightarrow> (case p of (uu, e') \<Rightarrow> key e' \<noteq> key e)"
    by (cases p) simp
qed

lemma sup_inv_keys:
  assumes "sup_inv s" "p \<in> set (sup_entries s)" "p' \<in> set (sup_entries s)" "sx_key_bytes (snd p) = sx_key_bytes (snd p')"
  shows "p = p'"
proof -
  have "sup_index s (sx_key_bytes (snd p)) = Some (fst p)" "sup_index s (sx_key_bytes (snd p')) = Some (fst p')"
    using assms(1-3) unfolding sup_inv_def by (metis prod.collapse)+
  then have "fst p = fst p'"
    using assms(4) by simp
  then show ?thesis
    using assms(1-3) unfolding sup_inv_def by (metis bt_ok_map_of_iff option.inject prod.collapse)
qed

lemma sum_takeWhile_insert:
  "sum_list (map (\<lambda>(_, e). f e :: nat) (takeWhile P xs @ (x, y) # dropWhile P xs)) = f y + sum_list (map (\<lambda>(_, e). f e) xs)"
proof -
  have "sum_list (map g xs) = sum_list (map g (takeWhile P xs)) + sum_list (map g (dropWhile P xs))" for g :: "_ \<Rightarrow> nat"
    by (metis map_append sum_list.append takeWhile_dropWhile_id)
  then show ?thesis
    by simp
qed

lemma sum_remove_slot:
  assumes "bt_ok m" "(slot, e) \<in> set m"
  shows "sum_list (map (\<lambda>(_, e). f e) m) = f e + sum_list (map (\<lambda>(_, e). f e :: nat) (bt_remove slot m))"
  using assms
proof (induction m)
  case (Cons p m)
  obtain sl e' where p: "p = (sl, e')"
    by (cases p)
  have "bt_remove slot m = m" if "sl = slot"
    using that Cons.prems(1) p by (intro bt_remove_absent) (auto simp: bt_ok_Cons)
  moreover have "sl \<noteq> slot" if "(slot, e) \<in> set m"
    using that Cons.prems(1) p by (force simp: bt_ok_Cons)
  ultimately show ?case
    using Cons p by (auto simp: bt_remove_def bt_ok_Cons)
qed simp

lemma sup_inv_parts:
  assumes "sup_inv s"
  shows "bt_ok (sup_entries s)" "\<And>b q e. ((b, q), e) \<in> set (sup_entries s) \<Longrightarrow> q < sup_seq s"
    "\<And>kb slot. sup_index s kb = Some slot \<longleftrightarrow> (\<exists>e. (slot, e) \<in> set (sup_entries s) \<and> sx_key_bytes e = kb)"
    "sup_byte_size s = sum_list (map (\<lambda>(_, e). size_of_entry e) (sup_entries s))"
  using assms unfolding sup_inv_def by auto

text \<open>Dropping one slot with its index entry and its size.\<close>

definition drop_slot :: "slot \<Rightarrow> suppress_entry \<Rightarrow> ('k, 'v) suppress_store \<Rightarrow> ('k, 'v) suppress_store" where
  "drop_slot slot e s =
    s\<lparr>sup_entries := bt_remove slot (sup_entries s), sup_index := (sup_index s)(sx_key_bytes e := None),
      sup_byte_size := sup_byte_size s - size_of_entry e\<rparr>"

lemma drop_slot_ok:
  assumes s: "sup_inv s" and e: "(slot, e) \<in> set (sup_entries s)"
  shows "sup_inv (drop_slot slot e s)" "size_of_entry e \<le> sup_byte_size s"
    "sup_queue (drop_slot slot e s) = bq_del (sx_key_bytes e) (sup_queue s)"
proof -
  note parts = sup_inv_parts [OF s]
  have rm: "bt_remove slot (sup_entries s) = filter (\<lambda>(_, e'). sx_key_bytes e' \<noteq> sx_key_bytes e) (sup_entries s)"
    using sup_inv_keys [OF s] by (intro bt_remove_slot [OF parts(1) e]) blast
  have sz: "sup_byte_size s = size_of_entry e + sum_list (map (\<lambda>(_, e). size_of_entry e) (bt_remove slot (sup_entries s)))"
    using sum_remove_slot [OF parts(1) e, of size_of_entry] parts(4) by simp
  then show "size_of_entry e \<le> sup_byte_size s"
    by simp
  show "sup_queue (drop_slot slot e s) = bq_del (sx_key_bytes e) (sup_queue s)"
    by (simp add: sup_queue_def drop_slot_def rm bq_del_def filter_map comp_def split_def)
  have "(sup_index s)(sx_key_bytes e := None) = (\<lambda>kb. if kb = sx_key_bytes e then None else sup_index s kb)"
    by (simp add: fun_eq_iff)
  then show "sup_inv (drop_slot slot e s)"
    unfolding sup_inv_def using parts sz by (auto simp: drop_slot_def rm)
qed

lemma remove_existing_ok:
  assumes s: "sup_inv s"
  shows "\<exists>ob s'. remove_existing kb s = Some (ob, s') \<and> sup_inv s' \<and> sup_queue s' = bq_del kb (sup_queue s) \<and> sup_index s' kb = None \<and>
    (\<forall>b. ob = Some b \<longrightarrow> (\<exists>x \<in> set (sup_queue s). sx_new_bytes (snd x) = Some b)) \<and>
    s' = s\<lparr>sup_entries := sup_entries s', sup_index := sup_index s', sup_byte_size := sup_byte_size s'\<rparr>"
proof (cases "sup_index s kb")
  case None
  then have "\<forall>(_, e) \<in> set (sup_entries s). sx_key_bytes e \<noteq> kb"
    using sup_inv_parts(3) [OF s, of kb] by (metis (mono_tags, lifting) case_prodI2 option.distinct(1))
  then have "bq_del kb (sup_queue s) = sup_queue s"
    unfolding bq_del_def by (intro filter_True) (auto simp: sup_queue_def)
  then show ?thesis
    using None s by (simp add: remove_existing_def)
next
  case (Some slot)
  then obtain e where e: "(slot, e) \<in> set (sup_entries s)" "sx_key_bytes e = kb"
    using sup_inv_parts(3) [OF s, of kb slot] by blast
  then have "map_of (sup_entries s) slot = Some e"
    using bt_ok_map_of_iff [OF sup_inv_parts(1) [OF s]] by blast
  then have "remove_existing kb s = Some (sx_new_bytes e, drop_slot slot e s)"
    using Some drop_slot_ok(2) [OF s e(1)] e(2) by (simp add: remove_existing_def sub_size_def drop_slot_def)
  moreover have "(fst slot, e) \<in> set (sup_queue s)"
    using image_eqI [of "(fst slot, e)" "\<lambda>((bt, _), e). (bt, e)" "(slot, e)"] e(1) by (simp add: sup_queue_def split_beta)
  ultimately show ?thesis
    using drop_slot_ok(1,3) [OF s e(1)] e(2) by (force simp: drop_slot_def)
qed

lemma insert_slot_ok:
  assumes s: "sup_inv s" "sup_index s (sx_key_bytes e) = None"
  shows "sup_inv (insert_slot bt e s)" "sup_queue (insert_slot bt e s) = enqueue bt e (sup_queue s)"
proof -
  note parts = sup_inv_parts [OF s(1)]
  let ?slot = "(bt, sup_seq s)"
  have ins: "bt_insert ?slot e (sup_entries s) =
      takeWhile (\<lambda>((b, _), _). b \<le> bt) (sup_entries s) @ (?slot, e) # dropWhile (\<lambda>((b, _), _). b \<le> bt) (sup_entries s)"
    using parts(1,2) by (intro bt_insert_last_seq) auto
  have ent: "sup_entries (insert_slot bt e s) = bt_insert ?slot e (sup_entries s)"
    by (simp add: insert_slot_def Let_def)
  show "sup_queue (insert_slot bt e s) = enqueue bt e (sup_queue s)"
    unfolding sup_queue_def ent ins by (rule queue_takeWhile)
  have new: "?slot \<notin> fst ` set (sup_entries s)"
    using parts(2) by fastforce
  have sets: "set (bt_insert ?slot e (sup_entries s)) = insert (?slot, e) (set (sup_entries s))"
    using new by (force simp: set_bt_insert [OF parts(1)])
  have "sum_list (map (\<lambda>(_, e). size_of_entry e) (bt_insert ?slot e (sup_entries s))) =
      size_of_entry e + sum_list (map (\<lambda>(_, e). size_of_entry e) (sup_entries s))"
    unfolding ins by (rule sum_takeWhile_insert)
  moreover have "(slot', e') \<in> set (sup_entries s) \<Longrightarrow> sx_key_bytes e' \<noteq> sx_key_bytes e" for slot' e'
    using parts(3) [of "sx_key_bytes e"] s(2) by fastforce
  ultimately show "sup_inv (insert_slot bt e s)"
    unfolding sup_inv_def using parts sets new
    by (auto simp: insert_slot_def Let_def less_Suc_eq)
qed

section \<open>Typed pending changes\<close>

text \<open>A pending change: key, change and record timestamp, ordered by buffer time in the queue.\<close>

type_synonym ('k, 'v) pending = "'k \<times> 'v change \<times> int"

definition enc_pending :: "'k serde \<Rightarrow> 'v serde \<Rightarrow> string \<Rightarrow> ('k, 'v) pending \<Rightarrow> suppress_entry" where
  "enc_pending ks vs t p =
    \<lparr>sx_key_bytes = sd_ser ks t (fst p), sx_new_bytes = map_option (sd_ser vs t) (ch_new (fst (snd p))),
     sx_old_bytes = map_option (sd_ser vs t) (ch_old (fst (snd p))), sx_record_ts = snd (snd p)\<rparr>"

definition value_ok :: "'v serde \<Rightarrow> ('v \<Rightarrow> bool) \<Rightarrow> string \<Rightarrow> 'v option \<Rightarrow> bool" where
  "value_ok vs vv t ov \<longleftrightarrow> (\<forall>v. ov = Some v \<longrightarrow> vv v \<and> int (length (sd_ser vs t v)) \<le> i32_max)"

definition pending_ok :: "('k \<Rightarrow> bool) \<Rightarrow> 'v serde \<Rightarrow> ('v \<Rightarrow> bool) \<Rightarrow> string \<Rightarrow> ('k, 'v) pending \<Rightarrow> bool" where
  "pending_ok vk vs vv t p \<longleftrightarrow> vk (fst p) \<and> value_ok vs vv t (ch_new (fst (snd p))) \<and> value_ok vs vv t (ch_old (fst (snd p)))"

definition sup_holds :: "'k serde \<Rightarrow> ('k \<Rightarrow> bool) \<Rightarrow> 'v serde \<Rightarrow> ('v \<Rightarrow> bool) \<Rightarrow> string \<Rightarrow> ('k, 'v) suppress_store \<Rightarrow> (int \<times> ('k, 'v) pending) list \<Rightarrow> bool" where
  "sup_holds ks vk vs vv t s Q \<longleftrightarrow> sup_inv s \<and> sup_key_serde s = ks \<and> sup_value_serde s = vs \<and> sup_changelog_topic s = t \<and>
     sup_queue s = map (\<lambda>(bt, p). (bt, enc_pending ks vs t p)) Q \<and> (\<forall>(bt, p) \<in> set Q. pending_ok vk vs vv t p)"

definition pend_del :: "'k \<Rightarrow> (int \<times> ('k, 'v) pending) list \<Rightarrow> (int \<times> ('k, 'v) pending) list" where
  "pend_del k Q = filter (\<lambda>(_, p). fst p \<noteq> k) Q"

definition pend_put :: "'k \<Rightarrow> int \<Rightarrow> 'v change \<Rightarrow> int \<Rightarrow> (int \<times> ('k, 'v) pending) list \<Rightarrow> (int \<times> ('k, 'v) pending) list" where
  "pend_put k bt c ts Q = enqueue bt (k, c, ts) (pend_del k Q)"

lemma enqueue_map: "enqueue bt (f e) (map (\<lambda>(b, p). (b, f p)) Q) = map (\<lambda>(b, p). (b, f p)) (enqueue bt e Q)"
proof -
  have "takeWhile (\<lambda>(b, _). b \<le> bt) (map (\<lambda>(b, p). (b, f p)) Q) = map (\<lambda>(b, p). (b, f p)) (takeWhile (\<lambda>(b, _). b \<le> bt) Q)"
    "dropWhile (\<lambda>(b, _). b \<le> bt) (map (\<lambda>(b, p). (b, f p)) Q) = map (\<lambda>(b, p). (b, f p)) (dropWhile (\<lambda>(b, _). b \<le> bt) Q)"
    by (induction Q) auto
  then show ?thesis
    by (simp add: enqueue_def)
qed

lemma bq_del_map:
  assumes "serde_contract ks vk" "vk k" "\<forall>(bt, p) \<in> set Q. pending_ok vk vs vv t p"
  shows "bq_del (sd_ser ks t k) (map (\<lambda>(bt, p). (bt, enc_pending ks vs t p)) Q) = map (\<lambda>(bt, p). (bt, enc_pending ks vs t p)) (pend_del k Q)"
  using assms(3)
proof (induction Q)
  case (Cons x Q)
  then show ?case
    using serde_contract.ser_inj [OF assms(1), of "fst (snd x)" k t] assms(2)
    by (auto simp: bq_del_def pend_del_def enc_pending_def pending_ok_def)
qed (simp add: bq_del_def pend_del_def)

lemma set_enqueue: "set (enqueue bt e Q) = insert (bt, e) (set Q)"
  unfolding enqueue_def by (metis Un_insert_right list.simps(15) set_append takeWhile_dropWhile_id)

lemma insert_pending:
  assumes S: "serde_contract ks vk" and h: "sup_holds ks vk vs vv t s1 (pend_del k Q)" and i: "sup_index s1 (sd_ser ks t k) = None"
    and p: "pending_ok vk vs vv t (k, c, ts)"
  shows "sup_holds ks vk vs vv t (insert_slot bt (enc_pending ks vs t (k, c, ts)) s1) (pend_put k bt c ts Q)"
proof -
  have s1: "sup_inv s1"
    using h by (simp add: sup_holds_def)
  have k: "sup_index s1 (sx_key_bytes (enc_pending ks vs t (k, c, ts))) = None"
    using i by (simp add: enc_pending_def)
  have "sup_key_serde (insert_slot b e s1) = sup_key_serde s1" "sup_value_serde (insert_slot b e s1) = sup_value_serde s1"
    "sup_changelog_topic (insert_slot b e s1) = sup_changelog_topic s1" for b e
    by (simp_all add: insert_slot_def Let_def)
  then show ?thesis
    using h insert_slot_ok [OF s1 k, of bt] p
    by (auto simp: sup_holds_def enqueue_map pend_put_def set_enqueue)
qed

lemma remove_pending:
  assumes S: "serde_contract ks vk" and h: "sup_holds ks vk vs vv t s Q" and k: "vk k"
  shows "\<exists>ob s1. remove_existing (sd_ser ks t k) s = Some (ob, s1) \<and> sup_holds ks vk vs vv t s1 (pend_del k Q) \<and>
    sup_index s1 (sd_ser ks t k) = None \<and> sup_logging s1 = sup_logging s \<and> sup_changelog s1 = sup_changelog s \<and>
    sup_queue s1 = bq_del (sd_ser ks t k) (sup_queue s) \<and> (\<forall>b. ob = Some b \<longrightarrow> int (length b) \<le> i32_max)"
proof -
  have s: "sup_inv s" "sup_key_serde s = ks" "sup_value_serde s = vs" "sup_changelog_topic s = t"
    "sup_queue s = map (\<lambda>(bt, p). (bt, enc_pending ks vs t p)) Q" "\<forall>(bt, p) \<in> set Q. pending_ok vk vs vv t p"
    using h by (simp_all add: sup_holds_def)
  obtain ob s1 where s1: "remove_existing (sd_ser ks t k) s = Some (ob, s1)" "sup_inv s1"
      "sup_queue s1 = bq_del (sd_ser ks t k) (sup_queue s)" "sup_index s1 (sd_ser ks t k) = None"
      and ob: "\<forall>b. ob = Some b \<longrightarrow> (\<exists>x \<in> set (sup_queue s). sx_new_bytes (snd x) = Some b)" and s1_eq: "s1 = s\<lparr>sup_entries := sup_entries s1, sup_index := sup_index s1, sup_byte_size := sup_byte_size s1\<rparr>"
    using remove_existing_ok [OF s(1)] by blast
  have "sup_key_serde s1 = ks" "sup_value_serde s1 = vs" "sup_changelog_topic s1 = t" "sup_logging s1 = sup_logging s" "sup_changelog s1 = sup_changelog s"
    by (subst s1_eq, simp add: s)+
  moreover have "\<forall>(bt, p) \<in> set (pend_del k Q). pending_ok vk vs vv t p"
    using s(6) by (auto simp: pend_del_def)
  moreover have "sup_queue s1 = map (\<lambda>(bt, p). (bt, enc_pending ks vs t p)) (pend_del k Q)"
    unfolding s1(3) s(5) by (rule bq_del_map [OF S k s(6)])
  moreover have "int (length b) \<le> i32_max" if "ob = Some b" for b
    using ob that s(5,6) by (fastforce simp: enc_pending_def pending_ok_def value_ok_def)
  ultimately show ?thesis
    using s1 by (simp add: sup_holds_def)
qed

text \<open>What the changelog says about the queue, from the queue \<open>B\<close> on.\<close>

definition bq_apply :: "bytes \<times> bytes option \<Rightarrow> (int \<times> suppress_entry) list \<Rightarrow> (int \<times> suppress_entry) list" where
  "bq_apply kv Q =
    (case snd kv of
       None \<Rightarrow> bq_del (fst kv) Q
     | Some v \<Rightarrow> (case try_deserialize_buffer_change v of
         None \<Rightarrow> Q
       | Some d \<Rightarrow> enqueue (bc_buffer_time d)
           \<lparr>sx_key_bytes = fst kv, sx_new_bytes = bc_new d, sx_old_bytes = bc_old d, sx_record_ts = sc_timestamp (bc_ctx d)\<rparr> (bq_del (fst kv) Q)))"

definition sup_logged :: "(int \<times> suppress_entry) list \<Rightarrow> ('k, 'v) suppress_store \<Rightarrow> bool" where
  "sup_logged B s \<longleftrightarrow> sup_logging s \<and> sup_queue s = fold bq_apply (sup_changelog s) B \<and>
     (\<forall>kb v. (kb, Some v) \<in> set (sup_changelog s) \<longrightarrow> try_deserialize_buffer_change v \<noteq> None)"

lemma serialize_total:
  assumes "int (length (sc_topic ctx)) \<le> i32_max" "\<forall>b. prior = Some b \<longrightarrow> int (length b) \<le> i32_max"
    "\<forall>b. old = Some b \<longrightarrow> int (length b) \<le> i32_max" "\<forall>b. new = Some b \<longrightarrow> int (length b) \<le> i32_max"
  shows "\<exists>v. serialize_buffer_change ctx prior old new bt = Some v"
  using assms by (auto simp: serialize_buffer_change_def ctx_write_def add_value_def put_len_def split: option.splits)

lemma sup_put_ok:
  assumes S: "serde_contract ks vk" and h: "sup_holds ks vk vs vv t s Q" "sup_logged B s"
    and p: "pending_ok vk vs vv t (k, c, sc_timestamp ctx)" and ctx: "ctx_ok ctx" "int (length (sc_topic ctx)) \<le> i32_max" "in_i64 bt"
  shows "\<exists>s'. sup_put k bt c ctx s = Some s' \<and> sup_holds ks vk vs vv t s' (pend_put k bt c (sc_timestamp ctx) Q) \<and> sup_logged B s'"
proof -
  have k: "vk k" and f: "sup_key_serde s = ks" "sup_value_serde s = vs" "sup_changelog_topic s = t"
    using p h(1) by (simp_all add: pending_ok_def sup_holds_def)
  let ?kb = "sd_ser ks t k" and ?new = "map_option (sd_ser vs t) (ch_new c)" and ?old = "map_option (sd_ser vs t) (ch_old c)"
  let ?e = "enc_pending ks vs t (k, c, sc_timestamp ctx)"
  obtain ob s1 where s1: "remove_existing ?kb s = Some (ob, s1)" "sup_holds ks vk vs vv t s1 (pend_del k Q)" "sup_index s1 ?kb = None"
      "sup_logging s1 = sup_logging s" "sup_changelog s1 = sup_changelog s" "sup_queue s1 = bq_del ?kb (sup_queue s)"
      "\<forall>b. ob = Some b \<longrightarrow> int (length b) \<le> i32_max"
    using remove_pending [OF S h(1) k] by blast
  define prior where "prior = (case ob of Some b \<Rightarrow> Some b | None \<Rightarrow> ?old)"
  have "\<forall>b. prior = Some b \<longrightarrow> int (length b) \<le> i32_max" "\<forall>b. ?old = Some b \<longrightarrow> int (length b) \<le> i32_max"
    "\<forall>b. ?new = Some b \<longrightarrow> int (length b) \<le> i32_max"
    using s1(7) p by (auto simp: prior_def pending_ok_def value_ok_def split: option.splits)
  then obtain v where v: "serialize_buffer_change ctx prior ?old ?new bt = Some v"
    using serialize_total [OF ctx(2)] by blast
  define s2 where "s2 = insert_slot bt ?e s1"
  have parts: "sup_logging s2 = sup_logging s" "sup_changelog s2 = sup_changelog s" "sup_queue s2 = enqueue bt ?e (bq_del ?kb (sup_queue s))"
    using s1 insert_slot_ok(2) [of s1 ?e bt] by (simp_all add: s2_def insert_slot_def Let_def sup_holds_def enc_pending_def)
  have log: "sup_logging s2"
    using parts(1) h(2) by (simp add: sup_logged_def)
  let ?s = "s2\<lparr>sup_changelog := sup_changelog s2 @ [(?kb, Some v)]\<rparr>"
  have "sup_put k bt c ctx s = Some ?s"
    using s1(1) v log by (simp add: sup_put_def f Let_def s2_def [symmetric] prior_def [symmetric] enc_pending_def)
      (simp add: s2_def enc_pending_def prior_def)
  moreover have "sup_holds ks vk vs vv t ?s (pend_put k bt c (sc_timestamp ctx) Q)"
    using insert_pending [OF S s1(2,3) p, of bt] by (simp add: sup_holds_def sup_inv_def sup_queue_def s2_def)
  moreover have "sup_logged B ?s"
    using h(2) parts log buffer_change_roundtrip [OF v ctx(1,3)]
    by (auto simp: sup_logged_def bq_apply_def enc_pending_def sup_queue_def [of "s2\<lparr>sup_changelog := _\<rparr>"] sup_queue_def [of s2, symmetric])
  ultimately show ?thesis
    by blast
qed

lemma decode_enc_pending:
  assumes "serde_contract ks vk" "serde_contract vs vv" "pending_ok vk vs vv t p"
    and "sup_key_serde s = ks" "sup_value_serde s = vs" "sup_changelog_topic s = t"
  shows "decode_entry s (enc_pending ks vs t p) = Some p"
proof -
  have "de_opt vs t (map_option (sd_ser vs t) ov) = Some ov" if "value_ok vs vv t ov" for ov
    using that serde_contract.roundtrip [OF assms(2)] by (cases ov) (auto simp: de_opt_def value_ok_def)
  then show ?thesis
    using assms serde_contract.roundtrip [OF assms(1), of "fst p" t]
    by (cases p) (auto simp: decode_entry_def enc_pending_def pending_ok_def)
qed

lemma pop_head:
  assumes S: "serde_contract ks vk" "serde_contract vs vv" and h: "sup_holds ks vk vs vv t s ((bt, p) # Q)" "sup_logged B s"
  shows "\<exists>slot e es s'. sup_entries s = (slot, e) # es \<and> fst slot = bt \<and> pop_slot slot s = Some (p, s') \<and>
    sup_holds ks vk vs vv t s' Q \<and> sup_logged B s'"
proof -
  have s: "sup_inv s" "sup_key_serde s = ks" "sup_value_serde s = vs" "sup_changelog_topic s = t"
    "sup_queue s = (bt, enc_pending ks vs t p) # map (\<lambda>(bt, p). (bt, enc_pending ks vs t p)) Q"
    and ok: "pending_ok vk vs vv t p" "\<forall>(bt, p) \<in> set Q. pending_ok vk vs vv t p"
    using h(1) by (simp_all add: sup_holds_def)
  obtain slot e es where ent: "sup_entries s = (slot, e) # es" "fst slot = bt" "e = enc_pending ks vs t p"
      "map (\<lambda>((bt, _), e). (bt, e)) es = map (\<lambda>(bt, p). (bt, enc_pending ks vs t p)) Q"
    using s(5) by (cases "sup_entries s") (auto simp: sup_queue_def)
  let ?s = "drop_slot slot e s"
  have "(slot, e) \<in> set (sup_entries s)"
    using ent(1) by simp
  note drop = drop_slot_ok [OF s(1) this]
  have "slot \<notin> fst ` set es"
    using sup_inv_parts(1) [OF s(1)] ent(1) by (auto simp: bt_ok_Cons)
  then have "bt_remove slot (sup_entries s) = es"
    using ent(1) bt_remove_absent [of slot es] by (simp add: bt_remove_def)
  then have q: "sup_queue ?s = map (\<lambda>(bt, p). (bt, enc_pending ks vs t p)) Q"
    using ent(4) by (simp add: drop_slot_def sup_queue_def)
  have parts: "sup_key_serde ?s = ks" "sup_value_serde ?s = vs" "sup_changelog_topic ?s = t" "sup_logging ?s" "sup_changelog ?s = sup_changelog s"
    using s h(2) by (simp_all add: drop_slot_def sup_logged_def)
  let ?s' = "?s\<lparr>sup_changelog := sup_changelog s @ [(sx_key_bytes e, None)]\<rparr>"
  have "decode_entry ?s' e = Some p"
    using decode_enc_pending [OF S ok(1)] parts ent(3) by simp
  then have "pop_slot slot s = Some (p, ?s')"
    using drop(2) parts ent(1) by (simp add: pop_slot_def sub_size_def drop_slot_def)
  moreover have "sup_holds ks vk vs vv t ?s' Q"
    using drop(1) parts q ok(2) by (simp add: sup_holds_def sup_inv_def sup_queue_def)
  moreover have "sup_logged B ?s'"
    using h(2) parts drop(3) by (auto simp: sup_logged_def bq_apply_def sup_queue_def)
  ultimately show ?thesis
    using ent(1,2) by blast
qed

lemma evict_while_ok:
  assumes S: "serde_contract ks vk" "serde_contract vs vv"
  shows "sup_holds ks vk vs vv t s Q \<Longrightarrow> sup_logged B s \<Longrightarrow>
    \<exists>s'. evict_while th s = Some (map snd (takeWhile (\<lambda>(bt, _). bt \<le> th) Q), s') \<and>
      sup_holds ks vk vs vv t s' (dropWhile (\<lambda>(bt, _). bt \<le> th) Q) \<and> sup_logged B s'"
proof (induction Q arbitrary: s)
  case Nil
  then have "sup_entries s = []"
    by (simp add: sup_holds_def sup_queue_def)
  then show ?case
    using Nil by (simp add: evict_while.simps)
next
  case (Cons x Q)
  obtain bt p where x: "x = (bt, p)"
    by (cases x)
  obtain slot e es s' where pop: "sup_entries s = (slot, e) # es" "fst slot = bt" "pop_slot slot s = Some (p, s')"
      "sup_holds ks vk vs vv t s' Q" "sup_logged B s'"
    using pop_head [OF S Cons.prems [unfolded x]] by blast
  show ?case
    using pop Cons.IH [OF pop(4,5)] Cons.prems by (auto simp: evict_while.simps [of th s] x)
qed

lemma evict_oldest_ok:
  assumes S: "serde_contract ks vk" "serde_contract vs vv" and h: "sup_holds ks vk vs vv t s Q" "sup_logged B s"
  shows "\<exists>s'. evict_oldest s = Some (case Q of [] \<Rightarrow> None | (_, p) # _ \<Rightarrow> Some p, s') \<and> sup_holds ks vk vs vv t s' (tl Q) \<and> sup_logged B s'"
proof (cases Q)
  case Nil
  then have "sup_entries s = []"
    using h by (simp add: sup_holds_def sup_queue_def)
  then show ?thesis
    using Nil h by (simp add: evict_oldest_def)
next
  case (Cons x Q')
  then show ?thesis
    using pop_head [OF S, of t s "fst x" "snd x" Q' B] h by (auto simp: evict_oldest_def split: prod.splits)
qed

section \<open>Recovery\<close>

fun sup_replay :: "(bytes \<times> bytes option) list \<Rightarrow> ('k, 'v) suppress_store \<Rightarrow> ('k, 'v) suppress_store option" where
  "sup_replay [] s = Some s"
| "sup_replay ((k, v) # log) s = Option.bind (sup_apply_changelog k v s) (sup_replay log)"

text \<open>The same identity and serdes.\<close>

definition same_config :: "('k, 'v) suppress_store \<Rightarrow> ('k, 'v) suppress_store \<Rightarrow> bool" where
  "same_config s s' \<longleftrightarrow> sup_key_serde s' = sup_key_serde s \<and> sup_value_serde s' = sup_value_serde s \<and> sup_changelog_topic s' = sup_changelog_topic s \<and>
     sup_logging s' = sup_logging s"

lemma sup_apply_ok:
  assumes s: "sup_inv s" and v: "\<forall>b. v = Some b \<longrightarrow> try_deserialize_buffer_change b \<noteq> None"
  shows "\<exists>s'. sup_apply_changelog kb v s = Some s' \<and> sup_inv s' \<and> sup_queue s' = bq_apply (kb, v) (sup_queue s) \<and> same_config s s'"
proof -
  obtain ob s1 where s1: "remove_existing kb s = Some (ob, s1)" "sup_inv s1" "sup_queue s1 = bq_del kb (sup_queue s)" "sup_index s1 kb = None"
    and eq: "s1 = s\<lparr>sup_entries := sup_entries s1, sup_index := sup_index s1, sup_byte_size := sup_byte_size s1\<rparr>"
    using remove_existing_ok [OF s] by blast
  have cfg: "same_config s s1"
    unfolding same_config_def by (intro conjI; subst eq; simp)
  show ?thesis
  proof (cases v)
    case None
    then show ?thesis
      using s1 cfg by (simp add: sup_apply_changelog_def bq_apply_def)
  next
    case (Some b)
    then obtain d where d: "try_deserialize_buffer_change b = Some d"
      using v by blast
    let ?e = "\<lparr>sx_key_bytes = kb, sx_new_bytes = bc_new d, sx_old_bytes = bc_old d, sx_record_ts = sc_timestamp (bc_ctx d)\<rparr>"
    have "same_config s (insert_slot (bc_buffer_time d) ?e s1)"
      using cfg by (simp add: same_config_def insert_slot_def Let_def)
    then show ?thesis
      using insert_slot_ok [of s1 ?e "bc_buffer_time d"] s1 d Some by (simp add: sup_apply_changelog_def bq_apply_def)
  qed
qed

lemma sup_replay_ok:
  assumes "\<forall>kb v. (kb, Some v) \<in> set log \<longrightarrow> try_deserialize_buffer_change v \<noteq> None" "sup_inv s"
  shows "\<exists>s'. sup_replay log s = Some s' \<and> sup_inv s' \<and> sup_queue s' = fold bq_apply log (sup_queue s) \<and> same_config s s'"
  using assms
proof (induction log arbitrary: s)
  case (Cons kv log)
  obtain kb v where kv: "kv = (kb, v)"
    by (cases kv)
  obtain s1 where s1: "sup_apply_changelog kb v s = Some s1" "sup_inv s1" "sup_queue s1 = bq_apply (kb, v) (sup_queue s)" "same_config s s1"
    using sup_apply_ok [OF Cons.prems(2), of v kb] Cons.prems(1) kv by auto
  obtain s' where "sup_replay log s1 = Some s'" "sup_inv s'" "sup_queue s' = fold bq_apply log (sup_queue s1)" "same_config s1 s'"
    using Cons.IH [OF _ s1(2)] Cons.prems(1) by auto
  then show ?case
    using s1 kv by (auto simp: same_config_def)
qed (simp add: same_config_def)

text \<open>Snapshots carry the slots themselves.\<close>

definition slot_bytes :: "string \<Rightarrow> slot \<times> suppress_entry \<Rightarrow> bytes" where
  "slot_bytes topic x =
    i64_to_be (fst (fst x)) @ to_be 8 (snd (fst x)) @ sized_bytes (sx_key_bytes (snd x)) @
    sized_bytes (the (serialize_buffer_change \<lparr>sc_topic = topic, sc_partition = 0, sc_offset = 0, sc_timestamp = sx_record_ts (snd x)\<rparr>
      None (sx_old_bytes (snd x)) (sx_new_bytes (snd x)) (fst (fst x))))"

definition slot_ok :: "slot \<times> suppress_entry \<Rightarrow> bool" where
  "slot_ok x \<longleftrightarrow> in_i64 (fst (fst x)) \<and> snd (fst x) < 18446744073709551616 \<and> in_i64 (sx_record_ts (snd x))"

lemma entry_eta:
  "\<lparr>sx_key_bytes = sx_key_bytes e, sx_new_bytes = sx_new_bytes e, sx_old_bytes = sx_old_bytes e, sx_record_ts = sx_record_ts e\<rparr> = e"
  by simp

lemma put_slots_bytes:
  "put_slots topic b es = Some b' \<Longrightarrow>
    b' = b @ concat (map (slot_bytes topic) es) \<and>
    (\<forall>x \<in> set es. length (sx_key_bytes (snd x)) \<le> u32_max \<and>
      (\<exists>v. serialize_buffer_change \<lparr>sc_topic = topic, sc_partition = 0, sc_offset = 0, sc_timestamp = sx_record_ts (snd x)\<rparr>
        None (sx_old_bytes (snd x)) (sx_new_bytes (snd x)) (fst (fst x)) = Some v \<and> length v \<le> u32_max))"
proof (induction topic b es rule: put_slots.induct)
  case (2 topic buffer bt sq e es)
  then obtain b1 v b2 where "put_sized (buffer @ i64_to_be bt @ to_be 8 sq) (sx_key_bytes e) = Some b1"
      "serialize_buffer_change \<lparr>sc_topic = topic, sc_partition = 0, sc_offset = 0, sc_timestamp = sx_record_ts e\<rparr>
        None (sx_old_bytes e) (sx_new_bytes e) bt = Some v" "put_sized b1 v = Some b2" "put_slots topic b2 es = Some b'"
    by (auto simp: bind_eq_Some_conv simp del: to_be.simps)
  then show ?case
    using 2 by (auto simp: put_sized_Some slot_bytes_def simp del: to_be.simps)
qed (simp del: to_be.simps)

lemma reads_read_slots:
  assumes "\<forall>x \<in> set es. slot_ok x \<and> length (sx_key_bytes (snd x)) \<le> u32_max \<and>
      (\<exists>v. serialize_buffer_change \<lparr>sc_topic = topic, sc_partition = 0, sc_offset = 0, sc_timestamp = sx_record_ts (snd x)\<rparr>
        None (sx_old_bytes (snd x)) (sx_new_bytes (snd x)) (fst (fst x)) = Some v \<and> length v \<le> u32_max)"
    and "utf8_valid (str_bytes topic)"
  shows "reads (read_slots (length es) entries index) (concat (map (slot_bytes topic) es))
    (foldl (\<lambda>m (k, v). bt_insert k v m) entries es, foldl (\<lambda>ix (slot, e). ix(sx_key_bytes e \<mapsto> slot)) index es)"
  using assms(1)
proof (induction es arbitrary: entries index)
  case (Cons x es)
  obtain bt sq e where x: "x = ((bt, sq), e)"
    by (metis prod.collapse)
  obtain v where v: "serialize_buffer_change \<lparr>sc_topic = topic, sc_partition = 0, sc_offset = 0, sc_timestamp = sx_record_ts e\<rparr>
        None (sx_old_bytes e) (sx_new_bytes e) bt = Some v" "length v \<le> u32_max"
    using Cons.prems x by auto
  have ok: "in_i64 bt" "sq < 18446744073709551616" "in_i64 (sx_record_ts e)" "length (sx_key_bytes e) \<le> u32_max"
    using Cons.prems x by (auto simp: slot_ok_def)
  have d: "try_deserialize_buffer_change v = Some \<lparr>bc_ctx = \<lparr>sc_topic = topic, sc_partition = 0, sc_offset = 0, sc_timestamp = sx_record_ts e\<rparr>,
      bc_prior = None, bc_old = sx_old_bytes e, bc_new = sx_new_bytes e, bc_buffer_time = bt\<rparr>"
    using ok(3) assms(2) by (intro buffer_change_roundtrip [OF v(1) _ ok(1)]) (simp add: ctx_ok_def in_i64_def)
  have IH: "reads (read_slots (length es) (bt_insert (bt, sq) e entries) (index(sx_key_bytes e \<mapsto> (bt, sq)))) (concat (map (slot_bytes topic) es))
      (foldl (\<lambda>m (k, v). bt_insert k v m) (bt_insert (bt, sq) e entries) es,
       foldl (\<lambda>ix (slot, e). ix(sx_key_bytes e \<mapsto> slot)) (index(sx_key_bytes e \<mapsto> (bt, sq))) es)"
    by (rule Cons.IH) (use Cons.prems in auto)
  have "reads (read_slots (Suc (length es)) entries index)
      (i64_to_be bt @ (to_be 8 sq @ (sized_bytes (sx_key_bytes e) @ (sized_bytes v @ concat (map (slot_bytes topic) es)))))
      (foldl (\<lambda>m (k, v). bt_insert k v m) (bt_insert (bt, sq) e entries) es,
       foldl (\<lambda>ix (slot, e). ix(sx_key_bytes e \<mapsto> slot)) (index(sx_key_bytes e \<mapsto> (bt, sq))) es)"
    unfolding read_slots.simps using IH
    by (intro reads_and_then [OF reads_i64 [OF ok(1)]] reads_and_then [OF reads_u64 [OF ok(2)]]
        reads_and_then [OF reads_sized_bytes [OF ok(4)]] reads_and_then [OF reads_sized_bytes [OF v(2)]]) (simp add: d entry_eta)
  moreover have "slot_bytes topic x = i64_to_be bt @ to_be 8 sq @ sized_bytes (sx_key_bytes e) @ sized_bytes v"
    using v(1) by (simp add: x slot_bytes_def del: to_be.simps)
  then have c: "concat (map (slot_bytes topic) (x # es)) =
      i64_to_be bt @ (to_be 8 sq @ (sized_bytes (sx_key_bytes e) @ (sized_bytes v @ concat (map (slot_bytes topic) es))))"
    by (simp del: to_be.simps)
  ultimately show ?case
    unfolding c by (simp add: x del: to_be.simps read_slots.simps fun_upd_apply)
qed (simp add: reads_ok)

lemma index_of_entries:
  assumes "\<forall>p \<in> set es. \<forall>p' \<in> set es. sx_key_bytes (snd p) = sx_key_bytes (snd p') \<longrightarrow> p = p'"
  shows "foldl (\<lambda>ix (slot, e). ix(sx_key_bytes e \<mapsto> slot)) Map.empty es kb = Some slot \<longleftrightarrow> (\<exists>e. (slot, e) \<in> set es \<and> sx_key_bytes e = kb)"
  using assms
proof (induction es arbitrary: slot rule: rev_induct)
  case (snoc p es)
  obtain sl e where p: "p = (sl, e)"
    by (cases p)
  have "\<forall>p \<in> set es. \<forall>p' \<in> set es. sx_key_bytes (snd p) = sx_key_bytes (snd p') \<longrightarrow> p = p'"
    using snoc.prems by simp
  note IH = snoc.IH [OF this]
  show ?case
  proof (cases "sx_key_bytes e = kb")
    case True
    have same: "(slot', e') = p" if "(slot', e') \<in> set es" "sx_key_bytes e' = kb" for slot' e'
    proof -
      have "(slot', e') \<in> set (es @ [p])" "p \<in> set (es @ [p])"
        using that(1) by simp_all
      moreover have "sx_key_bytes (snd (slot', e')) = sx_key_bytes (snd p)"
        using that(2) True p by simp
      ultimately show ?thesis
        using snoc.prems by blast
    qed
    show ?thesis
      using True p same by fastforce
  next
    case False
    then show ?thesis
      using IH p by auto
  qed
qed simp

lemma sup_snapshot_ok:
  assumes s: "sup_inv s" "\<forall>x \<in> set (sup_entries s). slot_ok x" "sup_seq s < 18446744073709551616" "sup_byte_size s < 18446744073709551616"
      "utf8_valid (str_bytes (sup_changelog_topic s))"
    and data: "sup_snapshot s = Some data"
  shows "sup_restore_snapshot data s0 = Inr (s0\<lparr>sup_entries := sup_entries s, sup_index := sup_index s, sup_seq := sup_seq s,
    sup_byte_size := sup_byte_size s, sup_changelog := []\<rparr>)"
proof -
  let ?topic = "sup_changelog_topic s" and ?es = "sup_entries s"
  have len: "length ?es \<le> u32_max" and put: "put_slots ?topic (put_u32 (store_payload @ to_be 8 (sup_seq s) @ to_be 8 (sup_byte_size s)) (length ?es)) ?es = Some data"
    using data by (auto simp: sup_snapshot_def split: if_splits)
  note put = put_slots_bytes [OF put]
  define index where "index = foldl (\<lambda>ix (slot, e). ix(sx_key_bytes e \<mapsto> slot)) Map.empty ?es"
  have "foldl (\<lambda>m (k, v). bt_insert k v m) [] ?es = ?es"
    using bt_of_list_id [OF sup_inv_parts(1) [OF s(1)]] by (simp add: bt_of_list_def)
  then have slots: "reads (read_slots (length ?es) [] Map.empty) (concat (map (slot_bytes ?topic) ?es)) (?es, index)"
    using reads_read_slots [of ?es ?topic "[]" Map.empty] put s(2,5) by (simp add: index_def)
  have data: "data = store_payload @ to_be 8 (sup_seq s) @ to_be 8 (sup_byte_size s) @ u32_to_be (length ?es) @ concat (map (slot_bytes ?topic) ?es)"
    using put by (simp add: put_u32_def)
  let ?s = "s0\<lparr>sup_entries := ?es, sup_index := index, sup_seq := sup_seq s, sup_byte_size := sup_byte_size s, sup_changelog := []\<rparr>"
  have "sup_restore_snapshot data s0 = Inr ?s"
    unfolding sup_restore_snapshot_def data
    using reads_append [OF reads_store_version] reads_append [OF reads_u64 [OF s(3)]] reads_append [OF reads_u64 [OF s(4)]]
      reads_append [OF reads_u32 [OF len]] reads_exact [OF slots]
    by (simp add: and_then_def reader_finish_def ok_def del: to_be.simps)
  moreover have "index = sup_index s"
  proof
    fix kb
    have "index kb = Some slot \<longleftrightarrow> sup_index s kb = Some slot" for slot
      using index_of_entries [of ?es kb slot] sup_inv_keys [OF s(1)] sup_inv_parts(3) [OF s(1), of kb slot] by (auto simp: index_def)
    then show "index kb = sup_index s kb"
      by (metis option.exhaust)
  qed
  ultimately show ?thesis
    by simp
qed

section \<open>Histories\<close>

datatype ('k, 'v) sup_op =
    Sup_Put 'k int "'v change" suppress_record_ctx
  | Sup_Evict int
  | Sup_Evict_Oldest

fun sup_step :: "('k, 'v) sup_op \<Rightarrow> ('k, 'v) suppress_store \<Rightarrow> (('k, 'v) pending list \<times> ('k, 'v) suppress_store) option" where
  "sup_step (Sup_Put k bt c ctx) s = map_option (Pair []) (sup_put k bt c ctx s)"
| "sup_step (Sup_Evict th) s = evict_while th s"
| "sup_step Sup_Evict_Oldest s = map_option (map_prod (\<lambda>p. case p of None \<Rightarrow> [] | Some x \<Rightarrow> [x]) id) (evict_oldest s)"

fun sup_run :: "('k, 'v) sup_op list \<Rightarrow> ('k, 'v) suppress_store \<Rightarrow> (('k, 'v) pending list list \<times> ('k, 'v) suppress_store) option" where
  "sup_run [] s = Some ([], s)"
| "sup_run (op # ops) s =
    Option.bind (sup_step op s) (\<lambda>(out, s1). map_option (map_prod (Cons out) id) (sup_run ops s1))"

fun pend_step :: "('k, 'v) sup_op \<Rightarrow> (int \<times> ('k, 'v) pending) list \<Rightarrow> ('k, 'v) pending list \<times> (int \<times> ('k, 'v) pending) list" where
  "pend_step (Sup_Put k bt c ctx) Q = ([], pend_put k bt c (sc_timestamp ctx) Q)"
| "pend_step (Sup_Evict th) Q = (map snd (takeWhile (\<lambda>(bt, _). bt \<le> th) Q), dropWhile (\<lambda>(bt, _). bt \<le> th) Q)"
| "pend_step Sup_Evict_Oldest Q = (map snd (take 1 Q), tl Q)"

fun pend_run :: "('k, 'v) sup_op list \<Rightarrow> (int \<times> ('k, 'v) pending) list \<Rightarrow> ('k, 'v) pending list list \<times> (int \<times> ('k, 'v) pending) list" where
  "pend_run [] Q = ([], Q)"
| "pend_run (op # ops) Q = (let (out, Q1) = pend_step op Q; (outs, Q2) = pend_run ops Q1 in (out # outs, Q2))"

fun sup_op_ok :: "('k \<Rightarrow> bool) \<Rightarrow> 'v serde \<Rightarrow> ('v \<Rightarrow> bool) \<Rightarrow> string \<Rightarrow> ('k, 'v) sup_op \<Rightarrow> bool" where
  "sup_op_ok vk vs vv t (Sup_Put k bt c ctx) \<longleftrightarrow>
     pending_ok vk vs vv t (k, c, sc_timestamp ctx) \<and> ctx_ok ctx \<and> int (length (sc_topic ctx)) \<le> i32_max \<and> in_i64 bt"
| "sup_op_ok vk vs vv t _ \<longleftrightarrow> True"

lemma sup_step_ok:
  assumes S: "serde_contract ks vk" "serde_contract vs vv" and h: "sup_holds ks vk vs vv t s Q" "sup_logged B s"
    and op: "sup_op_ok vk vs vv t op"
  shows "\<exists>s'. sup_step op s = Some (fst (pend_step op Q), s') \<and> sup_holds ks vk vs vv t s' (snd (pend_step op Q)) \<and> sup_logged B s'"
proof (cases op)
  case (Sup_Put k bt c ctx)
  then show ?thesis
    using sup_put_ok [OF S(1) h, of k c ctx bt] op by auto
next
  case (Sup_Evict th)
  then show ?thesis
    using evict_while_ok [OF S h, of th] by auto
next
  case Sup_Evict_Oldest
  then show ?thesis
    using evict_oldest_ok [OF S h] by (cases Q) (auto split: prod.splits)
qed

lemma sup_run_ok:
  assumes S: "serde_contract ks vk" "serde_contract vs vv"
  shows "sup_holds ks vk vs vv t s Q \<Longrightarrow> sup_logged B s \<Longrightarrow> \<forall>op \<in> set ops. sup_op_ok vk vs vv t op \<Longrightarrow>
    \<exists>s'. sup_run ops s = Some (fst (pend_run ops Q), s') \<and> sup_holds ks vk vs vv t s' (snd (pend_run ops Q)) \<and> sup_logged B s'"
proof (induction ops arbitrary: s Q)
  case (Cons op ops)
  obtain s1 where s1: "sup_step op s = Some (fst (pend_step op Q), s1)" "sup_holds ks vk vs vv t s1 (snd (pend_step op Q))" "sup_logged B s1"
    using sup_step_ok [OF S Cons.prems(1,2), of op] Cons.prems(3) by auto
  show ?case
    using s1(1) Cons.IH [OF s1(2,3)] Cons.prems(3) by (auto simp: split_beta Let_def)
qed simp

lemma sup_new_ok: "sup_holds ks vk vs vv t (sup_new name ks vs t) []" "sup_logged [] (sup_new name ks vs t)"
  by (simp_all add: sup_holds_def sup_logged_def sup_new_def sup_inv_def sup_queue_def)

lemma sup_holds_size:
  assumes "sup_holds ks vk vs vv t s Q"
  shows "sup_len s = length Q" "sup_byte_size s = sum_list (map (\<lambda>(_, p). size_of_entry (enc_pending ks vs t p)) Q)"
proof -
  have q: "sup_queue s = map (\<lambda>(bt, p). (bt, enc_pending ks vs t p)) Q" and s: "sup_inv s"
    using assms by (simp_all add: sup_holds_def)
  have "length (sup_queue s) = length Q"
    unfolding q by simp
  then show "sup_len s = length Q"
    by (simp add: sup_len_def sup_queue_def)
  have "sup_byte_size s = sum_list (map (\<lambda>(_, e). size_of_entry e) (sup_queue s))"
    using sup_inv_parts(4) [OF s] by (simp add: sup_queue_def comp_def split_def)
  then show "sup_byte_size s = sum_list (map (\<lambda>(_, p). size_of_entry (enc_pending ks vs t p)) Q)"
    unfolding q by (simp add: comp_def split_def)
qed

lemma set_tl: "set (tl xs) \<subseteq> set xs"
  by (cases xs) auto

lemma pend_run_slots:
  assumes "\<forall>(bt, k, c, ts) \<in> set Q. in_i64 bt \<and> in_i64 ts" "\<forall>op \<in> set ops. sup_op_ok vk vs vv t op"
  shows "\<forall>(bt, k, c, ts) \<in> set (snd (pend_run ops Q)). in_i64 bt \<and> in_i64 ts"
  using assms
proof (induction ops arbitrary: Q)
  case (Cons op ops)
  have "\<forall>(bt, k, c, ts) \<in> set (snd (pend_step op Q)). in_i64 bt \<and> in_i64 ts"
    using Cons.prems set_tl [of Q]
    by (cases op) (auto simp: pend_put_def set_enqueue pend_del_def ctx_ok_def dest: set_dropWhileD)
  then show ?case
    using Cons.IH [of "snd (pend_step op Q)"] Cons.prems(2) by (auto simp: split_beta Let_def)
qed simp

section \<open>Properties\<close>

text \<open>C22: The suppression buffer is a stable priority queue.  Over every sequence of puts and evictions on a fresh buffer no
  operation panics, every eviction returns exactly what the queue specification returns, in order of buffer time
  and within it of arrival, with a newer change of a key replacing the pending one; the record count and the byte
  total that the caps are checked against are those of the queue.\<close>

theorem suppress_store_refines_queue:
  assumes "serde_contract ks vk" "serde_contract vs vv" "\<forall>op \<in> set ops. sup_op_ok vk vs vv topic op"
  shows "\<exists>s. sup_run ops (sup_new name ks vs topic) = Some (fst (pend_run ops []), s) \<and>
    sup_len s = length (snd (pend_run ops [])) \<and>
    sup_byte_size s = sum_list (map (\<lambda>(_, p). size_of_entry (enc_pending ks vs topic p)) (snd (pend_run ops [])))"
  using sup_run_ok [OF assms(1,2) sup_new_ok assms(3), of name] sup_holds_size by blast

definition sample_ctx :: "int \<Rightarrow> suppress_record_ctx" where
  "sample_ctx ts = \<lparr>sc_topic = ''in'', sc_partition = 0, sc_offset = 0, sc_timestamp = ts\<rparr>"

definition sup_sample_ops :: "(string, int) sup_op list" where
  "sup_sample_ops = [Sup_Put ''a'' 20 \<lparr>ch_old = None, ch_new = Some 1\<rparr> (sample_ctx 5), Sup_Put ''b'' 10 \<lparr>ch_old = None, ch_new = Some 7\<rparr> (sample_ctx 6),
     Sup_Put ''a'' 20 \<lparr>ch_old = Some 1, ch_new = Some 2\<rparr> (sample_ctx 8), Sup_Evict 15]"

lemma sup_sample_ops_ok: "\<forall>op \<in> set sup_sample_ops. sup_op_ok (\<lambda>s. utf8_valid (str_bytes s)) I64Serde in_i64 ''t'' op"
  by (simp add: sup_sample_ops_def sample_ctx_def pending_ok_def value_ok_def ctx_ok_def in_i64_def in_i32_def I64Serde_def i32_max_def str_bytes_def)

lemma sup_sample_run:
  "pend_run sup_sample_ops [] = ([[], [], [], [(''b'', \<lparr>ch_old = None, ch_new = Some 7\<rparr>, 6)]], [(20, ''a'', \<lparr>ch_old = Some 1, ch_new = Some 2\<rparr>, 8)])"
  by (simp add: sup_sample_ops_def sample_ctx_def pend_put_def pend_del_def enqueue_def)

lemma suppress_store_refines_queue_witness:
  "\<exists>s. sup_run sup_sample_ops (sup_new ''sup'' StringSerde I64Serde ''t'') =
      Some ([[], [], [], [(''b'', \<lparr>ch_old = None, ch_new = Some 7\<rparr>, 6)]], s) \<and> sup_len s = 1"
  using suppress_store_refines_queue [OF string_serde.serde_contract_axioms i64_serde.serde_contract_axioms sup_sample_ops_ok, of "''sup''"]
  by (auto simp: sup_sample_run)

text \<open>A recovered buffer continues as the original: over every further history both return the same evictions, and
  their totals agree.\<close>

definition continues_as :: "('k \<Rightarrow> bool) \<Rightarrow> ('v \<Rightarrow> bool) \<Rightarrow> ('k, 'v) suppress_store \<Rightarrow> ('k, 'v) suppress_store \<Rightarrow> bool" where
  "continues_as vk vv s r \<longleftrightarrow>
     (\<forall>more. (\<forall>op \<in> set more. sup_op_ok vk (sup_value_serde s) vv (sup_changelog_topic s) op) \<longrightarrow>
        (\<exists>outs s2 r2. sup_run more s = Some (outs, s2) \<and> sup_run more r = Some (outs, r2) \<and>
           sup_len r2 = sup_len s2 \<and> sup_byte_size r2 = sup_byte_size s2))"

lemma same_queue_continues:
  assumes S: "serde_contract ks vk" "serde_contract vs vv" and h: "sup_holds ks vk vs vv t s Q" "sup_logged B s"
    and r: "sup_inv r" "sup_queue r = sup_queue s" "same_config (sup_new name ks vs t) r" "sup_changelog r = []"
  shows "continues_as vk vv s r"
proof -
  have r': "sup_holds ks vk vs vv t r Q" "sup_logged (sup_queue r) r"
    using h(1) r by (simp_all add: sup_holds_def same_config_def sup_new_def sup_logged_def)
  have "\<exists>outs s2 r2. sup_run more s = Some (outs, s2) \<and> sup_run more r = Some (outs, r2) \<and> sup_len r2 = sup_len s2 \<and> sup_byte_size r2 = sup_byte_size s2"
    if more: "\<forall>op \<in> set more. sup_op_ok vk vs vv t op" for more
    using sup_run_ok [OF S h more] sup_run_ok [OF S r' more] sup_holds_size [of ks vk vs vv t _ "snd (pend_run more Q)"] by auto
  then show ?thesis
    using h(1) by (simp add: continues_as_def sup_holds_def)
qed

lemma sup_replay_changelog: "sup_replay log s = Some s' \<Longrightarrow> sup_changelog s' = sup_changelog s"
proof (induction log arbitrary: s)
  case (Cons kv log)
  have "sup_changelog s1 = sup_changelog s" if "sup_apply_changelog kb v s = Some s1" for kb v s1
    using that
    by (auto simp: sup_apply_changelog_def remove_existing_def sub_size_def insert_slot_def Let_def
        split: option.splits if_splits bind_splits)
  then show ?case
    using Cons by (cases kv) (auto simp: bind_eq_Some_conv)
qed simp

text \<open>C23: The suppression buffer survives a restart.  After every sequence of operations, replaying the changelog the buffer
  has written into a fresh buffer gives one that continues as the original: over every further sequence of puts and
  evictions it returns the same changes in the same order, with the same record and byte totals.  Restoring its
  snapshot, into any buffer of the same configuration whatever it held, gives one that continues as the original too,
  and brings back the slots, the key index, the sequence counter and the byte total as they were.\<close>

theorem suppress_store_recovers:
  assumes S: "serde_contract ks vk" "serde_contract vs vv" and ops: "\<forall>op \<in> set ops. sup_op_ok vk vs vv topic op"
    and topic: "utf8_valid (str_bytes topic)"
  shows "\<exists>outs s r. sup_run ops (sup_new name ks vs topic) = Some (outs, s) \<and>
    sup_replay (sup_changelog s) (sup_new name ks vs topic) = Some r \<and> continues_as vk vv s r \<and>
    (\<forall>data s0. sup_snapshot s = Some data \<and> sup_seq s < 18446744073709551616 \<and> sup_byte_size s < 18446744073709551616 \<and>
       same_config (sup_new name ks vs topic) s0 \<longrightarrow>
       (\<exists>r'. sup_restore_snapshot data s0 = Inr r' \<and> continues_as vk vv s r' \<and> sup_entries r' = sup_entries s \<and>
          sup_index r' = sup_index s \<and> sup_seq r' = sup_seq s \<and> sup_byte_size r' = sup_byte_size s))"
proof -
  let ?new = "sup_new name ks vs topic" and ?Q = "snd (pend_run ops [])"
  obtain s where s: "sup_run ops ?new = Some (fst (pend_run ops []), s)" "sup_holds ks vk vs vv topic s ?Q" "sup_logged [] s"
    using sup_run_ok [OF S sup_new_ok ops] by blast
  have "sup_inv ?new" "sup_queue ?new = []"
    using sup_new_ok(1) [of ks _ vs _ topic name] by (simp_all add: sup_holds_def)
  then obtain r where r: "sup_replay (sup_changelog s) ?new = Some r" "sup_inv r" "sup_queue r = sup_queue s" "same_config ?new r"
    using sup_replay_ok [of "sup_changelog s" ?new] s(3) by (auto simp: sup_logged_def)
  have "sup_changelog r = []"
    using sup_replay_changelog [OF r(1)] by (simp add: sup_new_def)
  note replay = same_queue_continues [OF S s(2,3) r(2-4) this]
  have "\<exists>r'. sup_restore_snapshot data s0 = Inr r' \<and> continues_as vk vv s r' \<and> sup_entries r' = sup_entries s \<and>
          sup_index r' = sup_index s \<and> sup_seq r' = sup_seq s \<and> sup_byte_size r' = sup_byte_size s"
    if data: "sup_snapshot s = Some data" "sup_seq s < 18446744073709551616" "sup_byte_size s < 18446744073709551616" "same_config ?new s0" for data s0
  proof -
    have inv: "sup_inv s" "sup_changelog_topic s = topic" and q: "sup_queue s = map (\<lambda>(bt, p). (bt, enc_pending ks vs topic p)) ?Q"
      using s(2) by (simp_all add: sup_holds_def)
    have "slot_ok x" if x: "x \<in> set (sup_entries s)" for x
    proof -
      have "(fst (fst x), snd x) \<in> set (sup_queue s)"
        using image_eqI [of _ "\<lambda>((bt, _), e). (bt, e)" x] x by (auto simp: sup_queue_def split_beta)
      then have "in_i64 (fst (fst x)) \<and> in_i64 (sx_record_ts (snd x))"
        using pend_run_slots [OF _ ops, of "[]"] unfolding q by (auto simp: enc_pending_def)
      moreover have "snd (fst x) < sup_seq s"
        using sup_inv_parts(2) [OF inv(1)] x by (metis prod.collapse)
      ultimately show ?thesis
        using data(2) by (simp add: slot_ok_def)
    qed
    then have restore: "sup_restore_snapshot data s0 = Inr (s0\<lparr>sup_entries := sup_entries s, sup_index := sup_index s, sup_seq := sup_seq s,
        sup_byte_size := sup_byte_size s, sup_changelog := []\<rparr>)" (is "_ = Inr ?r")
      using sup_snapshot_ok [OF inv(1) _ data(2,3) _ data(1), of s0] topic inv(2) by blast
    have "sup_inv ?r" "sup_queue ?r = sup_queue s" "same_config ?new ?r"
      using inv(1) data(4) by (simp_all add: sup_inv_def sup_queue_def same_config_def)
    then have "continues_as vk vv s ?r"
      by (rule same_queue_continues [OF S s(2,3)]) simp
    then show ?thesis
      using restore by simp
  qed
  then show ?thesis
    using s(1) r(1) replay by blast
qed

definition sup_sample_puts :: "(string, int) sup_op list" where
  "sup_sample_puts = [Sup_Put ''a'' 20 \<lparr>ch_old = None, ch_new = Some 1\<rparr> (sample_ctx 5), Sup_Put ''b'' 10 \<lparr>ch_old = None, ch_new = Some 7\<rparr> (sample_ctx 6)]"

lemma sup_sample_puts_ok: "\<forall>op \<in> set sup_sample_puts. sup_op_ok (\<lambda>s. utf8_valid (str_bytes s)) I64Serde in_i64 ''t'' op"
  by (simp add: sup_sample_puts_def sample_ctx_def pending_ok_def value_ok_def ctx_ok_def in_i64_def in_i32_def I64Serde_def i32_max_def str_bytes_def)

lemma sup_sample_snapshot:
  "case sup_run sup_sample_puts (sup_new ''sup'' StringSerde I64Serde ''t'') of None \<Rightarrow> False
   | Some (_, s) \<Rightarrow> sup_snapshot s \<noteq> None \<and> sup_seq s = 2 \<and> sup_byte_size s = 18"
  by (simp add: sup_sample_puts_def sample_ctx_def sup_new_def sup_put_def remove_existing_def insert_slot_def sub_size_def entry_size_def
     StringSerde_def I64Serde_def str_bytes_def Let_def serialize_buffer_change_def ctx_write_def put_len_def add_value_def i32_max_def
     size_of_entry_def sup_snapshot_def put_sized_def put_u32_def store_payload_def del: to_be.simps)

lemma suppress_store_recovers_witness:
  "\<exists>outs s r data r'. sup_run sup_sample_puts (sup_new ''sup'' StringSerde I64Serde ''t'') = Some (outs, s) \<and>
    sup_replay (sup_changelog s) (sup_new ''sup'' StringSerde I64Serde ''t'') = Some r \<and> continues_as (\<lambda>s. utf8_valid (str_bytes s)) in_i64 s r \<and>
    sup_snapshot s = Some data \<and> sup_restore_snapshot data (sup_new ''sup'' StringSerde I64Serde ''t'') = Inr r' \<and>
    continues_as (\<lambda>s. utf8_valid (str_bytes s)) in_i64 s r' \<and> sup_seq r' = 2"
proof -
  let ?new = "sup_new ''sup'' StringSerde I64Serde ''t'' :: (string, int) suppress_store"
  have "utf8_valid (str_bytes ''t'')"
    by (simp add: str_bytes_def)
  from suppress_store_recovers [OF string_serde.serde_contract_axioms i64_serde.serde_contract_axioms sup_sample_puts_ok this, of "''sup''"]
  show ?thesis
  proof (elim exE conjE)
    fix outs s r
    assume run: "sup_run sup_sample_puts ?new = Some (outs, s)" "sup_replay (sup_changelog s) ?new = Some r"
        "continues_as (\<lambda>s. utf8_valid (str_bytes s)) in_i64 s r"
      and snap: "\<forall>data s0. sup_snapshot s = Some data \<and> sup_seq s < 18446744073709551616 \<and> sup_byte_size s < 18446744073709551616 \<and> same_config ?new s0 \<longrightarrow>
        (\<exists>r'. sup_restore_snapshot data s0 = Inr r' \<and> continues_as (\<lambda>s. utf8_valid (str_bytes s)) in_i64 s r' \<and> sup_entries r' = sup_entries s \<and>
          sup_index r' = sup_index s \<and> sup_seq r' = sup_seq s \<and> sup_byte_size r' = sup_byte_size s)"
    obtain data where data: "sup_snapshot s = Some data" "sup_seq s = 2" "sup_byte_size s = 18"
      using sup_sample_snapshot run(1) by auto
    then obtain r' where "sup_restore_snapshot data ?new = Inr r'" "continues_as (\<lambda>s. utf8_valid (str_bytes s)) in_i64 s r'" "sup_seq r' = 2"
      using snap [rule_format, of data ?new] by (auto simp: same_config_def)
    then show ?thesis
      using run data(1) by blast
  qed
qed

end
