(* ===== verification/Suppress_Processor.thy ===== *)
theory Suppress_Processor
  imports Suppress_Store Windows
begin

text \<open>
  \<^verbatim>\<open>dsl/suppress.rs\<close> (the buffer configuration and \<^verbatim>\<open>Suppressed\<close>), the part of \<^verbatim>\<open>dsl/ktable.rs\<close> that builds
  the processor from it, and \<^verbatim>\<open>dsl/processors/suppress.rs\<close> (\<^verbatim>\<open>KTableSuppressProcessor\<close>), the
  control flow over the suppression buffer: buffer the change, forward what is due, then enforce the caps.  A byte
  cap is an exact number of bytes here; the source's \<^verbatim>\<open>ByteSize\<close> is exact up to \<^verbatim>\<open>2^53\<close>.
\<close>

section \<open>BufferConfig\<close>

record buffer_config =
  bf_max_records :: "nat option"
  bf_max_bytes :: "nat option"
  bf_emit_early :: bool

definition bf_unbounded :: buffer_config where
  "bf_unbounded = \<lparr>bf_max_records = None, bf_max_bytes = None, bf_emit_early = False\<rparr>"

text \<open>The constructors assert a cap of at least one.\<close>

definition bf_records :: "nat \<Rightarrow> buffer_config option" where
  "bf_records n = (if 1 \<le> n then Some \<lparr>bf_max_records = Some n, bf_max_bytes = None, bf_emit_early = True\<rparr> else None)"

definition bf_bytes :: "nat \<Rightarrow> buffer_config option" where
  "bf_bytes n = (if 1 \<le> n then Some \<lparr>bf_max_records = None, bf_max_bytes = Some n, bf_emit_early = True\<rparr> else None)"

definition bf_with_max_records :: "nat \<Rightarrow> buffer_config \<Rightarrow> buffer_config option" where
  "bf_with_max_records n c = (if 1 \<le> n then Some (c\<lparr>bf_max_records := Some n\<rparr>) else None)"

definition bf_with_max_bytes :: "nat \<Rightarrow> buffer_config \<Rightarrow> buffer_config option" where
  "bf_with_max_bytes n c = (if 1 \<le> n then Some (c\<lparr>bf_max_bytes := Some n\<rparr>) else None)"

definition bf_emit_early_when_full :: "buffer_config \<Rightarrow> buffer_config" where
  "bf_emit_early_when_full c = c\<lparr>bf_emit_early := True\<rparr>"

definition bf_shut_down_when_full :: "buffer_config \<Rightarrow> buffer_config" where
  "bf_shut_down_when_full c = c\<lparr>bf_emit_early := False\<rparr>"

section \<open>KTableSuppressProcessor\<close>

record 'k suppress_proc =
  sp_store_name :: string
  sp_observed_stream_time :: int
  sp_wait :: int
  sp_buffer_time :: "'k \<Rightarrow> int \<Rightarrow> int"
  sp_max_records :: "nat option"
  sp_max_bytes :: "nat option"
  sp_emit_early :: bool

definition sp_new :: "string \<Rightarrow> int \<Rightarrow> ('k \<Rightarrow> int \<Rightarrow> int) \<Rightarrow> buffer_config \<Rightarrow> 'k suppress_proc" where
  "sp_new store_name wait buffer_time c =
    \<lparr>sp_store_name = store_name, sp_observed_stream_time = i64_min, sp_wait = wait, sp_buffer_time = buffer_time,
     sp_max_records = bf_max_records c, sp_max_bytes = bf_max_bytes c, sp_emit_early = bf_emit_early c\<rparr>"

text \<open>How long to wait, in milliseconds: the grace of the upstream window, or a fixed time.\<close>

datatype wait_kind = Upstream_Grace | Fixed int

record 'k suppressed =
  sd_buffer :: buffer_config
  sd_buffer_time :: "'k \<Rightarrow> int \<Rightarrow> int"
  sd_wait :: wait_kind
  sd_logging :: bool

definition with_logging_disabled :: "'k suppressed \<Rightarrow> 'k suppressed" where
  "with_logging_disabled sd = sd\<lparr>sd_logging := False\<rparr>"

definition with_logging_enabled :: "'k suppressed \<Rightarrow> 'k suppressed" where
  "with_logging_enabled sd = sd\<lparr>sd_logging := True\<rparr>"

definition until_window_closes :: "buffer_config \<Rightarrow> 'k windowed suppressed option" where
  "until_window_closes c =
    (if bf_emit_early c then None
     else Some \<lparr>sd_buffer = c, sd_buffer_time = (\<lambda>k _. w_end (wd_window k)), sd_wait = Upstream_Grace, sd_logging = True\<rparr>)"

definition until_time_limit :: "int \<Rightarrow> buffer_config \<Rightarrow> 'k suppressed option" where
  "until_time_limit wait c =
    (if 0 \<le> wait then Some \<lparr>sd_buffer = c, sd_buffer_time = (\<lambda>_ ts. ts), sd_wait = Fixed wait, sd_logging = True\<rparr> else None)"

text \<open>The processor that \<^verbatim>\<open>KTable::suppress\<close> lowers to, for a table with the given window grace.\<close>

definition ktable_suppress :: "int option \<Rightarrow> string \<Rightarrow> 'k suppressed \<Rightarrow> 'k suppress_proc" where
  "ktable_suppress window_grace store_name sd =
    sp_new store_name (case sd_wait sd of Upstream_Grace \<Rightarrow> (case window_grace of None \<Rightarrow> 0 | Some g \<Rightarrow> g) | Fixed wait \<Rightarrow> wait)
      (sd_buffer_time sd) (sd_buffer sd)"

definition over_caps :: "nat \<Rightarrow> nat \<Rightarrow> nat option \<Rightarrow> nat option \<Rightarrow> bool" where
  "over_caps len byte_size max_records max_bytes \<longleftrightarrow>
     (case max_records of None \<Rightarrow> False | Some c \<Rightarrow> c < len) \<or> (case max_bytes of None \<Rightarrow> False | Some c \<Rightarrow> c < byte_size)"

lemma evict_oldest_shrinks:
  "evict_oldest s = Some (Some x, s1) \<Longrightarrow> length (sup_entries s1) < length (sup_entries s)"
  using pop_slot_shrinks by (fastforce simp: evict_oldest_def split: list.splits)

function evict_early :: "'k suppress_proc \<Rightarrow> ('k, 'v) suppress_store \<Rightarrow> (('k, 'v) pending list \<times> ('k, 'v) suppress_store) option" where
  "evict_early p s =
    (if over_caps (sup_len s) (sup_byte_size s) (sp_max_records p) (sp_max_bytes p)
     then (case evict_oldest s of
             None \<Rightarrow> None
           | Some (None, s1) \<Rightarrow> Some ([], s1)
           | Some (Some x, s1) \<Rightarrow> map_option (map_prod (Cons x) id) (evict_early p s1))
     else Some ([], s))"
  by pat_completeness auto
termination evict_early
proof (relation "measure (\<lambda>(_, s). length (sup_entries s))")
qed (use evict_oldest_shrinks in \<open>fastforce+\<close>)

declare evict_early.simps [simp del]

definition forward_pending :: "('k, 'v) pending \<Rightarrow> ('k, 'v change) rec" where
  "forward_pending x = rec_new (Some (fst x)) (fst (snd x)) (snd (snd x))"

definition suppress_process :: "record_context \<Rightarrow> ('k, 'v change) rec \<Rightarrow> 'k suppress_proc \<Rightarrow> ('k, 'v) suppress_store \<Rightarrow>
    (('k, 'v change) rec list \<times> 'k suppress_proc \<times> ('k, 'v) suppress_store) option" where
  "suppress_process rc r p s =
    do { key \<leftarrow> r_key r;
         let p1 = p\<lparr>sp_observed_stream_time := max (sp_observed_stream_time p) (r_timestamp r)\<rparr>;
         let bt = sp_buffer_time p key (r_timestamp r);
         s1 \<leftarrow> sup_put key bt (r_value r)
           \<lparr>sc_topic = rc_topic rc, sc_partition = rc_partition rc, sc_offset = rc_offset rc, sc_timestamp = rc_timestamp rc\<rparr> s;
         threshold \<leftarrow> checked_i64 (sp_observed_stream_time p1 - sp_wait p);
         (due, s2) \<leftarrow> evict_while threshold s1;
         (if sp_max_records p = None \<and> sp_max_bytes p = None then Some (map forward_pending due, p1, s2)
          else if sp_emit_early p
          then do { (early, s3) \<leftarrow> evict_early p s2; Some (map forward_pending (due @ early), p1, s3) }
          else if over_caps (sup_len s2) (sup_byte_size s2) (sp_max_records p) (sp_max_bytes p) then None
          else Some (map forward_pending due, p1, s2)) }"

section \<open>The queue of the processor\<close>

definition sup_keeps :: "'k serde \<Rightarrow> ('k \<Rightarrow> bool) \<Rightarrow> 'v serde \<Rightarrow> ('v \<Rightarrow> bool) \<Rightarrow> string \<Rightarrow> ('k, 'v) suppress_store \<Rightarrow> (int \<times> ('k, 'v) pending) list \<Rightarrow> bool" where
  "sup_keeps ks vk vs vv t s Q \<longleftrightarrow> sup_holds ks vk vs vv t s Q \<and> sup_logged [] s"

text \<open>A record the processor can buffer: keyed, with values that serialize, and times inside \<^verbatim>\<open>i64\<close>.\<close>

definition suppress_input_ok :: "('k \<Rightarrow> bool) \<Rightarrow> 'v serde \<Rightarrow> ('v \<Rightarrow> bool) \<Rightarrow> string \<Rightarrow> 'k suppress_proc \<Rightarrow> record_context \<times> ('k, 'v change) rec \<Rightarrow> bool" where
  "suppress_input_ok vk vs vv t p i \<longleftrightarrow>
     (case r_key (snd i) of None \<Rightarrow> False | Some k \<Rightarrow> pending_ok vk vs vv t (k, r_value (snd i), rc_timestamp (fst i)) \<and>
        in_i64 (sp_buffer_time p k (r_timestamp (snd i)))) \<and>
     0 \<le> r_timestamp (snd i) \<and> in_i64 (r_timestamp (snd i)) \<and> int (length (rc_topic (fst i))) \<le> i32_max \<and>
     utf8_valid (str_bytes (rc_topic (fst i))) \<and> in_i64 (rc_timestamp (fst i)) \<and> in_i64 (rc_offset (fst i)) \<and> in_i32 (rc_partition (fst i))"

definition wait_ok :: "'k suppress_proc \<Rightarrow> bool" where
  "wait_ok p \<longleftrightarrow> 0 \<le> sp_wait p \<and> sp_wait p \<le> i64_max"

lemma evict_early_ok:
  assumes S: "serde_contract ks vk" "serde_contract vs vv"
  shows "sup_keeps ks vk vs vv t s Q \<Longrightarrow> \<exists>n s'. evict_early p s = Some (map snd (take n Q), s') \<and> sup_keeps ks vk vs vv t s' (drop n Q) \<and>
    \<not> over_caps (sup_len s') (sup_byte_size s') (sp_max_records p) (sp_max_bytes p)"
proof (induction Q arbitrary: s)
  case Nil
  then have "sup_len s = 0" "sup_byte_size s = 0"
    using sup_holds_size [of ks vk vs vv t s "[]"] by (simp_all add: sup_keeps_def)
  then show ?case
    using Nil by (intro exI [of _ 0]) (auto simp: evict_early.simps [of p s] over_caps_def split: option.splits)
next
  case (Cons x Q)
  show ?case
  proof (cases "over_caps (sup_len s) (sup_byte_size s) (sp_max_records p) (sp_max_bytes p)")
    case True
    obtain s1 where s1: "evict_oldest s = Some (Some (snd x), s1)" "sup_keeps ks vk vs vv t s1 Q"
      using evict_oldest_ok [OF S, of t s "x # Q" "[]"] Cons.prems by (auto simp: sup_keeps_def split: prod.splits)
    obtain n s' where "evict_early p s1 = Some (map snd (take n Q), s')" "sup_keeps ks vk vs vv t s' (drop n Q)"
        "\<not> over_caps (sup_len s') (sup_byte_size s') (sp_max_records p) (sp_max_bytes p)"
      using Cons.IH [OF s1(2)] by blast
    then show ?thesis
      using True s1(1) by (intro exI [of _ "Suc n"]) (auto simp: evict_early.simps [of p s])
  next
    case False
    then show ?thesis
      using Cons.prems by (intro exI [of _ 0]) (auto simp: evict_early.simps [of p s])
  qed
qed

lemma suppress_buffers:
  assumes S: "serde_contract ks vk" "serde_contract vs vv" and h: "sup_keeps ks vk vs vv t s Q"
    and i: "suppress_input_ok vk vs vv t p (rc, r)" and w: "wait_ok p" and obs: "in_i64 (sp_observed_stream_time p)" and k: "r_key r = Some k"
  defines "stm \<equiv> max (sp_observed_stream_time p) (r_timestamp r)"
  defines "Q1 \<equiv> pend_put k (sp_buffer_time p k (r_timestamp r)) (r_value r) (rc_timestamp rc) Q"
  shows "\<exists>s2. sup_keeps ks vk vs vv t s2 (dropWhile (\<lambda>(bt, _). bt \<le> stm - sp_wait p) Q1) \<and>
    suppress_process rc r p s =
      (let due = map snd (takeWhile (\<lambda>(bt, _). bt \<le> stm - sp_wait p) Q1); p1 = p\<lparr>sp_observed_stream_time := stm\<rparr> in
       if sp_max_records p = None \<and> sp_max_bytes p = None then Some (map forward_pending due, p1, s2)
       else if sp_emit_early p then Option.bind (evict_early p s2) (\<lambda>(early, s3). Some (map forward_pending (due @ early), p1, s3))
       else if over_caps (sup_len s2) (sup_byte_size s2) (sp_max_records p) (sp_max_bytes p) then None
       else Some (map forward_pending due, p1, s2))"
proof -
  let ?ctx = "\<lparr>sc_topic = rc_topic rc, sc_partition = rc_partition rc, sc_offset = rc_offset rc, sc_timestamp = rc_timestamp rc\<rparr>"
  let ?bt = "sp_buffer_time p k (r_timestamp r)"
  have "pending_ok vk vs vv t (k, r_value r, sc_timestamp ?ctx)" "ctx_ok ?ctx" "int (length (sc_topic ?ctx)) \<le> i32_max" "in_i64 ?bt"
    using i k by (simp_all add: suppress_input_ok_def ctx_ok_def)
  from sup_put_ok [OF S(1) _ _ this, of s Q "[]"] h
  obtain s1 where s1: "sup_put k ?bt (r_value r) ?ctx s = Some s1" "sup_keeps ks vk vs vv t s1 Q1"
    by (auto simp: sup_keeps_def Q1_def)
  have th: "in_i64 (stm - sp_wait p)"
    using i w obs by (auto simp: suppress_input_ok_def wait_ok_def stm_def in_i64_def)
  obtain s2 where "evict_while (stm - sp_wait p) s1 = Some (map snd (takeWhile (\<lambda>(bt, _). bt \<le> stm - sp_wait p) Q1), s2)"
      "sup_keeps ks vk vs vv t s2 (dropWhile (\<lambda>(bt, _). bt \<le> stm - sp_wait p) Q1)"
    using evict_while_ok [OF S, of t s1 Q1 "[]"] s1(2) by (auto simp: sup_keeps_def)
  then show ?thesis
    using s1(1) th k by (intro exI [of _ s2]) (simp add: suppress_process_def Let_def stm_def [symmetric] checked_i64_def)
qed

lemma suppress_input_key: "suppress_input_ok vk vs vv t p (rc, r) \<Longrightarrow> \<exists>k. r_key r = Some k"
  by (auto simp: suppress_input_ok_def split: option.splits)

abbreviation suppress_step :: "record_context \<times> ('k, 'v change) rec \<Rightarrow> 'k suppress_proc \<Rightarrow> ('k, 'v) suppress_store \<Rightarrow>
    (('k, 'v change) rec list \<times> 'k suppress_proc \<times> ('k, 'v) suppress_store) option" where
  "suppress_step \<equiv> \<lambda>i. suppress_process (fst i) (snd i)"

section \<open>The caps\<close>

lemma suppress_early_step:
  assumes S: "serde_contract ks vk" "serde_contract vs vv" and p0: "wait_ok p0" "sp_emit_early p0"
    and p: "p = p0\<lparr>sp_observed_stream_time := sp_observed_stream_time p\<rparr>" "in_i64 (sp_observed_stream_time p)"
    and h: "sup_keeps ks vk vs vv t s Q" and i: "suppress_input_ok vk vs vv t p0 i"
  shows "\<exists>out p' s' Q'. suppress_step i p s = Some (out, p', s') \<and> p' = p0\<lparr>sp_observed_stream_time := sp_observed_stream_time p'\<rparr> \<and>
    in_i64 (sp_observed_stream_time p') \<and> sup_keeps ks vk vs vv t s' Q' \<and>
    \<not> over_caps (sup_len s') (sup_byte_size s') (sp_max_records p0) (sp_max_bytes p0)"
proof -
  obtain rc r where ir: "i = (rc, r)"
    by (cases i)
  have same: "wait_ok p" "sp_emit_early p" "sp_max_records p = sp_max_records p0" "sp_max_bytes p = sp_max_bytes p0"
      "sp_buffer_time p = sp_buffer_time p0" "p\<lparr>sp_observed_stream_time := x\<rparr> = p0\<lparr>sp_observed_stream_time := x\<rparr>" for x
    using p0 by (subst p(1), simp add: wait_ok_def)+
  have i': "suppress_input_ok vk vs vv t p (rc, r)"
    using i by (auto simp: ir suppress_input_ok_def same(5) split: option.splits)
  obtain k where k: "r_key r = Some k"
    using suppress_input_key [OF i'] by blast
  let ?stm = "max (sp_observed_stream_time p) (r_timestamp r)"
  define Q1 where "Q1 = pend_put k (sp_buffer_time p k (r_timestamp r)) (r_value r) (rc_timestamp rc) Q"
  define Q2 where "Q2 = dropWhile (\<lambda>(bt, _). bt \<le> ?stm - sp_wait p) Q1"
  define due where "due = map snd (takeWhile (\<lambda>(bt, _). bt \<le> ?stm - sp_wait p) Q1)"
  from suppress_buffers [OF S h i' same(1) p(2) k]
  obtain s2 where s2: "sup_keeps ks vk vs vv t s2 Q2" and proc: "suppress_process rc r p s =
      (let p1 = p\<lparr>sp_observed_stream_time := ?stm\<rparr> in
       if sp_max_records p = None \<and> sp_max_bytes p = None then Some (map forward_pending due, p1, s2)
       else if sp_emit_early p then Option.bind (evict_early p s2) (\<lambda>(early, s3). Some (map forward_pending (due @ early), p1, s3))
       else if over_caps (sup_len s2) (sup_byte_size s2) (sp_max_records p) (sp_max_bytes p) then None
       else Some (map forward_pending due, p1, s2))"
    unfolding Q1_def [symmetric] due_def [symmetric] Q2_def [symmetric] Let_def by blast
  have obs: "in_i64 (max (sp_observed_stream_time p) (r_timestamp r))"
    using p(2) i by (simp add: ir suppress_input_ok_def max_def)
  obtain n s3 where "evict_early p s2 = Some (map snd (take n Q2), s3)" "sup_keeps ks vk vs vv t s3 (drop n Q2)"
      "\<not> over_caps (sup_len s3) (sup_byte_size s3) (sp_max_records p) (sp_max_bytes p)"
    using evict_early_ok [OF S s2, of p] by blast
  then show ?thesis
    using proc s2 obs same by (cases "sp_max_records p0 = None \<and> sp_max_bytes p0 = None") (auto simp: ir over_caps_def Let_def)
qed

text \<open>C21: The suppression buffer stays inside its caps.  In the emit-early mode the processor handles every sequence of
  records without a panic, however the buffer times are chosen, and after each of them the buffer holds no more
  records and no more bytes than configured.\<close>

theorem suppress_buffer_bounded:
  assumes S: "serde_contract ks vk" "serde_contract vs vv" and p0: "wait_ok p0" "sp_emit_early p0" "sp_observed_stream_time p0 = i64_min"
    and inputs: "\<forall>i \<in> set inputs. suppress_input_ok vk vs vv topic p0 i"
  shows "\<exists>outs p s. proc_run suppress_step inputs p0 (sup_new name ks vs topic) = Some (outs, p, s) \<and>
    (\<forall>c. sp_max_records p0 = Some c \<longrightarrow> sup_len s \<le> c) \<and> (\<forall>c. sp_max_bytes p0 = Some c \<longrightarrow> sup_byte_size s \<le> c)"
proof -
  let ?keeps = "\<lambda>(n :: nat) (g :: unit) (outs :: ('a, 'b change) rec list) p s.
    n \<le> length inputs \<and> p = p0\<lparr>sp_observed_stream_time := sp_observed_stream_time p\<rparr> \<and> in_i64 (sp_observed_stream_time p) \<and>
    (\<exists>Q. sup_keeps ks vk vs vv topic s Q) \<and> \<not> over_caps (sup_len s) (sup_byte_size s) (sp_max_records p0) (sp_max_bytes p0)"
  have step: "\<exists>out p' s'. suppress_step i p s = Some (out, p', s') \<and> ?keeps (Suc n) g (outs @ out) p' s'"
    if "?keeps n g outs p s" "suppress_input_ok vk vs vv topic p0 i" "n < length inputs" for n i g outs p s
    using suppress_early_step [OF S p0(1,2), of p topic s _ i] that Suc_leI by blast
  have "sup_keeps ks vk vs vv topic (sup_new name ks vs topic) []"
    unfolding sup_keeps_def by (intro conjI sup_new_ok)
  then have "?keeps 0 () [] p0 (sup_new name ks vs topic)"
    using p0(3) sup_holds_size [of ks vk vs vv topic "sup_new name ks vs topic" "[]"]
    by (auto simp: sup_keeps_def over_caps_def in_i64_def split: option.splits)
  from proc_run_out_inv [where keeps = ?keeps and step = suppress_step and upd = "\<lambda>_ g. g" and N = "length inputs", OF step this inputs]
  show ?thesis
    by (auto simp: over_caps_def)
qed

definition suppress_rec :: "string \<Rightarrow> int \<Rightarrow> int \<Rightarrow> record_context \<times> (string, int change) rec" where
  "suppress_rec k v ts = (\<lparr>rc_topic = ''in'', rc_partition = 0, rc_offset = 0, rc_timestamp = ts\<rparr>, rec_new (Some k) (change_update None v) ts)"

definition suppress_inputs :: "(record_context \<times> (string, int change) rec) list" where
  "suppress_inputs = [suppress_rec ''a'' 1 5, suppress_rec ''b'' 7 6, suppress_rec ''a'' 2 8, suppress_rec ''c'' 3 12]"

lemma suppress_inputs_ok:
  assumes "\<And>k ts. 0 \<le> ts \<Longrightarrow> ts \<le> 12 \<Longrightarrow> in_i64 (sp_buffer_time p k ts)"
  shows "\<forall>i \<in> set suppress_inputs. suppress_input_ok (\<lambda>s. utf8_valid (str_bytes s)) I64Serde in_i64 ''t'' p i"
  using assms by (simp add: suppress_inputs_def suppress_rec_def suppress_input_ok_def rec_new_def change_update_def pending_ok_def
    value_ok_def in_i64_def in_i32_def I64Serde_def i32_max_def str_bytes_def)

definition early_suppress :: "string suppress_proc" where
  "early_suppress = sp_new ''sup'' 100 (\<lambda>_ ts. ts) \<lparr>bf_max_records = Some 2, bf_max_bytes = None, bf_emit_early = True\<rparr>"

lemma suppress_buffer_bounded_witness:
  "\<exists>outs p s. proc_run suppress_step suppress_inputs early_suppress (sup_new ''sup'' StringSerde I64Serde ''t'') = Some (outs, p, s) \<and> sup_len s \<le> 2"
proof -
  have "\<forall>i \<in> set suppress_inputs. suppress_input_ok (\<lambda>s. utf8_valid (str_bytes s)) I64Serde in_i64 ''t'' early_suppress i"
    by (rule suppress_inputs_ok) (simp add: early_suppress_def sp_new_def in_i64_def)
  from suppress_buffer_bounded [OF string_serde.serde_contract_axioms i64_serde.serde_contract_axioms _ _ _ this, of "''sup''"]
  show ?thesis
    by (auto simp: early_suppress_def sp_new_def wait_ok_def)
qed

section \<open>Until the window closes\<close>

text \<open>The last change of each key among the inputs, and the last one forwarded.\<close>

definition latest :: "(record_context \<times> ('k, 'v change) rec) list \<Rightarrow> 'k \<rightharpoonup> 'v change \<times> int" where
  "latest inputs = fold (\<lambda>(rc, r) m. case r_key r of None \<Rightarrow> m | Some k \<Rightarrow> m(k \<mapsto> (r_value r, rc_timestamp rc))) inputs Map.empty"

definition emitted_last :: "('k, 'v change) rec list \<Rightarrow> 'k \<rightharpoonup> 'v change \<times> int" where
  "emitted_last outs = fold (\<lambda>r m. case r_key r of None \<Rightarrow> m | Some k \<Rightarrow> m(k \<mapsto> (r_value r, r_timestamp r))) outs Map.empty"

definition stream_time :: "(record_context \<times> ('k, 'v) rec) list \<Rightarrow> int" where
  "stream_time inputs = fold (\<lambda>(_, r) t. max t (r_timestamp r)) inputs i64_min"

lemma forward_pending_sel:
  "r_key (forward_pending x) = Some (fst x)" "r_value (forward_pending x) = fst (snd x)" "r_timestamp (forward_pending x) = snd (snd x)"
  by (simp_all add: forward_pending_def rec_new_def)

lemma emitted_last_append:
  assumes "distinct (map fst ds)"
  shows "emitted_last (outs @ map forward_pending ds) k = (case map_of ds k of None \<Rightarrow> emitted_last outs k | Some x \<Rightarrow> Some x)"
proof -
  have "fold (\<lambda>r m. case r_key r of None \<Rightarrow> m | Some k \<Rightarrow> m(k \<mapsto> (r_value r, r_timestamp r))) (map forward_pending ds) m k =
      (case map_of ds k of None \<Rightarrow> m k | Some x \<Rightarrow> Some x)" for m
    using assms
  proof (induction ds arbitrary: m)
    case (Cons d ds)
    have "map_of ds (fst d) = None"
      using Cons.prems by (simp add: map_of_eq_None_iff)
    then show ?case
      using Cons.prems by (cases d; cases "map_of ds k") (auto simp: Cons.IH forward_pending_sel)
  qed simp
  then show ?thesis
    unfolding emitted_last_def by simp
qed

text \<open>The pending changes when the buffer time is a function of the key: one per key, by buffer time.\<close>

definition window_queue :: "('k \<Rightarrow> int) \<Rightarrow> (int \<times> ('k, 'v) pending) list \<Rightarrow> bool" where
  "window_queue f Q \<longleftrightarrow> sorted (map fst Q) \<and> distinct (map (\<lambda>x. fst (snd x)) Q) \<and> (\<forall>x \<in> set Q. fst x = f (fst (snd x)))"

lemma in_set_dropWhileD: "x \<in> set (dropWhile P xs) \<Longrightarrow> x \<in> set xs"
  by (induction xs) (auto split: if_splits)

lemma sorted_enqueue: "sorted (map fst Q) \<Longrightarrow> sorted (map fst (enqueue bt e Q))"
proof (induction Q)
  case (Cons x Q)
  then show ?case
    by (cases x) (fastforce simp: enqueue_def dest: set_takeWhileD in_set_dropWhileD)
qed (simp add: enqueue_def)

lemma distinct_enqueue:
  assumes "distinct (map g Q)" "g (bt, e) \<notin> g ` set Q"
  shows "distinct (map g (enqueue bt e Q))"
proof -
  let ?P = "\<lambda>(b, _). b \<le> bt"
  have "distinct (map g (takeWhile ?P Q) @ map g (dropWhile ?P Q))" "set (takeWhile ?P Q) \<union> set (dropWhile ?P Q) = set Q"
    using assms(1) by (metis map_append takeWhile_dropWhile_id, metis set_append takeWhile_dropWhile_id)
  then show ?thesis
    using assms(2) by (auto simp: enqueue_def)
qed

lemma window_queue_put:
  assumes "window_queue f Q"
  shows "window_queue f (pend_put k (f k) c ts Q)" "set (pend_put k (f k) c ts Q) = insert (f k, k, c, ts) {x \<in> set Q. fst (snd x) \<noteq> k}"
proof -
  show sets: "set (pend_put k (f k) c ts Q) = insert (f k, k, c, ts) {x \<in> set Q. fst (snd x) \<noteq> k}"
    by (auto simp: pend_put_def set_enqueue pend_del_def)
  have "sorted (map fst (pend_del k Q))" "distinct (map (\<lambda>x. fst (snd x)) (pend_del k Q))" "k \<notin> (\<lambda>x. fst (snd x)) ` set (pend_del k Q)"
    using assms by (auto simp: window_queue_def pend_del_def sorted_filter distinct_map_filter)
  then show "window_queue f (pend_put k (f k) c ts Q)"
    using assms sets distinct_enqueue [of "\<lambda>x. fst (snd x)" "pend_del k Q" "f k" "(k, c, ts)"]
    by (auto simp: window_queue_def pend_put_def intro: sorted_enqueue)
qed

lemma window_queue_split:
  assumes "window_queue f Q"
  shows "takeWhile (\<lambda>(bt, _). bt \<le> th) Q = filter (\<lambda>(bt, _). bt \<le> th) Q" "dropWhile (\<lambda>(bt, _). bt \<le> th) Q = filter (\<lambda>(bt, _). th < bt) Q"
proof -
  have "sorted (map fst Q) \<Longrightarrow> takeWhile (\<lambda>(bt, _). bt \<le> th) Q = filter (\<lambda>(bt, _). bt \<le> th) Q \<and>
      dropWhile (\<lambda>(bt, _). bt \<le> th) Q = filter (\<lambda>(bt, _). th < bt) Q"
  proof (induction Q)
    case (Cons x Q)
    then have "\<not> fst x \<le> th \<Longrightarrow> filter (\<lambda>(bt, _). bt \<le> th) Q = [] \<and> filter (\<lambda>(bt, _). th < bt) Q = Q"
      by (auto simp: filter_empty_conv filter_id_conv)
    then show ?case
      using Cons by (cases x) auto
  qed simp
  then show "takeWhile (\<lambda>(bt, _). bt \<le> th) Q = filter (\<lambda>(bt, _). bt \<le> th) Q" "dropWhile (\<lambda>(bt, _). bt \<le> th) Q = filter (\<lambda>(bt, _). th < bt) Q"
    using assms by (auto simp: window_queue_def)
qed

definition holds_back :: "('k \<Rightarrow> int) \<Rightarrow> int \<Rightarrow> ('k \<rightharpoonup> 'v change \<times> int) \<Rightarrow> (int \<times> ('k, 'v) pending) list \<Rightarrow> ('k \<rightharpoonup> 'v change \<times> int) \<Rightarrow> bool" where
  "holds_back f th lat Q emi \<longleftrightarrow> window_queue f Q \<and>
     (\<forall>k c ts. (f k, k, c, ts) \<in> set Q \<longleftrightarrow> lat k = Some (c, ts) \<and> th < f k) \<and> (\<forall>k. emi k = (if f k \<le> th then lat k else None))"

lemma holds_back_step:
  assumes h: "holds_back f th lat Q (emitted_last outs)" and th: "th \<le> th'" and Q1_def: "Q1 = pend_put k0 (f k0) c0 ts0 Q"
  shows "holds_back f th' (lat(k0 \<mapsto> (c0, ts0))) (dropWhile (\<lambda>(bt, _). bt \<le> th') Q1)
    (emitted_last (outs @ map forward_pending (map snd (takeWhile (\<lambda>(bt, _). bt \<le> th') Q1))))"
proof -
  have wq: "window_queue f Q" and mem: "\<And>k c ts. (f k, k, c, ts) \<in> set Q \<longleftrightarrow> lat k = Some (c, ts) \<and> th < f k"
    and emi: "\<And>k. emitted_last outs k = (if f k \<le> th then lat k else None)"
    using h unfolding holds_back_def by blast+
  note put = window_queue_put [OF wq, of k0 c0 ts0, folded Q1_def]
  note split = window_queue_split [OF put(1), of th']
  define ds where "ds = map snd (takeWhile (\<lambda>(bt, _). bt \<le> th') Q1)"
  have mem1: "(f k, k, c, ts) \<in> set Q1 \<longleftrightarrow> (if k = k0 then c = c0 \<and> ts = ts0 else lat k = Some (c, ts) \<and> th < f k)" for k c ts
    using mem [of k c ts] by (auto simp: put(2))
  have "distinct (map fst ds)"
    using put(1) unfolding ds_def split window_queue_def by (simp add: comp_def distinct_map_filter)
  moreover have "(k, c, ts) \<in> set ds \<longleftrightarrow> (f k, k, c, ts) \<in> set Q1 \<and> f k \<le> th'" for k c ts
    using put(1) unfolding ds_def split window_queue_def by force
  ultimately have ds: "map_of ds k = Some (c, ts) \<longleftrightarrow> (f k, k, c, ts) \<in> set Q1 \<and> f k \<le> th'" for k c ts
    by (metis map_of_eq_Some_iff)
  have "emitted_last (outs @ map forward_pending ds) k = (if f k \<le> th' then (lat(k0 \<mapsto> (c0, ts0))) k else None)" for k
  proof (cases "map_of ds k")
    case None
    then have "\<not> ((f k, k, c, ts) \<in> set Q1 \<and> f k \<le> th')" for c ts
      using ds [of k c ts] by auto
    then have "k \<noteq> k0 \<or> th' < f k" "lat k = None \<or> k = k0 \<or> f k \<le> th \<or> th' < f k"
      using mem1 [of k] mem1 [of k "fst (the (lat k))" "snd (the (lat k))"] by (force, cases "lat k") (auto split: if_splits)
    then show ?thesis
      using None emi [of k] th \<open>distinct (map fst ds)\<close> by (auto simp: emitted_last_append)
  next
    case (Some x)
    then have "(f k, k, fst x, snd x) \<in> set Q1" "f k \<le> th'"
      using ds [of k "fst x" "snd x"] by simp_all
    then show ?thesis
      using Some mem1 [of k "fst x" "snd x"] \<open>distinct (map fst ds)\<close> by (auto simp: emitted_last_append split: if_splits)
  qed
  moreover have "window_queue f (dropWhile (\<lambda>(bt, _). bt \<le> th') Q1)"
    using put(1) unfolding split by (auto simp: window_queue_def sorted_filter distinct_map_filter)
  moreover have "(f k, k, c, ts) \<in> set (dropWhile (\<lambda>(bt, _). bt \<le> th') Q1) \<longleftrightarrow> (lat(k0 \<mapsto> (c0, ts0))) k = Some (c, ts) \<and> th' < f k" for k c ts
    unfolding split using mem1 [of k c ts] th by auto
  ultimately show ?thesis
    unfolding holds_back_def ds_def by blast
qed

lemma holds_back_length:
  assumes "holds_back f th lat Q emi"
  shows "length Q = card {k. lat k \<noteq> None \<and> th < f k}"
proof -
  have wq: "window_queue f Q" and mem: "\<And>k c ts. (f k, k, c, ts) \<in> set Q \<longleftrightarrow> lat k = Some (c, ts) \<and> th < f k"
    using assms unfolding holds_back_def by blast+
  have "(\<lambda>x. fst (snd x)) ` set Q = {k. lat k \<noteq> None \<and> th < f k}"
  proof (intro set_eqI iffI)
    fix k assume "k \<in> (\<lambda>x. fst (snd x)) ` set Q"
    then obtain bt c ts where "(bt, k, c, ts) \<in> set Q"
      by auto
    then show "k \<in> {k. lat k \<noteq> None \<and> th < f k}"
      using wq mem [of k c ts] by (fastforce simp: window_queue_def)
  next
    fix k assume "k \<in> {k. lat k \<noteq> None \<and> th < f k}"
    then obtain c ts where "(f k, k, c, ts) \<in> set Q"
      using mem [of k] by auto
    then show "k \<in> (\<lambda>x. fst (snd x)) ` set Q"
      by force
  qed
  then show ?thesis
    using wq distinct_card [of "map (\<lambda>x. fst (snd x)) Q"] by (simp add: window_queue_def)
qed

lemma suppress_window_step:
  assumes S: "serde_contract ks vk" "serde_contract vs vv" and p0: "wait_ok p0" "sp_max_records p0 = None" "sp_max_bytes p0 = None"
      "sp_buffer_time p0 = (\<lambda>k _. f k)"
    and h: "sup_keeps ks vk vs vv t s Q" "holds_back f (stream_time g - sp_wait p0) (latest g) Q (emitted_last outs)" "in_i64 (stream_time g)"
    and i: "suppress_input_ok vk vs vv t p0 i"
  shows "\<exists>out s' Q'. suppress_step i (p0\<lparr>sp_observed_stream_time := stream_time g\<rparr>) s =
      Some (out, p0\<lparr>sp_observed_stream_time := stream_time (g @ [i])\<rparr>, s') \<and> in_i64 (stream_time (g @ [i])) \<and>
    sup_keeps ks vk vs vv t s' Q' \<and> holds_back f (stream_time (g @ [i]) - sp_wait p0) (latest (g @ [i])) Q' (emitted_last (outs @ out))"
proof -
  obtain rc r where ir: "i = (rc, r)"
    by (cases i)
  let ?p = "p0\<lparr>sp_observed_stream_time := stream_time g\<rparr>"
  have i': "suppress_input_ok vk vs vv t ?p (rc, r)"
    using i by (simp add: ir suppress_input_ok_def cong: option.case_cong)
  obtain k where k: "r_key r = Some k"
    using suppress_input_key [OF i'] by blast
  have stm: "stream_time (g @ [i]) = max (stream_time g) (r_timestamp r)" "latest (g @ [i]) = (latest g)(k \<mapsto> (r_value r, rc_timestamp rc))"
    using k by (simp_all add: stream_time_def latest_def ir)
  define th where "th = stream_time (g @ [i]) - sp_wait p0"
  define Q1 where "Q1 = pend_put k (f k) (r_value r) (rc_timestamp rc) Q"
  have "wait_ok ?p" "in_i64 (sp_observed_stream_time ?p)"
    using p0(1) h(3) by (simp_all add: wait_ok_def)
  from suppress_buffers [OF S h(1) i' this k]
  obtain s2 where s2: "sup_keeps ks vk vs vv t s2 (dropWhile (\<lambda>(bt, _). bt \<le> th) Q1)"
      "suppress_process rc r ?p s = Some (map forward_pending (map snd (takeWhile (\<lambda>(bt, _). bt \<le> th) Q1)),
        p0\<lparr>sp_observed_stream_time := stream_time (g @ [i])\<rparr>, s2)"
    using p0 by (auto simp: Q1_def th_def stm Let_def)
  have "in_i64 (stream_time (g @ [i]))"
    unfolding stm using h(3) i' by (simp add: suppress_input_ok_def max_def)
  moreover have "stream_time g - sp_wait p0 \<le> th"
    by (simp add: th_def stm)
  from holds_back_step [OF h(2) this Q1_def]
  have "holds_back f th (latest (g @ [i])) (dropWhile (\<lambda>(bt, _). bt \<le> th) Q1)
      (emitted_last (outs @ map forward_pending (map snd (takeWhile (\<lambda>(bt, _). bt \<le> th) Q1))))"
    by (simp only: stm)
  ultimately show ?thesis
    using s2 unfolding th_def ir fst_conv snd_conv by blast
qed

lemma suppress_by_key_time:
  assumes S: "serde_contract ks vk" "serde_contract vs vv" and p0: "wait_ok p0" "sp_max_records p0 = None" "sp_max_bytes p0 = None"
      "sp_buffer_time p0 = (\<lambda>k _. f k)" "sp_observed_stream_time p0 = i64_min"
    and inputs: "\<forall>i \<in> set inputs. suppress_input_ok vk vs vv topic p0 i"
  shows "\<exists>outs p s. proc_run suppress_step inputs p0 (sup_new name ks vs topic) = Some (outs, p, s) \<and>
    (\<forall>k. emitted_last outs k = (if f k \<le> stream_time inputs - sp_wait p0 then latest inputs k else None)) \<and>
    sup_len s = card {k. latest inputs k \<noteq> None \<and> stream_time inputs - sp_wait p0 < f k}"
proof -
  let ?keeps = "\<lambda>(n :: nat) g outs p s. n \<le> length inputs \<and> p = p0\<lparr>sp_observed_stream_time := stream_time g\<rparr> \<and> in_i64 (stream_time g) \<and>
    (\<exists>Q. sup_keeps ks vk vs vv topic s Q \<and> holds_back f (stream_time g - sp_wait p0) (latest g) Q (emitted_last outs))"
  have step: "\<exists>out p' s'. suppress_step i p s = Some (out, p', s') \<and> ?keeps (Suc n) (g @ [i]) (outs @ out) p' s'"
    if keeps: "?keeps n g outs p s" and i: "suppress_input_ok vk vs vv topic p0 i" and n: "n < length inputs" for n i g outs p s
  proof -
    obtain Q where p: "p = p0\<lparr>sp_observed_stream_time := stream_time g\<rparr>" and t: "in_i64 (stream_time g)"
      and Q: "sup_keeps ks vk vs vv topic s Q" "holds_back f (stream_time g - sp_wait p0) (latest g) Q (emitted_last outs)"
      using keeps by blast
    from suppress_window_step [OF S p0(1-4) Q t i] show ?thesis
      unfolding p using n Suc_leI by metis
  qed
  have "sup_keeps ks vk vs vv topic (sup_new name ks vs topic) []"
    unfolding sup_keeps_def by (intro conjI sup_new_ok)
  moreover have "holds_back f (stream_time [] - sp_wait p0) (latest []) [] (emitted_last [])"
    by (simp add: holds_back_def window_queue_def latest_def emitted_last_def)
  ultimately have "?keeps 0 [] [] p0 (sup_new name ks vs topic)"
    using p0(5) by (auto simp: stream_time_def in_i64_def)
  from proc_run_out_inv [where keeps = ?keeps and step = suppress_step and upd = "\<lambda>i g. g @ [i]" and N = "length inputs", OF step this inputs]
  obtain outs p s Q where run: "proc_run suppress_step inputs p0 (sup_new name ks vs topic) = Some (outs, p, s)"
    and Q: "sup_keeps ks vk vs vv topic s Q" "holds_back f (stream_time inputs - sp_wait p0) (latest inputs) Q (emitted_last outs)"
    by (auto simp: fold_snoc)
  have "sup_len s = length Q"
    using Q(1) sup_holds_size [of ks vk vs vv topic s Q] by (simp add: sup_keeps_def)
  then show ?thesis
    using run Q(2) holds_back_length [OF Q(2)] unfolding holds_back_def by auto
qed

text \<open>C20: Suppression until the window closes.  On a windowed table with a grace period and a buffer without caps, after any
  sequence of records the last change forwarded for a window is the last change of the window that arrived if stream
  time has reached the end of the window plus the grace, and nothing has been forwarded for the window otherwise; and
  exactly the open windows that have a change are buffered.\<close>

theorem suppress_until_window_closes:
  assumes S: "serde_contract ks vk" "serde_contract vs vv" and grace: "0 \<le> grace" "grace \<le> i64_max"
    and sd: "until_window_closes c = Some sd" "bf_max_records c = None" "bf_max_bytes c = None"
    and inputs: "\<forall>i \<in> set inputs. suppress_input_ok vk vs vv topic (ktable_suppress (Some grace) name sd) i"
  shows "\<exists>outs p s. proc_run suppress_step inputs (ktable_suppress (Some grace) name sd) (sup_new name ks vs topic) = Some (outs, p, s) \<and>
    (\<forall>k. emitted_last outs k = (if w_end (wd_window k) + grace \<le> stream_time inputs then latest inputs k else None)) \<and>
    sup_len s = card {k. latest inputs k \<noteq> None \<and> stream_time inputs < w_end (wd_window k) + grace}"
proof -
  let ?p = "ktable_suppress (Some grace) name sd"
  have "wait_ok ?p" "sp_max_records ?p = None" "sp_max_bytes ?p = None" "sp_buffer_time ?p = (\<lambda>k _. w_end (wd_window k))"
      "sp_observed_stream_time ?p = i64_min" and wait: "sp_wait ?p = grace"
    using grace sd by (auto simp: ktable_suppress_def sp_new_def until_window_closes_def wait_ok_def split: if_splits)
  from suppress_by_key_time [OF S this(1-5) inputs, of name] show ?thesis
    by (simp only: wait le_diff_eq diff_less_eq)
qed

definition window_rec :: "string \<Rightarrow> int \<Rightarrow> int \<Rightarrow> record_context \<times> (string windowed, int change) rec" where
  "window_rec k v ts = (\<lparr>rc_topic = ''in'', rc_partition = 0, rc_offset = 0, rc_timestamp = ts\<rparr>,
     rec_new (Some \<lparr>wd_key = k, wd_window = \<lparr>w_start = ts - ts mod 10, w_end = ts - ts mod 10 + 10\<rparr>\<rparr>) (change_update None v) ts)"

definition closing_inputs :: "(record_context \<times> (string windowed, int change) rec) list" where
  "closing_inputs = [window_rec ''a'' 1 5, window_rec ''b'' 7 6, window_rec ''a'' 2 8, window_rec ''a'' 3 12]"

definition window_suppressed :: "string windowed suppressed" where
  "window_suppressed = the (until_window_closes bf_unbounded)"

lemma suppress_until_window_closes_witness:
  "\<exists>outs p s. proc_run suppress_step closing_inputs (ktable_suppress (Some 2) ''sup'' window_suppressed)
        (sup_new ''sup'' (SessionWindowedSerde StringSerde) I64Serde ''t'') = Some (outs, p, s) \<and>
    emitted_last outs \<lparr>wd_key = ''a'', wd_window = \<lparr>w_start = 0, w_end = 10\<rparr>\<rparr> = Some (change_update None 2, 8) \<and>
    emitted_last outs \<lparr>wd_key = ''a'', wd_window = \<lparr>w_start = 10, w_end = 20\<rparr>\<rparr> = None"
proof -
  have sd: "until_window_closes bf_unbounded = Some window_suppressed" "bf_max_records bf_unbounded = None" "bf_max_bytes bf_unbounded = None"
    by (simp_all add: window_suppressed_def until_window_closes_def bf_unbounded_def)
  have "\<forall>i \<in> set closing_inputs. suppress_input_ok
      (\<lambda>x. utf8_valid (str_bytes (wd_key x)) \<and> in_i64 (w_start (wd_window x)) \<and> in_i64 (w_end (wd_window x))) I64Serde in_i64 ''t''
      (ktable_suppress (Some 2) ''sup'' window_suppressed) i"
    by (simp add: closing_inputs_def window_rec_def suppress_input_ok_def rec_new_def change_update_def pending_ok_def ktable_suppress_def
      sp_new_def window_suppressed_def until_window_closes_def bf_unbounded_def value_ok_def in_i64_def in_i32_def I64Serde_def i32_max_def str_bytes_def)
  from suppress_until_window_closes [OF session_string.serde_contract_axioms i64_serde.serde_contract_axioms _ _ sd this]
  obtain outs p s where "proc_run suppress_step closing_inputs (ktable_suppress (Some 2) ''sup'' window_suppressed)
        (sup_new ''sup'' (SessionWindowedSerde StringSerde) I64Serde ''t'') = Some (outs, p, s)"
      "\<And>k. emitted_last outs k = (if w_end (wd_window k) + 2 \<le> stream_time closing_inputs then latest closing_inputs k else None)"
    by auto
  moreover have "stream_time closing_inputs = 12" "latest closing_inputs \<lparr>wd_key = ''a'', wd_window = \<lparr>w_start = 0, w_end = 10\<rparr>\<rparr> = Some (change_update None 2, 8)"
    by (simp_all add: stream_time_def latest_def closing_inputs_def window_rec_def rec_new_def)
  ultimately show ?thesis
    by simp
qed

end
