(* ===== verification/Versioned_Store.thy ===== *)
theory Versioned_Store
  imports Byte_Store Serdes
begin

text \<open>
  \<^verbatim>\<open>store/versioned.rs\<close>: the versioned key-value store.  A key maps to a chain of versions ordered by
  \<^verbatim>\<open>validFrom\<close>; versions superseded at or below the retention horizon are evicted.

  The plain \<^verbatim>\<open>valid_from + 1\<close> and \<^verbatim>\<open>as_of + 1\<close> of the source overflow at \<^verbatim>\<open>i64::MAX\<close>: the operations return
  \<^term>\<open>None\<close> there (and where a stored value does not deserialize).

  The main lemmas compare a store with the complete history of its puts: for every instant at or above the
  horizon both answer alike, and the latest version is always the history's.  Where every write below the horizon was
  superseded, this history can be cut down to the timely writes.  Replaying the changelog
  rebuilds chains and stream time exactly, although dropped puts are never logged.
\<close>

section \<open>The store\<close>

type_synonym chain = "(int, bytes option) btree"

record 'v versioned_record =
  vr_value :: 'v
  vr_valid_from :: int
  vr_valid_to :: "int option"

record ('k, 'v) versioned_store =
  vs_name :: string
  vs_changelog_topic :: string
  vs_history_retention :: int
  vs_key_serde :: "'k serde"
  vs_value_serde :: "'v serde"
  vs_chains :: "(bytes, chain) btree"
  vs_observed_stream_time :: int
  vs_changelog :: "(bytes \<times> bytes option \<times> int) list"
  vs_logging :: bool

definition vs_new :: "string \<Rightarrow> int \<Rightarrow> 'k serde \<Rightarrow> 'v serde \<Rightarrow> string \<Rightarrow> ('k, 'v) versioned_store" where
  "vs_new name retention key_serde value_serde topic =
    \<lparr>vs_name = name, vs_changelog_topic = topic, vs_history_retention = retention,
     vs_key_serde = key_serde, vs_value_serde = value_serde, vs_chains = [],
     vs_observed_stream_time = i64_min, vs_changelog = [], vs_logging = True\<rparr>"

definition vs_horizon :: "('k, 'v) versioned_store \<Rightarrow> int" where
  "vs_horizon s = sat_sub (vs_observed_stream_time s) (vs_history_retention s)"

text \<open>\<^verbatim>\<open>chain.range((t + 1)..).next()\<close> and \<^verbatim>\<open>chain.range(..=t).next_back()\<close>.\<close>

definition next_above :: "int \<Rightarrow> chain \<Rightarrow> int option" where
  "next_above t chain = (case filter (\<lambda>(w, _). t + 1 \<le> w) chain of [] \<Rightarrow> None | (w, _) # _ \<Rightarrow> Some w)"

definition last_upto :: "int \<Rightarrow> chain \<Rightarrow> (int \<times> bytes option) option" where
  "last_upto t chain = (case filter (\<lambda>(w, _). w \<le> t) chain of [] \<Rightarrow> None | p # ps \<Rightarrow> Some (last (p # ps)))"

definition evict_below :: "int \<Rightarrow> chain \<Rightarrow> chain" where
  "evict_below h chain =
    (let times = map fst chain in
     foldl (\<lambda>c (from, nxt). if nxt \<le> h then bt_remove from c else c) chain (zip times (tl times)))"

definition vs_insert_raw ::
  "bytes \<Rightarrow> int \<Rightarrow> bytes option \<Rightarrow> ('k, 'v) versioned_store \<Rightarrow> (bool \<times> ('k, 'v) versioned_store) option" where
  "vs_insert_raw key valid_from value s =
    (let s1 = s\<lparr>vs_observed_stream_time := max (vs_observed_stream_time s) valid_from\<rparr>;
         h = vs_horizon s1;
         insert = (let chain = (case map_of (vs_chains s1) key of None \<Rightarrow> [] | Some c \<Rightarrow> c);
                       chain' = evict_below h (bt_insert valid_from value chain)
                   in s1\<lparr>vs_chains := bt_insert key chain' (vs_chains s1)\<rparr>)
     in case map_of (vs_chains s1) key of
          None \<Rightarrow> Some (True, insert)
        | Some chain \<Rightarrow>
            do { _ \<leftarrow> checked_i64 (valid_from + 1);
                 (case next_above valid_from chain of
                    Some n \<Rightarrow> if n \<le> h then Some (False, s1) else Some (True, insert)
                  | None \<Rightarrow> Some (True, insert)) })"

definition vs_apply_changelog_ts ::
  "bytes \<Rightarrow> bytes option \<Rightarrow> int \<Rightarrow> ('k, 'v) versioned_store \<Rightarrow> ('k, 'v) versioned_store option" where
  "vs_apply_changelog_ts key value timestamp s = map_option snd (vs_insert_raw key timestamp value s)"

definition vs_take_changelog_ts ::
  "('k, 'v) versioned_store \<Rightarrow> (bytes \<times> bytes option \<times> int option) list \<times> ('k, 'v) versioned_store" where
  "vs_take_changelog_ts s =
    (map (\<lambda>(k, v, ts). (k, v, Some ts)) (vs_changelog s), s\<lparr>vs_changelog := []\<rparr>)"

definition vs_take_changelog ::
  "('k, 'v) versioned_store \<Rightarrow> (bytes \<times> bytes option) list \<times> ('k, 'v) versioned_store" where
  "vs_take_changelog s = (map (\<lambda>(k, v, _). (k, v)) (vs_changelog s), s\<lparr>vs_changelog := []\<rparr>)"

definition vs_apply_changelog :: "bytes \<Rightarrow> bytes option \<Rightarrow> ('k, 'v) versioned_store \<Rightarrow> ('k, 'v) versioned_store" where
  "vs_apply_changelog key value s = s"

definition vs_set_logging :: "bool \<Rightarrow> ('k, 'v) versioned_store \<Rightarrow> ('k, 'v) versioned_store" where
  "vs_set_logging on s = s\<lparr>vs_logging := on\<rparr>"

definition vs_clear :: "('k, 'v) versioned_store \<Rightarrow> ('k, 'v) versioned_store" where
  "vs_clear s = s\<lparr>vs_chains := [], vs_changelog := [], vs_observed_stream_time := i64_min\<rparr>"

text \<open>Reads on the raw chain: \<^verbatim>\<open>(valid_from, valid_to, value bytes)\<close>.\<close>

definition chain_latest :: "chain \<Rightarrow> (int \<times> int option \<times> bytes) option" where
  "chain_latest chain =
    (if chain = [] then None
     else case last chain of (vf, Some raw) \<Rightarrow> Some (vf, None, raw) | (vf, None) \<Rightarrow> None)"

definition chain_as_of :: "int \<Rightarrow> chain \<Rightarrow> (int \<times> int option \<times> bytes) option option" where
  "chain_as_of t chain =
    (case last_upto t chain of
       None \<Rightarrow> Some None
     | Some (vf, None) \<Rightarrow> Some None
     | Some (vf, Some raw) \<Rightarrow> do { _ \<leftarrow> checked_i64 (t + 1); Some (Some (vf, next_above t chain, raw)) })"

definition chain_of :: "bytes \<Rightarrow> ('k, 'v) versioned_store \<Rightarrow> chain" where
  "chain_of kb s = (case map_of (vs_chains s) kb of None \<Rightarrow> [] | Some c \<Rightarrow> c)"

definition vs_iq_get :: "bytes \<Rightarrow> ('k, 'v) versioned_store \<Rightarrow> (int \<times> int option \<times> bytes) option" where
  "vs_iq_get kb s = Option.bind (map_of (vs_chains s) kb) chain_latest"

definition vs_iq_get_as_of :: "bytes \<Rightarrow> int \<Rightarrow> ('k, 'v) versioned_store \<Rightarrow> (int \<times> int option \<times> bytes) option option" where
  "vs_iq_get_as_of kb as_of s =
    (case map_of (vs_chains s) kb of None \<Rightarrow> Some None | Some chain \<Rightarrow> chain_as_of as_of chain)"

text \<open>Decoding a raw version, with the panic of \<^verbatim>\<open>expect\<close>.\<close>

definition vs_decode ::
  "('k, 'v) versioned_store \<Rightarrow> (int \<times> int option \<times> bytes) option \<Rightarrow> 'v versioned_record option option" where
  "vs_decode s r =
    (case r of
       None \<Rightarrow> Some None
     | Some (vf, vt, raw) \<Rightarrow>
         map_option (\<lambda>v. Some \<lparr>vr_value = v, vr_valid_from = vf, vr_valid_to = vt\<rparr>)
           (sd_de (vs_value_serde s) (vs_changelog_topic s) raw))"

definition vs_get :: "'k \<Rightarrow> ('k, 'v) versioned_store \<Rightarrow> 'v versioned_record option option" where
  "vs_get key s =
    (case map_of (vs_chains s) (sd_ser (vs_key_serde s) (vs_changelog_topic s) key) of
       None \<Rightarrow> Some None
     | Some chain \<Rightarrow> vs_decode s (chain_latest chain))"

definition vs_get_as_of :: "'k \<Rightarrow> int \<Rightarrow> ('k, 'v) versioned_store \<Rightarrow> 'v versioned_record option option" where
  "vs_get_as_of key as_of s =
    (case map_of (vs_chains s) (sd_ser (vs_key_serde s) (vs_changelog_topic s) key) of
       None \<Rightarrow> Some None
     | Some chain \<Rightarrow> Option.bind (chain_as_of as_of chain) (vs_decode s))"

definition vs_put :: "'k \<Rightarrow> 'v option \<Rightarrow> int \<Rightarrow> ('k, 'v) versioned_store \<Rightarrow> ('k, 'v) versioned_store option" where
  "vs_put key value timestamp s =
    (let kb = sd_ser (vs_key_serde s) (vs_changelog_topic s) key;
         vb = map_option (sd_ser (vs_value_serde s) (vs_changelog_topic s)) value
     in do { (inserted, s') \<leftarrow> vs_insert_raw kb timestamp vb s;
             Some (if inserted \<and> vs_logging s' then s'\<lparr>vs_changelog := vs_changelog s' @ [(kb, vb, timestamp)]\<rparr> else s') })"

definition vs_delete ::
  "'k \<Rightarrow> int \<Rightarrow> ('k, 'v) versioned_store \<Rightarrow> ('v versioned_record option \<times> ('k, 'v) versioned_store) option" where
  "vs_delete key timestamp s =
    do { prev \<leftarrow> vs_get_as_of key timestamp s;
         let kb = sd_ser (vs_key_serde s) (vs_changelog_topic s) key;
         (inserted, s') \<leftarrow> vs_insert_raw kb timestamp None s;
         Some (prev, if inserted \<and> vs_logging s' then s'\<lparr>vs_changelog := vs_changelog s' @ [(kb, None, timestamp)]\<rparr> else s') }"

section \<open>Snapshots\<close>

definition put_i64 :: "bytes \<Rightarrow> int \<Rightarrow> bytes" where
  "put_i64 buffer n = buffer @ i64_to_be n"

fun put_versions :: "bytes \<Rightarrow> (int \<times> bytes option) list \<Rightarrow> bytes option" where
  "put_versions buffer [] = Some buffer"
| "put_versions buffer ((vf, Some v) # vs) =
    do { b \<leftarrow> put_sized (put_i64 buffer vf @ [1]) v; put_versions b vs }"
| "put_versions buffer ((vf, None) # vs) = put_versions (put_i64 buffer vf @ [0]) vs"

fun put_chains :: "bytes \<Rightarrow> (bytes \<times> chain) list \<Rightarrow> bytes option" where
  "put_chains buffer [] = Some buffer"
| "put_chains buffer ((key, chain) # cs) =
    do { b \<leftarrow> put_sized buffer key;
         b' \<leftarrow> (if length chain \<le> u32_max then put_versions (put_u32 b (length chain)) chain else None);
         put_chains b' cs }"

definition vs_snapshot :: "('k, 'v) versioned_store \<Rightarrow> bytes option" where
  "vs_snapshot s =
    (if length (vs_chains s) \<le> u32_max
     then put_chains (put_u32 (put_i64 store_payload (vs_observed_stream_time s)) (length (vs_chains s))) (vs_chains s)
     else None)"

fun read_versions :: "nat \<Rightarrow> chain \<Rightarrow> chain reader" where
  "read_versions 0 chain = ok chain"
| "read_versions (Suc n) chain =
    and_then reader_i64 (\<lambda>vf. and_then reader_u8 (\<lambda>tag.
      if tag = 0 then read_versions n (bt_insert vf None chain)
      else if tag = 1 then and_then reader_sized (\<lambda>v. read_versions n (bt_insert vf (Some v) chain))
      else (\<lambda>_. Inl (SnapshotError (''unknown versioned store value tag '' @ show_nat (unat tag))))))"

fun read_chains :: "nat \<Rightarrow> (bytes, chain) btree \<Rightarrow> (bytes, chain) btree reader" where
  "read_chains 0 acc = ok acc"
| "read_chains (Suc n) acc =
    and_then reader_sized (\<lambda>key. and_then reader_u32 (\<lambda>count. and_then (read_versions count []) (\<lambda>chain.
      read_chains n (bt_insert key chain acc))))"

definition vs_restore_snapshot :: "bytes \<Rightarrow> ('k, 'v) versioned_store \<Rightarrow> ('k, 'v) versioned_store result" where
  "vs_restore_snapshot data s =
    map_sum id fst (and_then reader_store_version (\<lambda>_. and_then reader_i64 (\<lambda>observed. and_then reader_u32 (\<lambda>count.
      and_then (read_chains count []) (\<lambda>chains. and_then reader_finish (\<lambda>_.
        ok (s\<lparr>vs_chains := chains, vs_observed_stream_time := observed, vs_changelog := []\<rparr>)))))) data)"

section \<open>Interactive queries\<close>

datatype 'k versioned_query =
    VersionedKey "'k option" "int option"
  | MultiVersionedKey "'k option" "int option" "int option" bool
  | OtherVersionedQuery

datatype versioned_failure = VersionedKeyTypeMismatch | VersionedUnknownQueryType

datatype 'v versioned_answer = OneVersion "'v versioned_record option" | Versions "'v versioned_record list"

fun overlapping :: "int \<Rightarrow> int \<Rightarrow> chain \<Rightarrow> (int \<times> int option \<times> bytes) list" where
  "overlapping from to [] = []"
| "overlapping from to ((vf, value) # rest) =
    (let vt = (case rest of [] \<Rightarrow> None | (t, _) # _ \<Rightarrow> Some t) in
     case value of
       None \<Rightarrow> overlapping from to rest
     | Some raw \<Rightarrow>
         if vf \<le> to \<and> (case vt of None \<Rightarrow> True | Some t \<Rightarrow> from < t)
         then (vf, vt, raw) # overlapping from to rest else overlapping from to rest)"

fun decode_versions :: "('k, 'v) versioned_store \<Rightarrow> (int \<times> int option \<times> bytes) list \<Rightarrow> 'v versioned_record list option" where
  "decode_versions s [] = Some []"
| "decode_versions s ((vf, vt, raw) # rs) =
    do { v \<leftarrow> sd_de (vs_value_serde s) (vs_changelog_topic s) raw;
         rest \<leftarrow> decode_versions s rs;
         Some (\<lparr>vr_value = v, vr_valid_from = vf, vr_valid_to = vt\<rparr> # rest) }"

text \<open>\<^verbatim>\<open>iq2_execute\<close>: in the as-of branch the upper bound \<^verbatim>\<open>*t + 1\<close> is computed before the tombstone test.\<close>

definition vs_iq2_execute ::
  "'k versioned_query \<Rightarrow> ('k, 'v) versioned_store \<Rightarrow> (versioned_failure + 'v versioned_answer) option" where
  "vs_iq2_execute query s =
    (case query of
       VersionedKey None _ \<Rightarrow> Some (Inl VersionedKeyTypeMismatch)
     | VersionedKey (Some key) as_of \<Rightarrow>
        (case map_of (vs_chains s) (sd_ser (vs_key_serde s) (vs_changelog_topic s) key) of
           None \<Rightarrow> Some (Inr (OneVersion None))
         | Some chain \<Rightarrow>
            map_option (\<lambda>r. Inr (OneVersion r))
              (case as_of of
                 None \<Rightarrow> vs_decode s (chain_latest chain)
               | Some t \<Rightarrow>
                  (case last_upto t chain of
                     None \<Rightarrow> Some None
                   | Some (vf, value) \<Rightarrow>
                      do { _ \<leftarrow> checked_i64 (t + 1);
                           vs_decode s (map_option (\<lambda>raw. (vf, next_above t chain, raw)) value) })))
     | MultiVersionedKey None _ _ _ \<Rightarrow> Some (Inl VersionedKeyTypeMismatch)
     | MultiVersionedKey (Some key) from_ts to_ts descending \<Rightarrow>
        let from = (case from_ts of None \<Rightarrow> i64_min | Some t \<Rightarrow> t);
            to = (case to_ts of None \<Rightarrow> i64_max | Some t \<Rightarrow> t);
            chain = (case map_of (vs_chains s) (sd_ser (vs_key_serde s) (vs_changelog_topic s) key) of
                       None \<Rightarrow> [] | Some c \<Rightarrow> c)
        in map_option (\<lambda>rs. Inr (Versions (if descending then rev rs else rs)))
             (decode_versions s (overlapping from to chain))
     | OtherVersionedQuery \<Rightarrow> Some (Inl VersionedUnknownQueryType))"

section \<open>Chains\<close>

lemma last_upto_Some:
  assumes "bt_ok c" "last_upto t c = Some (w, x)"
  shows "map_of c w = Some x" "w \<le> t" "w < w' \<Longrightarrow> w' \<le> t \<Longrightarrow> map_of c w' = None"
proof -
  let ?f = "filter (\<lambda>(w, _). w \<le> t) c"
  have f: "bt_ok ?f" "?f \<noteq> []" "last ?f = (w, x)"
    using assms by (auto simp: last_upto_def split: list.splits)
  have m: "map_of ?f w' = (if w' \<le> t then map_of c w' else None)" for w'
    by (simp add: map_of_filter_key)
  show "map_of c w = Some x" "w \<le> t"
    using bt_last(1) [OF f(1,2)] f(3) m [of w] by (simp_all split: if_splits)
  show "map_of c w' = None" if "w < w'" "w' \<le> t"
    using bt_last(2) [OF f(1,2), of w'] f(3) m [of w'] that by (cases "map_of c w'") auto
qed

lemma last_upto_None: "last_upto t c = None \<Longrightarrow> w \<le> t \<Longrightarrow> map_of c w = None"
proof -
  assume "last_upto t c = None" "w \<le> t"
  then have "filter (\<lambda>(w, _). w \<le> t) c = []"
    by (simp add: last_upto_def split: list.splits)
  then show "map_of c w = None"
    using map_of_filter_key [of "\<lambda>w. w \<le> t" c] \<open>w \<le> t\<close> by (simp add: fun_eq_iff) metis
qed

lemma next_above_Some:
  assumes "bt_ok c" "next_above t c = Some w"
  shows "map_of c w \<noteq> None" "t < w" "t < w' \<Longrightarrow> w' < w \<Longrightarrow> map_of c w' = None"
proof -
  let ?f = "filter (\<lambda>(w, _). t + 1 \<le> w) c"
  have f: "bt_ok ?f" "?f \<noteq> []" "fst (hd ?f) = w"
    using assms by (auto simp: next_above_def split: list.splits)
  have m: "map_of ?f w' = (if t + 1 \<le> w' then map_of c w' else None)" for w'
    by (simp add: map_of_filter_key)
  show "map_of c w \<noteq> None" "t < w"
    using bt_hd(1) [OF f(1,2)] f(3) m [of w] by (auto split: if_splits)
  show "map_of c w' = None" if "t < w'" "w' < w"
    using bt_hd(2) [OF f(1,2), of w'] f(3) m [of w'] that by (cases "map_of c w'") auto
qed

lemma next_above_None: "next_above t c = None \<Longrightarrow> t < w \<Longrightarrow> map_of c w = None"
proof -
  assume "next_above t c = None" "t < w"
  then have "filter (\<lambda>(w, _). t + 1 \<le> w) c = []"
    by (simp add: next_above_def split: list.splits prod.splits)
  then show "map_of c w = None"
    using map_of_filter_key [of "\<lambda>w. t + 1 \<le> w" c] \<open>t < w\<close> by (simp add: fun_eq_iff) (metis zless_imp_add1_zle)
qed

lemma evict_fold:
  "bt_ok c \<Longrightarrow> bt_ok (foldl (\<lambda>c (from, nxt). if nxt \<le> h then bt_remove from c else c) c ps) \<and>
   (\<forall>w. map_of (foldl (\<lambda>c (from, nxt). if nxt \<le> h then bt_remove from c else c) c ps) w =
      (if \<exists>n. (w, n) \<in> set ps \<and> n \<le> h then None else map_of c w))"
proof (induction ps arbitrary: c)
  case (Cons p ps)
  obtain a b where p: "p = (a, b)" by force
  show ?case
    using Cons.IH [of "if b \<le> h then bt_remove a c else c"] Cons.prems by (auto simp: p)
qed simp

lemma zip_tl_sorted:
  "sorted_wrt (<) ts \<Longrightarrow> (a, b) \<in> set (zip ts (tl ts)) \<Longrightarrow> a < b \<and> b \<in> set ts"
proof (induction ts)
  case (Cons t ts)
  then show ?case
    by (cases ts) auto
qed simp

lemma evict_below:
  assumes "bt_ok c"
  shows "bt_ok (evict_below h c)"
    and "map_of (evict_below h c) w = map_of c w \<or>
         map_of (evict_below h c) w = None \<and> (\<exists>n. w < n \<and> n \<le> h \<and> map_of c n \<noteq> None)"
proof -
  let ?ts = "map fst c"
  have e: "bt_ok (evict_below h c)"
    "map_of (evict_below h c) w = (if \<exists>n. (w, n) \<in> set (zip ?ts (tl ?ts)) \<and> n \<le> h then None else map_of c w)" for w
    using evict_fold [OF assms, of h "zip ?ts (tl ?ts)"] by (simp_all add: evict_below_def Let_def)
  show "bt_ok (evict_below h c)"
    by (fact e)
  show "map_of (evict_below h c) w = map_of c w \<or>
         map_of (evict_below h c) w = None \<and> (\<exists>n. w < n \<and> n \<le> h \<and> map_of c n \<noteq> None)"
  proof (cases "\<exists>n. (w, n) \<in> set (zip ?ts (tl ?ts)) \<and> n \<le> h")
    case True
    then obtain n where n: "(w, n) \<in> set (zip ?ts (tl ?ts))" "n \<le> h"
      by blast
    have "w < n" "n \<in> set ?ts"
      using zip_tl_sorted [OF _ n(1)] assms by (auto simp: bt_ok_def)
    then show ?thesis
      using n(2) e(2) [of w] True by (auto simp: map_of_eq_None_iff)
  qed (use e(2) [of w] in auto)
qed

section \<open>A store against its history\<close>

text \<open>A history gives, per key, the value put at each instant (an inner \<^term>\<open>None\<close> is a tombstone).\<close>

type_synonym history = "bytes \<Rightarrow> int \<Rightarrow> bytes option option"

definition superseded :: "(int \<Rightarrow> 'a option) \<Rightarrow> int \<Rightarrow> int \<Rightarrow> bool" where
  "superseded f h w \<longleftrightarrow> (\<exists>w'. w < w' \<and> w' \<le> h \<and> f w' \<noteq> None)"

text \<open>The chain agrees with the history except where the history itself has a later version at or below
  the horizon.\<close>

definition agrees :: "chain \<Rightarrow> (int \<Rightarrow> bytes option option) \<Rightarrow> int \<Rightarrow> bool" where
  "agrees c f h \<longleftrightarrow> bt_ok c \<and> (\<forall>w. map_of c w \<noteq> None \<longrightarrow> f w \<noteq> None) \<and>
     (\<forall>w. map_of c w = f w \<or> superseded f h w)"

lemma superseded_mono:
  "superseded f h w \<Longrightarrow> h \<le> h' \<Longrightarrow> (\<And>x. f x \<noteq> None \<Longrightarrow> g x \<noteq> None) \<Longrightarrow> superseded g h' w"
  unfolding superseded_def by (meson order_trans)

lemma agrees_last_upto:
  assumes "agrees c f h" "h \<le> t"
  shows "last_upto t c = Some (w, x) \<longleftrightarrow> f w = Some x \<and> w \<le> t \<and> (\<forall>w'. w < w' \<longrightarrow> w' \<le> t \<longrightarrow> f w' = None)"
    (is "?l \<longleftrightarrow> ?r")
proof
  assume l: ?l
  have ok: "bt_ok c"
    using assms(1) by (simp add: agrees_def)
  have above: "f w' = None" if "w < w'" "w' \<le> t" for w'
  proof (rule ccontr)
    assume "f w' \<noteq> None"
    define g where "g = Max {x. w < x \<and> x \<le> t \<and> f x \<noteq> None}"
    let ?S = "{x. w < x \<and> x \<le> t \<and> f x \<noteq> None}"
    have fin: "finite ?S"
      by (rule finite_subset [of _ "{w..t}"]) auto
    have "g \<in> ?S"
      unfolding g_def using Max_in [OF fin] that \<open>f w' \<noteq> None\<close> by blast
    moreover have "map_of c g = None"
      using last_upto_Some(3) [OF ok l, of g] calculation by simp
    ultimately have "superseded f h g"
      using assms(1) unfolding agrees_def by force
    then obtain y where "g < y" "y \<le> h" "f y \<noteq> None"
      unfolding superseded_def by blast
    then have "y \<in> ?S"
      using \<open>g \<in> ?S\<close> assms(2) by auto
    then show False
      using Max_ge [OF fin, of y] \<open>g < y\<close> by (simp add: g_def)
  qed
  moreover have "f w = Some x"
    using above assms last_upto_Some(1,2) [OF ok l] unfolding agrees_def superseded_def
    by (metis order_trans)
  ultimately show ?r
    using last_upto_Some(2) [OF ok l] by blast
next
  assume r: ?r
  have ok: "bt_ok c"
    using assms(1) by (simp add: agrees_def)
  have "\<not> superseded f h w"
    using r assms(2) unfolding superseded_def by (meson order_trans)
  then have cw: "map_of c w = Some x"
    using r assms(1) unfolding agrees_def by metis
  show ?l
  proof (cases "last_upto t c")
    case None
    then show ?thesis
      using last_upto_None [OF None, of w] r cw by simp
  next
    case (Some p)
    obtain w' x' where p: "p = (w', x')" by force
    note s = last_upto_Some [OF ok Some [unfolded p]]
    have "f w' \<noteq> None"
      using s(1) assms(1) unfolding agrees_def by auto
    have "\<not> w < w'"
      using conjunct2 [OF conjunct2 [OF r], rule_format, of w'] s(2) \<open>f w' \<noteq> None\<close> by blast
    moreover have "\<not> w' < w"
    proof
      assume "w' < w"
      then have "map_of c w = None"
        using r by (intro s(3)) simp_all
      then show False
        using cw by simp
    qed
    ultimately have "w' = w"
      by simp
    then show ?thesis
      using Some p s(1) cw by simp
  qed
qed

lemma agrees_next_above:
  assumes "agrees c f h" "h \<le> t"
  shows "next_above t c = Some w \<longleftrightarrow> t < w \<and> f w \<noteq> None \<and> (\<forall>w'. t < w' \<longrightarrow> w' < w \<longrightarrow> f w' = None)"
proof -
  have ok: "bt_ok c"
    using assms(1) by (simp add: agrees_def)
  have eq: "map_of c w = f w" if "t < w" for w
    using that assms unfolding agrees_def superseded_def by (metis less_le_trans not_less_iff_gr_or_eq order_less_trans)
  show ?thesis
  proof
    assume l: "next_above t c = Some w"
    then show "t < w \<and> f w \<noteq> None \<and> (\<forall>w'. t < w' \<longrightarrow> w' < w \<longrightarrow> f w' = None)"
      using next_above_Some [OF ok l] eq by metis
  next
    assume r: "t < w \<and> f w \<noteq> None \<and> (\<forall>w'. t < w' \<longrightarrow> w' < w \<longrightarrow> f w' = None)"
    show "next_above t c = Some w"
    proof (cases "next_above t c")
      case None
      then show ?thesis
        using next_above_None [OF None] eq r by metis
    next
      case (Some w')
      note s = next_above_Some [OF ok Some]
      then show ?thesis
        using Some r eq by (metis linorder_less_linear)
    qed
  qed
qed

definition vs_inv :: "('k, 'v) versioned_store \<Rightarrow> history \<Rightarrow> bool" where
  "vs_inv s H \<longleftrightarrow> bt_ok (vs_chains s) \<and> 0 \<le> vs_history_retention s \<and> in_i64 (vs_observed_stream_time s) \<and>
     (\<forall>kb. agrees (chain_of kb s) (H kb) (vs_horizon s)) \<and>
     (\<forall>kb w. map_of (chain_of kb s) w \<noteq> None \<longrightarrow> w \<le> vs_observed_stream_time s) \<and>
     (\<forall>kb w. H kb w \<noteq> None \<longrightarrow> w \<le> vs_observed_stream_time s) \<and>
     (\<forall>kb. map_of (vs_chains s) kb \<noteq> Some [])"

definition hist_put :: "bytes \<Rightarrow> int \<Rightarrow> bytes option \<Rightarrow> history \<Rightarrow> history" where
  "hist_put kb t v H = H(kb := (H kb)(t \<mapsto> v))"

lemma agrees_mono:
  "agrees c f h \<Longrightarrow> h \<le> h' \<Longrightarrow> agrees c f h'"
  unfolding agrees_def using superseded_mono by blast

lemma agrees_insert:
  assumes "agrees c f h"
  shows "agrees (evict_below h (bt_insert t v c)) (f(t \<mapsto> v)) h"
proof -
  let ?c = "bt_insert t v c" and ?f = "f(t \<mapsto> v)"
  have ok: "bt_ok ?c"
    using assms by (simp add: agrees_def)
  have dom: "map_of ?c w \<noteq> None \<Longrightarrow> ?f w \<noteq> None" for w
    using assms by (auto simp: agrees_def)
  have sup: "superseded f h w \<Longrightarrow> superseded ?f h w" for w
    by (erule superseded_mono) auto
  have "map_of (evict_below h ?c) w = ?f w \<or> superseded ?f h w" for w
  proof -
    have "map_of ?c w = ?f w \<or> superseded ?f h w"
      using assms sup by (auto simp: agrees_def)
    moreover have "superseded ?f h w" if "\<exists>n. w < n \<and> n \<le> h \<and> map_of ?c n \<noteq> None"
      using that dom unfolding superseded_def by blast
    ultimately show ?thesis
      using evict_below(2) [OF ok, of h w] by metis
  qed
  moreover have "map_of (evict_below h ?c) w \<noteq> None \<Longrightarrow> ?f w \<noteq> None" for w
    using evict_below(2) [OF ok, of h w] dom by metis
  ultimately show ?thesis
    using evict_below(1) [OF ok] by (simp add: agrees_def)
qed

lemma agrees_drop:
  assumes "agrees c f h" "next_above t c = Some n" "n \<le> h"
  shows "agrees c (f(t \<mapsto> v)) h"
proof -
  have n: "map_of c n \<noteq> None" "t < n"
    using next_above_Some [OF _ assms(2)] assms(1) by (auto simp: agrees_def)
  then have "f n \<noteq> None"
    using assms(1) unfolding agrees_def by blast
  then have "superseded (f(t \<mapsto> v)) h t"
    using n assms(3) by (auto simp: superseded_def)
  moreover have "superseded f h w \<Longrightarrow> superseded (f(t \<mapsto> v)) h w" for w
    by (erule superseded_mono) auto
  ultimately show ?thesis
    using assms(1) unfolding agrees_def by auto
qed

lemma evict_keeps_nonempty:
  assumes "bt_ok c" "c \<noteq> []"
  shows "evict_below h c \<noteq> []"
proof -
  let ?w = "fst (last c)"
  have "map_of c n = None" if "?w < n" for n
    using bt_last(2) [OF assms, of n] that by (cases "map_of c n") auto
  then have "map_of (evict_below h c) ?w = map_of c ?w"
    using evict_below(2) [OF assms(1), of h ?w] by auto
  then show ?thesis
    using bt_last(1) [OF assms] by auto
qed

lemma vs_insert_raw_inv:
  assumes inv: "vs_inv s H" and t: "in_i64 t" "t < i64_max"
  shows "\<exists>b s'. vs_insert_raw kb t v s = Some (b, s') \<and> vs_inv s' (hist_put kb t v H) \<and> (\<not> b \<longrightarrow> s' = s) \<and>
    vs_changelog s' = vs_changelog s \<and> vs_logging s' = vs_logging s \<and> vs_key_serde s' = vs_key_serde s \<and>
    vs_value_serde s' = vs_value_serde s \<and> vs_changelog_topic s' = vs_changelog_topic s"
proof -
  define s1 where "s1 = s\<lparr>vs_observed_stream_time := max (vs_observed_stream_time s) t\<rparr>"
  define h where "h = vs_horizon s1"
  define c where "c = chain_of kb s"
  define s2 where "s2 = s1\<lparr>vs_chains := bt_insert kb (evict_below h (bt_insert t v c)) (vs_chains s1)\<rparr>"
  have obs: "in_i64 (vs_observed_stream_time s1)" "vs_observed_stream_time s \<le> vs_observed_stream_time s1" "t \<le> vs_observed_stream_time s1"
    using inv t by (auto simp: vs_inv_def s1_def max_def)
  have h: "vs_horizon s \<le> h" "h \<le> vs_observed_stream_time s1"
    using inv obs by (auto simp: h_def vs_horizon_def s1_def vs_inv_def sat_sub_mono intro: sat_sub_le)
  have ag: "agrees (chain_of k s) (H k) h" for k
    using inv h(1) by (auto simp: vs_inv_def intro: agrees_mono)
  have bound: "map_of (chain_of k s) w \<noteq> None \<Longrightarrow> w \<le> vs_observed_stream_time s" "H k w \<noteq> None \<Longrightarrow> w \<le> vs_observed_stream_time s" for k w
    using inv by (auto simp: vs_inv_def)
  have okc: "bt_ok (bt_insert t v c)"
    using ag [of kb] by (simp add: agrees_def c_def)
  have ins_inv: "vs_inv s2 (hist_put kb t v H)"
  proof -
    have c2: "chain_of k s2 = (if k = kb then evict_below h (bt_insert t v c) else chain_of k s)" for k
      by (simp add: chain_of_def s2_def s1_def)
    have "agrees (chain_of k s2) (hist_put kb t v H k) h" for k
      using ag [of k] agrees_insert [OF ag [of kb], of t v] by (simp add: c2 hist_put_def c_def)
    moreover have "w \<le> vs_observed_stream_time s2" if "map_of (chain_of k s2) w \<noteq> None" for k w
    proof -
      have "map_of (chain_of k s) w \<noteq> None \<or> k = kb \<and> w = t"
        using that evict_below(2) [OF okc, of h w] by (cases "k = kb"; cases "w = t") (auto simp: c2 c_def)
      then show ?thesis
        using bound(1) [of k w] obs by (auto simp: s2_def)
    qed
    moreover have "w \<le> vs_observed_stream_time s2" if "hist_put kb t v H k w \<noteq> None" for k w
      using that bound(2) [of k w] obs by (auto simp: s2_def hist_put_def split: if_splits)
    moreover have "evict_below h (bt_insert t v c) \<noteq> []"
      using okc by (rule evict_keeps_nonempty) (cases c; auto split: if_splits)
    ultimately show ?thesis
      using inv obs(1) unfolding vs_inv_def by (simp add: s2_def s1_def h_def vs_horizon_def)
  qed
  have chk: "in_i64 (t + 1)"
    using t by (simp add: in_i64_def)
  show ?thesis
  proof (cases "map_of (vs_chains s) kb")
    case None
    then have "vs_insert_raw kb t v s = Some (True, s2)"
      by (simp add: vs_insert_raw_def Let_def s1_def s2_def h_def c_def chain_of_def)
    then show ?thesis
      using ins_inv by (intro exI [of _ True] exI [of _ s2]) (simp add: s2_def s1_def)
  next
    case (Some c0)
    then have c0: "c = c0"
      by (simp add: c_def chain_of_def)
    show ?thesis
    proof (cases "\<exists>n. next_above t c = Some n \<and> n \<le> h")
      case True
      then obtain n where n: "next_above t c = Some n" "n \<le> h"
        by blast
      have "vs_insert_raw kb t v s = Some (False, s1)"
        using Some n chk c0 by (simp add: checked_i64_def vs_insert_raw_def Let_def s1_def h_def)
      moreover have "s1 = s"
      proof -
        have "t < n" "map_of c n \<noteq> None"
          using next_above_Some [OF _ n(1)] ag [of kb] by (auto simp: agrees_def c_def)
        then have "t < vs_observed_stream_time s"
          using inv by (force simp: vs_inv_def c_def)
        then show ?thesis
          by (simp add: s1_def)
      qed
      moreover have "vs_inv s (hist_put kb t v H)"
      proof -
        have "agrees (chain_of k s) (hist_put kb t v H k) (vs_horizon s)" for k
          using ag [of k] agrees_drop [OF ag [of kb], of t n v] n h_def calculation(2)
          by (simp add: hist_put_def c_def)
        moreover have "w \<le> vs_observed_stream_time s" if "hist_put kb t v H k w \<noteq> None" for k w
          using that bound(2) [of k w] obs \<open>s1 = s\<close> by (auto simp: hist_put_def split: if_splits)
        ultimately show ?thesis
          using inv unfolding vs_inv_def by blast
      qed
      ultimately show ?thesis
        by (intro exI [of _ False] exI [of _ s]) simp
    next
      case False
      then have "vs_insert_raw kb t v s = Some (True, s2)"
        using Some chk c0 by (auto simp: checked_i64_def vs_insert_raw_def Let_def s1_def s2_def h_def c_def split: option.splits)
      then show ?thesis
        using ins_inv by (intro exI [of _ True] exI [of _ s2]) (simp add: s2_def s1_def)
    qed
  qed
qed


section \<open>Runs and the complete history\<close>

datatype ('k, 'v) versioned_op = VPut 'k "'v option" int | VDelete 'k int

fun vs_exec :: "('k, 'v) versioned_op \<Rightarrow> ('k, 'v) versioned_store \<Rightarrow> ('k, 'v) versioned_store option" where
  "vs_exec (VPut k v t) s = vs_put k v t s"
| "vs_exec (VDelete k t) s = map_option snd (vs_delete k t s)"

fun vs_run :: "('k, 'v) versioned_op list \<Rightarrow> ('k, 'v) versioned_store \<Rightarrow> ('k, 'v) versioned_store option" where
  "vs_run [] s = Some s"
| "vs_run (op # ops) s = Option.bind (vs_exec op s) (vs_run ops)"

text \<open>The specification: the history of a key maps an instant to the value written there last (a tombstone
  is \<^term>\<open>Some None\<close>), and never forgets.\<close>

fun op_key :: "('k, 'v) versioned_op \<Rightarrow> 'k" where
  "op_key (VPut k v t) = k"
| "op_key (VDelete k t) = k"

fun op_time :: "('k, 'v) versioned_op \<Rightarrow> int" where
  "op_time (VPut k v t) = t"
| "op_time (VDelete k t) = t"

fun op_value :: "('k, 'v) versioned_op \<Rightarrow> 'v option" where
  "op_value (VPut k v t) = v"
| "op_value (VDelete k t) = None"

definition history_of :: "('k, 'v) versioned_op list \<Rightarrow> 'k \<Rightarrow> int \<Rightarrow> 'v option option" where
  "history_of ops = foldl (\<lambda>H op. H(op_key op := (H (op_key op))(op_time op \<mapsto> op_value op))) (\<lambda>_. Map.empty) ops"

text \<open>What a history answers at an instant: the last version at or before it, valid until the next one.\<close>

definition answers :: "(int \<Rightarrow> 'v option option) \<Rightarrow> int \<Rightarrow> 'v versioned_record option \<Rightarrow> bool" where
  "answers f t r \<longleftrightarrow>
    (case r of
       None \<Rightarrow> (\<forall>w \<le> t. f w = None) \<or> (\<exists>w \<le> t. f w = Some None \<and> (\<forall>w'. w < w' \<longrightarrow> w' \<le> t \<longrightarrow> f w' = None))
     | Some rec \<Rightarrow>
         vr_valid_from rec \<le> t \<and> f (vr_valid_from rec) = Some (Some (vr_value rec)) \<and>
         (\<forall>w'. vr_valid_from rec < w' \<longrightarrow> w' \<le> t \<longrightarrow> f w' = None) \<and>
         (case vr_valid_to rec of
            None \<Rightarrow> \<forall>w > t. f w = None
          | Some n \<Rightarrow> t < n \<and> f n \<noteq> None \<and> (\<forall>w. t < w \<longrightarrow> w < n \<longrightarrow> f w = None)))"

text \<open>Every version on a chain has an \<^verbatim>\<open>i64\<close> time and deserializes.\<close>

definition versions_ok :: "('v \<Rightarrow> bool) \<Rightarrow> ('k, 'v) versioned_store \<Rightarrow> bool" where
  "versions_ok vv s \<longleftrightarrow>
    (\<forall>kb w x. map_of (chain_of kb s) w = Some x \<longrightarrow>
       in_i64 w \<and> (\<forall>raw. x = Some raw \<longrightarrow> (\<exists>v. vv v \<and> raw = sd_ser (vs_value_serde s) (vs_changelog_topic s) v)))"

lemma vs_insert_raw_versions:
  assumes ins: "vs_insert_raw kb t v s = Some (b, s')" and ok: "bt_ok (chain_of kb s)"
    and x: "map_of (chain_of k s') w = Some x"
  shows "map_of (chain_of k s) w = Some x \<or> k = kb \<and> w = t \<and> x = v"
proof -
  have "chain_of k s' = chain_of k s \<or> k = kb \<and> (\<exists>h. chain_of k s' = evict_below h (bt_insert t v (chain_of k s)))"
    using ins
    by (auto simp: vs_insert_raw_def Let_def chain_of_def checked_i64_def split: option.splits if_splits)
  then show ?thesis
  proof (elim disjE conjE exE)
    assume "chain_of k s' = chain_of k s"
    then show ?thesis
      using x by simp
  next
    fix h
    assume k: "k = kb" and c: "chain_of k s' = evict_below h (bt_insert t v (chain_of k s))"
    have "map_of (bt_insert t v (chain_of k s)) w = Some x"
      using x ok k c evict_below(2) [of "bt_insert t v (chain_of kb s)" h w] by (simp split: if_splits)
    then show ?thesis
      using k by (auto split: if_splits)
  qed
qed

lemma vs_insert_raw_changelog:
  "vs_insert_raw kb t v (s\<lparr>vs_changelog := l\<rparr>) =
   map_option (\<lambda>(b, s'). (b, s'\<lparr>vs_changelog := l\<rparr>)) (vs_insert_raw kb t v s)"
  by (auto simp: vs_insert_raw_def Let_def checked_i64_def vs_horizon_def split: option.splits)

fun vs_replay :: "(bytes \<times> bytes option \<times> int) list \<Rightarrow> ('k, 'v) versioned_store \<Rightarrow> ('k, 'v) versioned_store option" where
  "vs_replay [] s = Some s"
| "vs_replay ((k, v, t) # log) s = Option.bind (vs_apply_changelog_ts k v t s) (vs_replay log)"

lemma vs_replay_append: "vs_replay (l @ l') s = Option.bind (vs_replay l s) (vs_replay l')"
proof (induction l arbitrary: s)
  case (Cons e l)
  show ?case
    by (cases e; cases "vs_apply_changelog_ts (fst e) (fst (snd e)) (snd (snd e)) s") (simp_all add: Cons)
qed simp

text \<open>The invariant of a run from a fresh store: the byte-level invariant against a byte history, which is
  the image of the typed history, and the changelog rebuilds the store.\<close>

definition vs_run_inv ::
  "('k \<Rightarrow> bool) \<Rightarrow> ('v \<Rightarrow> bool) \<Rightarrow> ('k, 'v) versioned_store \<Rightarrow> ('k \<Rightarrow> int \<Rightarrow> 'v option option) \<Rightarrow> ('k, 'v) versioned_store \<Rightarrow> bool" where
  "vs_run_inv vk vv s0 H s \<longleftrightarrow>
     vs_key_serde s = vs_key_serde s0 \<and> vs_value_serde s = vs_value_serde s0 \<and>
     vs_changelog_topic s = vs_changelog_topic s0 \<and> vs_logging s \<and> versions_ok vv s \<and>
     vs_replay (vs_changelog s) s0 = Some (s\<lparr>vs_changelog := []\<rparr>) \<and>
     (\<forall>k w v. H k w = Some (Some v) \<longrightarrow> vv v) \<and>
     (\<exists>Hb. vs_inv s Hb \<and> (\<forall>k. vk k \<longrightarrow>
        Hb (sd_ser (vs_key_serde s0) (vs_changelog_topic s0) k) =
          map_option (map_option (sd_ser (vs_value_serde s0) (vs_changelog_topic s0))) \<circ> H k))"

lemma agrees_last_upto_None:
  assumes "agrees c f h" "h \<le> t" "last_upto t c = None" "w \<le> t"
  shows "f w = None"
proof (rule ccontr)
  let ?S = "{g. w \<le> g \<and> g \<le> t \<and> f g \<noteq> None}"
  assume "f w \<noteq> None"
  then have S: "finite ?S" "?S \<noteq> {}"
    using assms(4) by (auto intro: finite_subset [of _ "{w..t}"])
  define g where "g = Max ?S"
  have "g \<in> ?S"
    using Max_in [OF S] by (simp only: g_def)
  moreover have "f w' = None" if "g < w'" "w' \<le> t" for w'
    using Max_ge [OF S(1), of w', folded g_def] that \<open>g \<in> ?S\<close> by (cases "f w'") auto
  ultimately show False
    using agrees_last_upto [OF assms(1,2), of g] assms(3) by auto
qed

lemma agrees_next_above_None:
  assumes "agrees c f h" "h \<le> t" "next_above t c = None" "t < w"
  shows "f w = None"
proof (rule ccontr)
  let ?S = "{g. t < g \<and> g \<le> w \<and> f g \<noteq> None}"
  assume "f w \<noteq> None"
  then have S: "finite ?S" "?S \<noteq> {}"
    using assms(4) by (auto intro: finite_subset [of _ "{t..w}"])
  define g where "g = Min ?S"
  have "g \<in> ?S"
    using Min_in [OF S] by (simp only: g_def)
  moreover have "f w' = None" if "t < w'" "w' < g" for w'
    using Min_le [OF S(1), of w', folded g_def] that \<open>g \<in> ?S\<close> by (cases "f w'") auto
  ultimately show False
    using agrees_next_above [OF assms(1,2), of g] assms(3) by auto
qed

lemma vs_decode_ok:
  assumes "serde_contract (vs_value_serde s) vv" "vv v" "raw = sd_ser (vs_value_serde s) (vs_changelog_topic s) v"
  shows "vs_decode s (Some (vf, vt, raw)) = Some (Some \<lparr>vr_value = v, vr_valid_from = vf, vr_valid_to = vt\<rparr>)"
  using serde_contract.roundtrip [OF assms(1,2)] assms(3) by (simp add: vs_decode_def)

lemma vs_get_as_of_chain:
  "vs_get_as_of k t s =
   Option.bind (chain_as_of t (chain_of (sd_ser (vs_key_serde s) (vs_changelog_topic s) k) s)) (vs_decode s)"
  by (auto simp: vs_get_as_of_def chain_of_def chain_as_of_def last_upto_def vs_decode_def split: option.splits)

lemma vs_get_chain:
  "vs_get k s = vs_decode s (chain_latest (chain_of (sd_ser (vs_key_serde s) (vs_changelog_topic s) k) s))"
  by (auto simp: vs_get_def chain_of_def chain_latest_def vs_decode_def split: option.splits)

text \<open>A point read never panics below \<^verbatim>\<open>i64::MAX\<close>.\<close>

lemma vs_get_as_of_total:
  assumes "serde_contract (vs_value_serde s) vv" "versions_ok vv s" "in_i64 t" "t < i64_max" "\<forall>kb. bt_ok (chain_of kb s)"
  shows "\<exists>r. vs_get_as_of k t s = Some r"
proof -
  let ?c = "chain_of (sd_ser (vs_key_serde s) (vs_changelog_topic s) k) s"
  have i: "in_i64 (t + 1)"
    using assms by (simp add: in_i64_def)
  show ?thesis
  proof (cases "last_upto t ?c")
    case None
    then show ?thesis
      by (simp add: vs_get_as_of_chain chain_as_of_def vs_decode_def)
  next
    case (Some p)
    obtain w x where p: "p = (w, x)"
      by force
    show ?thesis
    proof (cases x)
      case None
      then show ?thesis
        using Some p by (simp add: vs_get_as_of_chain chain_as_of_def vs_decode_def)
    next
      case (Some raw)
      have "map_of ?c w = Some (Some raw)"
        using last_upto_Some(1) assms(5) \<open>last_upto t ?c = Some p\<close> p Some by blast
      then obtain v where "vv v" "raw = sd_ser (vs_value_serde s) (vs_changelog_topic s) v"
        using assms(2) unfolding versions_ok_def by blast
      note d = vs_decode_ok [OF assms(1) this]
      show ?thesis
        using \<open>last_upto t ?c = Some p\<close> p Some i d by (simp add: vs_get_as_of_chain chain_as_of_def checked_i64_def)
    qed
  qed
qed

definition op_ok :: "('k \<Rightarrow> bool) \<Rightarrow> ('v \<Rightarrow> bool) \<Rightarrow> ('k, 'v) versioned_op \<Rightarrow> bool" where
  "op_ok vk vv op \<longleftrightarrow> vk (op_key op) \<and> in_i64 (op_time op) \<and> op_time op < i64_max \<and> (\<forall>v. op_value op = Some v \<longrightarrow> vv v)"

lemma vs_logged_insert_inv:
  assumes inv: "vs_run_inv vk vv s0 H s" and ks: "serde_contract (vs_key_serde s0) vk"
    and op: "vk k" "in_i64 t" "t < i64_max" "\<forall>x. v = Some x \<longrightarrow> vv x"
    and kb: "kb = sd_ser (vs_key_serde s0) (vs_changelog_topic s0) k"
    and vb: "vb = map_option (sd_ser (vs_value_serde s0) (vs_changelog_topic s0)) v"
  shows "\<exists>b s1. vs_insert_raw kb t vb s = Some (b, s1) \<and>
    vs_run_inv vk vv s0 (H(k := (H k)(t \<mapsto> v)))
      (if b \<and> vs_logging s1 then s1\<lparr>vs_changelog := vs_changelog s1 @ [(kb, vb, t)]\<rparr> else s1)"
proof -
  note d = inv [unfolded vs_run_inv_def]
  obtain Hb where Hb: "vs_inv s Hb" and
    link: "\<And>k. vk k \<Longrightarrow> Hb (sd_ser (vs_key_serde s0) (vs_changelog_topic s0) k) =
          map_option (map_option (sd_ser (vs_value_serde s0) (vs_changelog_topic s0))) \<circ> H k"
    using d by blast
  obtain b s1 where ins: "vs_insert_raw kb t vb s = Some (b, s1)" and inv1: "vs_inv s1 (hist_put kb t vb Hb)" and
    drop: "\<not> b \<longrightarrow> s1 = s" and
    same: "vs_changelog s1 = vs_changelog s" "vs_logging s1 = vs_logging s" "vs_key_serde s1 = vs_key_serde s"
      "vs_value_serde s1 = vs_value_serde s" "vs_changelog_topic s1 = vs_changelog_topic s"
    using vs_insert_raw_inv [OF Hb op(2,3), of kb vb] by blast
  have ok: "bt_ok (chain_of kb s)"
    using Hb by (auto simp: vs_inv_def agrees_def)
  let ?s2 = "if b \<and> vs_logging s1 then s1\<lparr>vs_changelog := vs_changelog s1 @ [(kb, vb, t)]\<rparr> else s1"
  have chain: "chain_of k' ?s2 = chain_of k' s1" for k'
    by (simp add: chain_of_def)
  have sv: "vs_value_serde s = vs_value_serde s0" "vs_changelog_topic s = vs_changelog_topic s0" and
    ver: "map_of (chain_of k' s) w = Some x \<Longrightarrow>
       in_i64 w \<and> (\<forall>raw. x = Some raw \<longrightarrow> (\<exists>v. vv v \<and> raw = sd_ser (vs_value_serde s) (vs_changelog_topic s) v))" for k' w x
    using d unfolding versions_ok_def by blast+
  have "versions_ok vv ?s2"
    unfolding versions_ok_def chain
  proof (intro allI impI)
    fix k' w x
    assume "map_of (chain_of k' s1) w = Some x"
    then consider "map_of (chain_of k' s) w = Some x" | "w = t" "x = vb"
      using vs_insert_raw_versions [OF ins ok] by blast
    then show "in_i64 w \<and> (\<forall>raw. x = Some raw \<longrightarrow> (\<exists>v. vv v \<and> raw = sd_ser (vs_value_serde ?s2) (vs_changelog_topic ?s2) v))"
    proof cases
      case 1
      then show ?thesis
        using ver same by simp
    next
      case 2
      then show ?thesis
        using op(2,4) sv same vb by auto
    qed
  qed
  moreover have "vs_replay (vs_changelog ?s2) s0 = Some (?s2\<lparr>vs_changelog := []\<rparr>)"
    using d drop same ins
    by (simp add: vs_replay_append vs_apply_changelog_ts_def vs_insert_raw_changelog)
  moreover have "vs_inv ?s2 (hist_put kb t vb Hb)"
    using inv1 by (simp add: vs_inv_def chain vs_horizon_def)
  moreover have "hist_put kb t vb Hb (sd_ser (vs_key_serde s0) (vs_changelog_topic s0) k') =
      map_option (map_option (sd_ser (vs_value_serde s0) (vs_changelog_topic s0))) \<circ> (H(k := (H k)(t \<mapsto> v))) k'"
    if "vk k'" for k'
    using link [OF that] op(1) that serde_contract.ser_inj [OF ks op(1) that, of "vs_changelog_topic s0"] vb
    by (auto simp: hist_put_def kb fun_eq_iff)
  moreover have "\<forall>k' w x. (H(k := (H k)(t \<mapsto> v))) k' w = Some (Some x) \<longrightarrow> vv x"
    using d op(4) by (auto split: if_splits)
  ultimately have "vs_run_inv vk vv s0 (H(k := (H k)(t \<mapsto> v))) ?s2"
    using d same unfolding vs_run_inv_def by (intro conjI exI [of _ "hist_put kb t vb Hb"]) auto
  then show ?thesis
    using ins by blast
qed

lemma vs_exec_inv:
  assumes inv: "vs_run_inv vk vv s0 H s" and ks: "serde_contract (vs_key_serde s0) vk"
    and vs: "serde_contract (vs_value_serde s0) vv" and op: "op_ok vk vv op"
  shows "\<exists>s'. vs_exec op s = Some s' \<and> vs_run_inv vk vv s0 (H(op_key op := (H (op_key op))(op_time op \<mapsto> op_value op))) s'"
proof -
  have eqs: "vs_key_serde s = vs_key_serde s0" "vs_value_serde s = vs_value_serde s0" "vs_changelog_topic s = vs_changelog_topic s0"
    and ver: "versions_ok vv s" and ch: "\<forall>kb. bt_ok (chain_of kb s)"
    using inv by (auto simp: vs_run_inv_def vs_inv_def agrees_def)
  note step = vs_logged_insert_inv [OF inv ks _ _ _ _ refl refl]
  show ?thesis
  proof (cases op)
    case (VPut k v t)
    then show ?thesis
      using step [of k t v] op eqs by (auto simp: vs_put_def Let_def op_ok_def)
  next
    case (VDelete k t)
    obtain r where "vs_get_as_of k t s = Some r"
      using vs_get_as_of_total [of s vv t k] vs eqs ver ch op VDelete by (auto simp: op_ok_def)
    then show ?thesis
      using step [of k t None] op eqs VDelete by (auto simp: vs_delete_def Let_def op_ok_def)
  qed
qed

lemma vs_run_inv_run:
  assumes "vs_run_inv vk vv s0 H s" "serde_contract (vs_key_serde s0) vk" "serde_contract (vs_value_serde s0) vv"
    "\<forall>op \<in> set ops. op_ok vk vv op"
  shows "\<exists>s'. vs_run ops s = Some s' \<and>
    vs_run_inv vk vv s0 (foldl (\<lambda>H op. H(op_key op := (H (op_key op))(op_time op \<mapsto> op_value op))) H ops) s'"
  using assms
proof (induction ops arbitrary: s H)
  case (Cons op ops)
  obtain s1 where s1: "vs_exec op s = Some s1"
    and i1: "vs_run_inv vk vv s0 (H(op_key op := (H (op_key op))(op_time op \<mapsto> op_value op))) s1"
    using vs_exec_inv [OF Cons.prems(1-3), of op] Cons.prems(4) by auto
  show ?case
    using Cons.IH [OF i1 Cons.prems(2,3)] Cons.prems(4) s1 by (simp del: fun_upd_apply)
qed simp

lemma vs_new_inv: "0 \<le> ret \<Longrightarrow> vs_run_inv vk vv (vs_new n ret ks vs topic) (\<lambda>_. Map.empty) (vs_new n ret ks vs topic)"
  by (auto simp: vs_run_inv_def vs_new_def versions_ok_def chain_of_def vs_inv_def agrees_def in_i64_def fun_eq_iff
      intro!: exI [of _ "\<lambda>_. Map.empty"])

lemma vs_run_new:
  assumes "serde_contract ks vk" "serde_contract vs vv" "0 \<le> ret" "\<forall>op \<in> set ops. op_ok vk vv op"
  obtains s where "vs_run ops (vs_new n ret ks vs topic) = Some s"
    "vs_run_inv vk vv (vs_new n ret ks vs topic) (history_of ops) s"
  using vs_run_inv_run [OF vs_new_inv [OF assms(3), of vk vv n ks vs topic] _ _ assms(4)] assms(1,2)
  by (auto simp: history_of_def vs_new_def)

section \<open>Properties\<close>

lemma vs_get_as_of_answers:
  assumes inv: "vs_run_inv vk vv s0 H s" and ks: "serde_contract (vs_key_serde s0) vk"
    and vs: "serde_contract (vs_value_serde s0) vv" and k: "vk k"
    and t: "vs_horizon s \<le> t" "in_i64 t" "t < i64_max"
  shows "\<exists>r. vs_get_as_of k t s = Some r \<and> answers (H k) t r"
proof -
  let ?kb = "sd_ser (vs_key_serde s0) (vs_changelog_topic s0) k"
  let ?ser = "sd_ser (vs_value_serde s0) (vs_changelog_topic s0)"
  have eqs: "vs_key_serde s = vs_key_serde s0" "vs_value_serde s = vs_value_serde s0" "vs_changelog_topic s = vs_changelog_topic s0"
    and vals: "\<And>k w v. H k w = Some (Some v) \<Longrightarrow> vv v"
    using inv by (auto simp: vs_run_inv_def)
  obtain Hb where Hb: "vs_inv s Hb" and link: "Hb ?kb = map_option (map_option ?ser) \<circ> H k"
    using inv k unfolding vs_run_inv_def by blast
  let ?c = "chain_of ?kb s"
  have ag: "agrees ?c (Hb ?kb) (vs_horizon s)"
    using Hb by (simp add: vs_inv_def)
  have N: "Hb ?kb w = None \<longleftrightarrow> H k w = None" for w
    by (simp add: link)
  have i: "in_i64 (t + 1)"
    using t by (simp add: in_i64_def)
  have get: "vs_get_as_of k t s = Option.bind (chain_as_of t ?c) (vs_decode s)"
    by (simp add: vs_get_as_of_chain eqs)
  show ?thesis
  proof (cases "last_upto t ?c")
    case None
    then have "\<forall>w \<le> t. H k w = None"
      using agrees_last_upto_None [OF ag t(1)] N by blast
    then show ?thesis
      using None by (simp add: get chain_as_of_def vs_decode_def answers_def)
  next
    case (Some p)
    obtain w x where p: "p = (w, x)"
      by force
    have w: "Hb ?kb w = Some x" "w \<le> t" "\<And>w'. w < w' \<Longrightarrow> w' \<le> t \<Longrightarrow> H k w' = None"
      using agrees_last_upto [OF ag t(1), of w x] Some p N by auto
    then obtain y where y: "H k w = Some y" "x = map_option ?ser y"
      by (auto simp: link)
    show ?thesis
    proof (cases y)
      case None
      then show ?thesis
        using Some p w y by (auto simp: get chain_as_of_def vs_decode_def answers_def)
    next
      case (Some v)
      have "vs_decode s (Some (w, vt, ?ser v)) = Some (Some \<lparr>vr_value = v, vr_valid_from = w, vr_valid_to = vt\<rparr>)" for vt
        by (rule vs_decode_ok [of s vv]) (use vs eqs vals y Some in auto)
      then have "vs_get_as_of k t s = Some (Some \<lparr>vr_value = v, vr_valid_from = w, vr_valid_to = next_above t ?c\<rparr>)"
        using \<open>last_upto t ?c = Some p\<close> p y Some i by (simp add: get chain_as_of_def checked_i64_def)
      moreover have "case next_above t ?c of None \<Rightarrow> \<forall>w > t. H k w = None
          | Some n \<Rightarrow> t < n \<and> H k n \<noteq> None \<and> (\<forall>w. t < w \<longrightarrow> w < n \<longrightarrow> H k w = None)"
        using agrees_next_above_None [OF ag t(1)] agrees_next_above [OF ag t(1)] N by (simp split: option.splits)
      ultimately show ?thesis
        using w y Some by (simp add: answers_def)
    qed
  qed
qed

text \<open>The latest read is the read as of the last instant.\<close>

lemma chain_latest_as_of:
  assumes "bt_ok c" "\<And>w. map_of c w \<noteq> None \<Longrightarrow> w \<le> t" "in_i64 (t + 1)"
  shows "chain_as_of t c = Some (chain_latest c)"
proof (cases "c = []")
  case False
  have "w \<le> t" if "(w, x) \<in> set c" for w x
    using assms(2) [of w] bt_ok_map_of_iff [OF assms(1)] that by force
  then have "filter (\<lambda>(w, _). w \<le> t) c = c" "filter (\<lambda>(w, _). t + 1 \<le> w) c = []"
    by (fastforce simp: filter_id_conv filter_empty_conv)+
  moreover have "last_upto t c = Some (last c)"
    using calculation(1) False by (simp add: last_upto_def split: list.splits)
  ultimately show ?thesis
    using False assms(3)
    by (auto simp: chain_as_of_def chain_latest_def next_above_def checked_i64_def split: prod.splits option.splits)
qed (simp add: chain_as_of_def chain_latest_def last_upto_def)

lemma vs_get_eq_as_of:
  assumes inv: "vs_inv s Hb" and t: "vs_observed_stream_time s \<le> i64_max - 1"
  shows "vs_get k s = vs_get_as_of k (i64_max - 1) s"
proof -
  let ?c = "chain_of (sd_ser (vs_key_serde s) (vs_changelog_topic s) k) s"
  have "w \<le> i64_max - 1" if "map_of ?c w \<noteq> None" for w
  proof -
    have "w \<le> vs_observed_stream_time s"
      using inv that unfolding vs_inv_def by blast
    then show ?thesis
      using t by simp
  qed
  then have "chain_as_of (i64_max - 1) ?c = Some (chain_latest ?c)"
    using inv by (intro chain_latest_as_of) (auto simp: vs_inv_def agrees_def in_i64_def)
  then show ?thesis
    by (simp add: vs_get_chain vs_get_as_of_chain)
qed

lemma vs_insert_raw_time:
  "vs_insert_raw kb t v s = Some (b, s') \<Longrightarrow>
   vs_observed_stream_time s' = max (vs_observed_stream_time s) t \<and> vs_history_retention s' = vs_history_retention s"
  by (auto simp: vs_insert_raw_def Let_def checked_i64_def split: option.splits if_splits)

lemma vs_exec_time:
  "vs_exec op s = Some s' \<Longrightarrow>
   vs_observed_stream_time s' = max (vs_observed_stream_time s) (op_time op) \<and> vs_history_retention s' = vs_history_retention s"
  by (cases op) (auto simp: vs_put_def vs_delete_def Let_def bind_eq_Some_conv dest!: vs_insert_raw_time)

lemma vs_run_time:
  "vs_run ops s = Some s' \<Longrightarrow>
   vs_observed_stream_time s' = foldl max (vs_observed_stream_time s) (map op_time ops) \<and>
   vs_history_retention s' = vs_history_retention s"
  by (induction ops arbitrary: s) (auto simp: bind_eq_Some_conv dest!: vs_exec_time)

lemma foldl_max_less: "a < (m :: int) \<Longrightarrow> \<forall>x \<in> set xs. x < m \<Longrightarrow> foldl max a xs < m"
  by (induction xs arbitrary: a) auto

text \<open>The writes the store is documented to keep: those that are not below the horizon once stream time has taken them
  into account.\<close>

fun timely :: "int \<Rightarrow> int \<Rightarrow> ('k, 'v) versioned_op list \<Rightarrow> ('k, 'v) versioned_op list" where
  "timely ret obs [] = []"
| "timely ret obs (op # ops) =
    (let obs' = max obs (op_time op) in (if sat_sub obs' ret \<le> op_time op then [op] else []) @ timely ret obs' ops)"

text \<open>Every late write of the key is superseded at its arrival: among the instants \<open>seen\<close> written for the key before is a
  later one that is itself at or below the horizon.\<close>

fun late_superseded :: "int \<Rightarrow> 'k \<Rightarrow> int \<Rightarrow> int set \<Rightarrow> ('k, 'v) versioned_op list \<Rightarrow> bool" where
  "late_superseded ret k obs seen [] \<longleftrightarrow> True"
| "late_superseded ret k obs seen (op # ops) \<longleftrightarrow>
    (let obs' = max obs (op_time op); h = sat_sub obs' ret in
     (op_key op = k \<and> op_time op < h \<longrightarrow> (\<exists>w \<in> seen. op_time op < w \<and> w \<le> h)) \<and>
     late_superseded ret k obs' (if op_key op = k then insert (op_time op) seen else seen) ops)"

text \<open>Two histories that agree from a version at or below the horizon on answer alike above it.\<close>

definition agree_above :: "int \<Rightarrow> (int \<Rightarrow> 'v option option) \<Rightarrow> (int \<Rightarrow> 'v option option) \<Rightarrow> bool" where
  "agree_above h f g \<longleftrightarrow> f = g \<or> (\<exists>b \<le> h. f b \<noteq> None \<and> (\<forall>w \<ge> b. f w = g w))"

lemma agree_above_mono: "agree_above h f g \<Longrightarrow> h \<le> h' \<Longrightarrow> agree_above h' f g"
  unfolding agree_above_def using order_trans by blast

lemma agree_above_upd:
  assumes "agree_above h f g"
  shows "agree_above h (f(t \<mapsto> v)) (g(t \<mapsto> v))"
proof (cases "f = g")
  case False
  then obtain b where "b \<le> h" "f b \<noteq> None" "\<forall>w \<ge> b. f w = g w"
    using assms by (auto simp: agree_above_def)
  then show ?thesis
    unfolding agree_above_def by (intro disjI2 exI [of _ b]) simp
qed (simp add: agree_above_def)

lemma answers_agree:
  assumes ag: "agree_above h f g" and t: "h \<le> t" and r: "answers f t r"
  shows "answers g t r"
proof (cases "f = g")
  case False
  then obtain b where b: "b \<le> h" "f b \<noteq> None" and eq: "\<And>w. b \<le> w \<Longrightarrow> f w = g w"
    using ag by (auto simp: agree_above_def)
  have ge: "b \<le> w" if "w \<le> t" "\<forall>w'. w < w' \<longrightarrow> w' \<le> t \<longrightarrow> f w' = None" for w
    using that b t by (meson leI order_trans)
  show ?thesis
  proof (cases r)
    case None
    then obtain w where w: "w \<le> t" "f w = Some None" "\<forall>w'. w < w' \<longrightarrow> w' \<le> t \<longrightarrow> f w' = None"
      using r b t by (fastforce simp: answers_def)
    then show ?thesis
      using None eq ge [OF w(1,3)] by (auto simp: answers_def intro!: exI [of _ w])
  next
    case (Some x)
    then have x: "vr_valid_from x \<le> t" "\<forall>w'. vr_valid_from x < w' \<longrightarrow> w' \<le> t \<longrightarrow> f w' = None"
      using r by (simp_all add: answers_def)
    have bt: "b \<le> t" and bf: "b \<le> vr_valid_from x"
      using b t ge [OF x] by simp_all
    show ?thesis
      using r Some eq bt bf by (auto simp: answers_def split: option.splits)
  qed
qed (use r in simp)

lemma timely_agrees:
  fixes H T :: "'k \<Rightarrow> int \<Rightarrow> 'v option option"
  defines "put \<equiv> \<lambda>H (op :: ('k, 'v) versioned_op). H(op_key op := (H (op_key op))(op_time op \<mapsto> op_value op))"
  assumes "late_superseded ret k obs seen ops" "seen = dom (H k)" "agree_above (sat_sub obs ret) (H k) (T k)"
  shows "agree_above (sat_sub (foldl max obs (map op_time ops)) ret) (foldl put H ops k) (foldl put T (timely ret obs ops) k)"
  using assms(2-)
proof (induction ops arbitrary: obs seen H T)
  case (Cons op ops)
  let ?obs = "max obs (op_time op)"
  let ?h = "sat_sub ?obs ret" and ?t = "op_time op"
  have mono: "sat_sub obs ret \<le> ?h"
    by (rule sat_sub_mono) simp
  have put: "put H op k = (if op_key op = k then (H k)(?t \<mapsto> op_value op) else H k)" for H :: "'k \<Rightarrow> int \<Rightarrow> 'v option option"
    by (simp add: put_def)
  have seen: "(if op_key op = k then insert ?t seen else seen) = dom (put H op k)"
    using Cons.prems(2) by (simp add: put)
  have rest: "late_superseded ret k ?obs (if op_key op = k then insert ?t seen else seen) ops"
    using Cons.prems(1) by (simp add: Let_def)
  note above = agree_above_mono [OF Cons.prems(3) mono]
  have keep: "agree_above ?h (put H op k) (put T op k)"
    using above by (simp add: put agree_above_upd)
  have drop: "agree_above ?h (put H op k) (T k)" if late: "?t < ?h"
  proof (cases "op_key op = k")
    case True
    then obtain w where w: "H k w \<noteq> None" "?t < w" "w \<le> ?h"
      using Cons.prems(1,2) late by (auto simp: Let_def)
    show ?thesis
    proof (cases "H k = T k")
      case True
      then show ?thesis
        using w \<open>op_key op = k\<close> by (auto simp: agree_above_def put intro!: exI [of _ w])
    next
      case False
      then obtain b where b: "b \<le> sat_sub obs ret" "H k b \<noteq> None" "\<And>w. b \<le> w \<Longrightarrow> H k w = T k w"
        using Cons.prems(3) by (auto simp: agree_above_def)
      have "H k (max b w) \<noteq> None" "max b w \<le> ?h" "?t < max b w"
        using w b(1,2) mono by (auto simp: max_def)
      then show ?thesis
        using b(3) \<open>op_key op = k\<close> by (auto simp: agree_above_def put intro!: exI [of _ "max b w"])
    qed
  next
    case False
    then show ?thesis
      using above by (simp add: put)
  qed
  show ?case
  proof (cases "?h \<le> ?t")
    case True
    then show ?thesis
      using Cons.IH [OF rest, of "put H op" "put T op"] seen keep by (simp add: Let_def)
  next
    case False
    then show ?thesis
      using Cons.IH [OF rest, of "put H op" T] seen drop by (simp add: Let_def)
  qed
qed simp

text \<open>C4: The versioned store answers as the history of its timely writes.  Any sequence of puts and deletes, out of order and
  with tombstones, runs without a panic, and the horizon afterwards is observed stream time minus history retention.
  For every key whose late writes (those below the horizon at their arrival) were each superseded by a later version
  at or below the horizon, a read as of an instant at or above the horizon returns the version of the timely writes
  that was valid then, with the bounds of its validity, and \<^verbatim>\<open>get\<close> returns the latest version: the late writes are
  dropped, and eviction is invisible.  In particular this is every key that received no late write.\<close>

theorem versioned_store_answers_history:
  assumes "serde_contract ks vk" "serde_contract vs vv" "0 \<le> ret" "\<forall>op \<in> set ops. op_ok vk vv op"
  shows "\<exists>s. vs_run ops (vs_new n ret ks vs topic) = Some s \<and>
    vs_horizon s = sat_sub (foldl max i64_min (map op_time ops)) ret \<and>
    (\<forall>k. vk k \<and> late_superseded ret k i64_min {} ops \<longrightarrow>
       (\<forall>t. vs_horizon s \<le> t \<and> in_i64 t \<and> t < i64_max \<longrightarrow>
          (\<exists>r. vs_get_as_of k t s = Some r \<and> answers (history_of (timely ret i64_min ops) k) t r)) \<and>
       (\<exists>r. vs_get k s = Some r \<and> answers (history_of (timely ret i64_min ops) k) (i64_max - 1) r))"
proof -
  let ?s0 = "vs_new n ret ks vs topic" and ?T = "history_of (timely ret i64_min ops)"
  obtain s where s: "vs_run ops ?s0 = Some s" and inv: "vs_run_inv vk vv ?s0 (history_of ops) s"
    using assms by (rule vs_run_new)
  have sd: "serde_contract (vs_key_serde ?s0) vk" "serde_contract (vs_value_serde ?s0) vv"
    using assms(1,2) by (simp_all add: vs_new_def)
  obtain Hb where Hb: "vs_inv s Hb"
    using inv by (auto simp: vs_run_inv_def)
  have obs: "vs_observed_stream_time s = foldl max i64_min (map op_time ops)" "vs_history_retention s = ret"
    using vs_run_time [OF s] by (simp_all add: vs_new_def)
  then have lt: "vs_observed_stream_time s \<le> i64_max - 1"
    using foldl_max_less [of i64_min i64_max "map op_time ops"] assms(4) by (simp add: op_ok_def)
  have hor: "vs_horizon s = sat_sub (foldl max i64_min (map op_time ops)) ret"
    using obs by (simp add: vs_horizon_def)
  have hor_lt: "vs_horizon s \<le> i64_max - 1"
    using sat_sub_le [of ret "vs_observed_stream_time s"] Hb lt assms(3) obs(2) by (simp add: vs_horizon_def vs_inv_def)
  have read: "\<exists>r. vs_get_as_of k t s = Some r \<and> answers (?T k) t r"
    if k: "vk k" "late_superseded ret k i64_min {} ops" and t: "vs_horizon s \<le> t" "in_i64 t" "t < i64_max" for k t
  proof -
    have "agree_above (vs_horizon s) (history_of ops k) (?T k)"
      unfolding hor history_of_def by (rule timely_agrees [OF k(2)]) (simp_all add: agree_above_def)
    then show ?thesis
      using vs_get_as_of_answers [OF inv sd k(1)] t answers_agree by blast
  qed
  then have "\<exists>r. vs_get k s = Some r \<and> answers (?T k) (i64_max - 1) r" if "vk k" "late_superseded ret k i64_min {} ops" for k
    using read [OF that, of "i64_max - 1"] hor_lt vs_get_eq_as_of [OF Hb lt, of k] by (simp add: in_i64_def)
  with read show ?thesis
    using s hor by blast
qed

text \<open>A run with an out-of-order put, a superseded late put and a delete: at 15 the version of 10, and nothing after the
  delete.\<close>

abbreviation versioned_sample_ops :: "(string, int) versioned_op list" where
  "versioned_sample_ops \<equiv> [VPut ''a'' (Some 1) 10, VPut ''a'' (Some 3) 30, VPut ''a'' (Some 2) 20, VDelete ''a'' 40]"

abbreviation versioned_sample_new :: "(string, int) versioned_store" where
  "versioned_sample_new \<equiv> vs_new ''v'' 100 StringSerde I64Serde ''t''"

lemma versioned_sample_ok: "\<forall>op \<in> set versioned_sample_ops. op_ok (\<lambda>s. utf8_valid (str_bytes s)) in_i64 op"
  by (simp add: op_ok_def in_i64_def str_bytes_def)

definition versioned_late_ops :: "(string, int) versioned_op list" where
  "versioned_late_ops = versioned_sample_ops @ [VPut ''a'' (Some 5) 200, VPut ''a'' (Some 4) 35]"

lemma versioned_late_facts:
  "timely 100 i64_min versioned_late_ops = versioned_sample_ops @ [VPut ''a'' (Some 5) 200]" "late_superseded 100 ''a'' i64_min {} versioned_late_ops"
  "sat_sub (foldl max i64_min (map op_time versioned_late_ops)) 100 = 100"
  by code_simp+

lemma versioned_late_ok: "\<forall>op \<in> set versioned_late_ops. op_ok (\<lambda>s. utf8_valid (str_bytes s)) in_i64 op"
  by (simp add: versioned_late_ops_def op_ok_def in_i64_def str_bytes_def)

lemma versioned_store_answers_history_witness:
  "\<exists>s r. vs_run versioned_late_ops versioned_sample_new = Some s \<and> vs_horizon s = 100 \<and>
     vs_get_as_of ''a'' 150 s = Some r \<and> answers (history_of (versioned_sample_ops @ [VPut ''a'' (Some 5) 200]) ''a'') 150 r"
proof -
  have ret: "(0 :: int) \<le> 100"
    by simp
  have a: "utf8_valid (str_bytes ''a'')"
    by code_simp
  have t: "100 \<le> (150 :: int) \<and> in_i64 150 \<and> 150 < i64_max"
    by (simp add: in_i64_def)
  from versioned_store_answers_history [OF string_serde.serde_contract_axioms i64_serde.serde_contract_axioms ret versioned_late_ok, of "''v''" "''t''"]
  obtain s where s: "vs_run versioned_late_ops versioned_sample_new = Some s" "vs_horizon s = 100"
    and read: "\<forall>k. utf8_valid (str_bytes k) \<and> late_superseded 100 k i64_min {} versioned_late_ops \<longrightarrow>
       (\<forall>t. vs_horizon s \<le> t \<and> in_i64 t \<and> t < i64_max \<longrightarrow>
          (\<exists>r. vs_get_as_of k t s = Some r \<and> answers (history_of (timely 100 i64_min versioned_late_ops) k) t r))"
    unfolding versioned_late_facts(3) by blast
  show ?thesis
    using s read [rule_format, OF conjI [OF a versioned_late_facts(2)], of 150] t unfolding versioned_late_facts(1) by auto
qed

text \<open>A late write that nothing supersedes is kept, although the comments on \<^verbatim>\<open>put\<close> and \<^verbatim>\<open>horizon\<close> have it dropped.\<close>

lemma late_put_kept:
  "map_option (\<lambda>s. (vs_horizon s, map_option (map_option vr_valid_from) (vs_get ''b'' s)))
     (vs_run [VPut ''a'' (Some 1) 200, VPut ''b'' (Some 2) 40] (vs_new ''v'' 50 StringSerde I64Serde ''t'')) = Some (150, Some (Some 40))"
  by code_simp

text \<open>C5: Replaying the changelog of a versioned store rebuilds it exactly: the drained entries, applied in
  order to a fresh store, give the same chains, the same observed stream time and hence the same horizon, even
  though dropped puts changed no chain and were not logged.\<close>

theorem versioned_changelog_rebuilds_store:
  assumes "serde_contract ks vk" "serde_contract vs vv" "0 \<le> ret" "\<forall>op \<in> set ops. op_ok vk vv op"
  shows "\<exists>s log s'. vs_run ops (vs_new n ret ks vs topic) = Some s \<and>
    vs_take_changelog_ts s = (map (\<lambda>(k, v, t). (k, v, Some t)) log, s') \<and>
    vs_replay log (vs_new n ret ks vs topic) = Some s' \<and>
    vs_chains s' = vs_chains s \<and> vs_observed_stream_time s' = vs_observed_stream_time s"
proof -
  obtain s where s: "vs_run ops (vs_new n ret ks vs topic) = Some s"
    and inv: "vs_run_inv vk vv (vs_new n ret ks vs topic) (history_of ops) s"
    using assms by (rule vs_run_new)
  have "vs_replay (vs_changelog s) (vs_new n ret ks vs topic) = Some (s\<lparr>vs_changelog := []\<rparr>)"
    using inv by (simp add: vs_run_inv_def)
  then show ?thesis
    using s by (simp add: vs_take_changelog_ts_def) (rule exI [of _ "vs_changelog s"], simp)
qed

lemma versioned_changelog_rebuilds_store_witness:
  "\<exists>s log s'. vs_run versioned_sample_ops versioned_sample_new = Some s \<and>
     vs_take_changelog_ts s = (map (\<lambda>(k, v, t). (k, v, Some t)) log, s') \<and>
     vs_replay log versioned_sample_new = Some s' \<and> vs_chains s' = vs_chains s"
  using versioned_changelog_rebuilds_store [OF string_serde.serde_contract_axioms i64_serde.serde_contract_axioms _
      versioned_sample_ok, of 100 "''v''" "''t''"] by auto

section \<open>Snapshot round trip\<close>

fun version_bytes :: "int \<times> bytes option \<Rightarrow> bytes" where
  "version_bytes (vf, None) = i64_to_be vf @ [0]"
| "version_bytes (vf, Some v) = i64_to_be vf @ [1] @ sized_bytes v"

definition chain_bytes :: "bytes \<times> chain \<Rightarrow> bytes" where
  "chain_bytes kc = sized_bytes (fst kc) @ u32_to_be (length (snd kc)) @ concat (map version_bytes (snd kc))"

definition values_sized :: "chain \<Rightarrow> bool" where
  "values_sized c \<longleftrightarrow> (\<forall>(vf, x) \<in> set c. \<forall>v. x = Some v \<longrightarrow> length v \<le> u32_max)"

lemma put_versions_Some:
  "put_versions b vs = Some b' \<longleftrightarrow> values_sized vs \<and> b' = b @ concat (map version_bytes vs)"
  by (induction b vs rule: put_versions.induct) (auto simp: bind_eq_Some_conv put_sized_Some put_i64_def values_sized_def)

lemma put_chains_Some:
  "put_chains b cs = Some b' \<longleftrightarrow>
   (\<forall>(k, c) \<in> set cs. length k \<le> u32_max \<and> length c \<le> u32_max \<and> values_sized c) \<and>
   b' = b @ concat (map chain_bytes cs)"
  by (induction b cs rule: put_chains.induct)
    (auto simp: bind_eq_Some_conv put_sized_Some put_versions_Some put_u32_def chain_bytes_def split: if_splits)

lemma reads_read_versions:
  "\<forall>(vf, x) \<in> set vs. in_i64 vf \<and> (\<forall>v. x = Some v \<longrightarrow> length v \<le> u32_max) \<Longrightarrow>
   reads (read_versions (length vs) acc) (concat (map version_bytes vs)) (foldl (\<lambda>m (k, v). bt_insert k v m) acc vs)"
proof (induction vs arbitrary: acc)
  case (Cons p vs)
  obtain vf x where p: "p = (vf, x)"
    by force
  have i: "in_i64 vf" and v: "\<And>v. x = Some v \<Longrightarrow> length v \<le> u32_max"
    using Cons.prems by (auto simp: p)
  have IH: "reads (read_versions (length vs) acc') (concat (map version_bytes vs)) (foldl (\<lambda>m (k, v). bt_insert k v m) acc' vs)" for acc'
    using Cons by simp
  show ?case
  proof (cases x)
    case None
    have "reads (read_versions (Suc (length vs)) acc) (i64_to_be vf @ ([0] @ concat (map version_bytes vs)))
      (foldl (\<lambda>m (k, v). bt_insert k v m) (bt_insert vf None acc) vs)"
      unfolding read_versions.simps by (intro reads_and_then [OF reads_i64 [OF i]] reads_and_then [OF reads_u8]) (simp add: IH)
    then show ?thesis
      by (simp add: p None)
  next
    case (Some raw)
    have "reads (read_versions (Suc (length vs)) acc) (i64_to_be vf @ ([1] @ (sized_bytes raw @ concat (map version_bytes vs))))
      (foldl (\<lambda>m (k, v). bt_insert k v m) (bt_insert vf (Some raw) acc) vs)"
      unfolding read_versions.simps
      by (intro reads_and_then [OF reads_i64 [OF i]] reads_and_then [OF reads_u8])
        (simp add: reads_and_then [OF reads_sized_bytes [OF v [OF Some]]] IH)
    then show ?thesis
      by (simp add: p Some)
  qed
qed (simp add: reads_ok)

lemma reads_read_chains:
  "\<forall>(k, c) \<in> set cs. length k \<le> u32_max \<and> length c \<le> u32_max \<and> bt_ok c \<and>
     (\<forall>(vf, x) \<in> set c. in_i64 vf \<and> (\<forall>v. x = Some v \<longrightarrow> length v \<le> u32_max)) \<Longrightarrow>
   reads (read_chains (length cs) acc) (concat (map chain_bytes cs)) (foldl (\<lambda>m (k, v). bt_insert k v m) acc cs)"
proof (induction cs arbitrary: acc)
  case (Cons p cs)
  obtain k c where p: "p = (k, c)"
    by force
  have h: "length k \<le> u32_max" "length c \<le> u32_max" "bt_ok c"
    "\<forall>(vf, x) \<in> set c. in_i64 vf \<and> (\<forall>v. x = Some v \<longrightarrow> length v \<le> u32_max)"
    using Cons.prems by (auto simp: p)
  have c: "reads (read_versions (length c) []) (concat (map version_bytes c)) c"
    using reads_read_versions [OF h(4), of "[]"] bt_of_list_id [OF h(3)] by (simp add: bt_of_list_def)
  have "reads (read_chains (Suc (length cs)) acc)
     (sized_bytes k @ (u32_to_be (length c) @ (concat (map version_bytes c) @ concat (map chain_bytes cs))))
     (foldl (\<lambda>m (k, v). bt_insert k v m) (bt_insert k c acc) cs)"
    unfolding read_chains.simps using Cons
    by (intro reads_and_then [OF reads_sized_bytes [OF h(1)]] reads_and_then [OF reads_u32 [OF h(2)]] reads_and_then [OF c]) simp
  then show ?case
    by (simp add: p chain_bytes_def [of "(k, c)"])
qed (simp add: reads_ok)

lemma vs_restore_alt:
  "vs_restore_snapshot data s =
    map_sum id fst (and_then
      (and_then reader_store_version (\<lambda>_. and_then reader_i64 (\<lambda>observed. and_then reader_u32 (\<lambda>count.
        and_then (read_chains count []) (\<lambda>chains. ok (chains, observed))))))
      (\<lambda>(chains, observed). and_then reader_finish (\<lambda>_.
        ok (s\<lparr>vs_chains := chains, vs_observed_stream_time := observed, vs_changelog := []\<rparr>))) data)"
  unfolding vs_restore_snapshot_def and_then_assoc and_then_ok prod.case ..

lemma vs_restore_snapshot_ok:
  assumes b: "vs_snapshot s = Some b" and ok: "bt_ok (vs_chains s)" "\<forall>kb. bt_ok (chain_of kb s)"
    and ver: "versions_ok vv s" and obs: "in_i64 (vs_observed_stream_time s)"
  shows "vs_restore_snapshot b s0 =
    Inr (s0\<lparr>vs_chains := vs_chains s, vs_observed_stream_time := vs_observed_stream_time s, vs_changelog := []\<rparr>)"
proof -
  let ?cs = "vs_chains s"
  have len: "length ?cs \<le> u32_max" and
    sized: "\<forall>(k, c) \<in> set ?cs. length k \<le> u32_max \<and> length c \<le> u32_max \<and> values_sized c" and
    eq: "b = store_payload @ (i64_to_be (vs_observed_stream_time s) @ (u32_to_be (length ?cs) @ concat (map chain_bytes ?cs)))"
    using b by (auto simp: vs_snapshot_def put_chains_Some put_u32_def put_i64_def split: if_splits)
  have chain: "bt_ok c \<and> (\<forall>(vf, x) \<in> set c. in_i64 vf \<and> (\<forall>v. x = Some v \<longrightarrow> length v \<le> u32_max))" if "(k, c) \<in> set ?cs" for k c
  proof -
    have c: "c = chain_of k s"
      using that by (simp add: chain_of_def flip: bt_ok_map_of_iff [OF ok(1)])
    then have "bt_ok c"
      using ok(2) by simp
    then show ?thesis
      using ver sized that bt_ok_map_of_iff [OF \<open>bt_ok c\<close>] unfolding versions_ok_def values_sized_def c by fastforce
  qed
  have "foldl (\<lambda>m (k, v). bt_insert k v m) [] ?cs = ?cs"
    using bt_of_list_id [OF ok(1)] by (simp add: bt_of_list_def)
  moreover have "reads (read_chains (length ?cs) []) (concat (map chain_bytes ?cs)) (foldl (\<lambda>m (k, v). bt_insert k v m) [] ?cs)"
    by (rule reads_read_chains) (use chain sized in blast)
  ultimately have "reads (and_then reader_store_version (\<lambda>_. and_then reader_i64 (\<lambda>observed. and_then reader_u32 (\<lambda>count.
        and_then (read_chains count []) (\<lambda>chains. ok (chains, observed)))))) b (?cs, vs_observed_stream_time s)"
    unfolding eq
    by (intro reads_and_then [OF reads_store_version] reads_and_then [OF reads_i64 [OF obs]] reads_and_then [OF reads_u32 [OF len]]
        reads_and_then_ok) simp
  from reads_exact [OF this] show ?thesis
    by (simp add: vs_restore_alt and_then_def reader_finish_def ok_def)
qed

text \<open>C6: A snapshot of a versioned store restores it: whatever was put and deleted, restoring the encoded
  snapshot into any store gives the snapshotted chains and stream time and an empty changelog.\<close>

theorem versioned_snapshot_roundtrip:
  assumes "serde_contract ks vk" "serde_contract vs vv" "0 \<le> ret" "\<forall>op \<in> set ops. op_ok vk vv op"
    and "vs_run ops (vs_new n ret ks vs topic) = Some s" "vs_snapshot s = Some b"
  shows "vs_restore_snapshot b s0 =
    Inr (s0\<lparr>vs_chains := vs_chains s, vs_observed_stream_time := vs_observed_stream_time s, vs_changelog := []\<rparr>)"
proof -
  have inv: "vs_run_inv vk vv (vs_new n ret ks vs topic) (history_of ops) s"
    using vs_run_new [OF assms(1-4), of n topic] assms(5) by auto
  show ?thesis
    by (rule vs_restore_snapshot_ok [OF assms(6), of vv]) (use inv in \<open>auto simp: vs_run_inv_def vs_inv_def agrees_def\<close>)
qed

lemma versioned_snapshot_roundtrip_witness:
  "\<exists>s b. vs_run versioned_sample_ops versioned_sample_new = Some s \<and> vs_snapshot s = Some b \<and>
     vs_restore_snapshot b versioned_sample_new = Inr (s\<lparr>vs_changelog := []\<rparr>)"
proof -
  have c: "\<exists>s b. vs_run versioned_sample_ops versioned_sample_new = Some s \<and> vs_snapshot s = Some b \<and>
    s\<lparr>vs_changelog := []\<rparr> = versioned_sample_new\<lparr>vs_chains := vs_chains s, vs_observed_stream_time := vs_observed_stream_time s, vs_changelog := []\<rparr>"
    by (simp add: vs_new_def vs_put_def vs_delete_def vs_insert_raw_def StringSerde_def I64Serde_def str_bytes_def Let_def
        vs_horizon_def sat_sub_def clamp_i64_def checked_i64_def in_i64_def next_above_def evict_below_def
        vs_get_as_of_def chain_as_of_def last_upto_def vs_decode_def vs_snapshot_def put_sized_def put_u32_def put_i64_def)
  then obtain s b where s: "vs_run versioned_sample_ops versioned_sample_new = Some s" "vs_snapshot s = Some b"
    "s\<lparr>vs_changelog := []\<rparr> = versioned_sample_new\<lparr>vs_chains := vs_chains s, vs_observed_stream_time := vs_observed_stream_time s, vs_changelog := []\<rparr>"
    by blast
  show ?thesis
    using versioned_snapshot_roundtrip [OF string_serde.serde_contract_axioms i64_serde.serde_contract_axioms _
        versioned_sample_ok s(1,2), of versioned_sample_new] s by auto
qed

end
