(* ===== verification/Join_Stores.thy ===== *)
theory Join_Stores
  imports Typed_Scan
begin

text \<open>
  The two stores of the stream joins: \<^verbatim>\<open>store/join_window.rs\<close>, the window store that retains duplicates, and
  \<^verbatim>\<open>store/join_grace_buffer.rs\<close>, the stream-side buffer of the stream-table join with a grace period.

  Both keep every record: a record is stored under its timestamp and a running sequence number.  The
  specification of each store is the list of the records put, in order of arrival; a read is a stable sort of it
  by timestamp.  The running number wraps: the join window store masks it to 31 bits, the grace buffer wraps
  at 32 bits, and the theorems are about histories below the wrap.
\<close>

section \<open>JoinWindowBytesStore\<close>

record ('k, 'v) join_window_store =
  jws_name :: string
  jws_changelog_topic :: string
  jws_backend :: in_memory_bytes
  jws_key_serde :: "'k serde"
  jws_value_serde :: "'v serde"
  jws_changelog :: "(bytes \<times> bytes option) list"
  jws_logging :: bool
  jws_seqnum :: nat

definition jws_new ::
  "string \<Rightarrow> in_memory_bytes \<Rightarrow> 'k serde \<Rightarrow> 'v serde \<Rightarrow> string \<Rightarrow> ('k, 'v) join_window_store" where
  "jws_new name backend key_serde value_serde changelog_topic =
    \<lparr>jws_name = name, jws_changelog_topic = changelog_topic, jws_backend = backend, jws_key_serde = key_serde,
     jws_value_serde = value_serde, jws_changelog = [], jws_logging = True, jws_seqnum = 0\<rparr>"

definition jws_in_memory :: "string \<Rightarrow> 'k serde \<Rightarrow> 'v serde \<Rightarrow> string \<Rightarrow> ('k, 'v) join_window_store" where
  "jws_in_memory name key_serde value_serde changelog_topic =
     jws_new name imb_new key_serde value_serde changelog_topic"

text \<open>The mask \<^verbatim>\<open>0x7FFF_FFFF\<close> keeps the low 31 bits; the counter never reaches the \<^verbatim>\<open>u32\<close> limit.\<close>

definition next_seqnum :: "('k, 'v) join_window_store \<Rightarrow> nat \<times> ('k, 'v) join_window_store" where
  "next_seqnum s = (jws_seqnum s, s\<lparr>jws_seqnum := (jws_seqnum s + 1) mod 2147483648\<rparr>)"

definition jws_take_changelog :: "('k, 'v) join_window_store \<Rightarrow> (bytes \<times> bytes option) list \<times> ('k, 'v) join_window_store" where
  "jws_take_changelog s = (jws_changelog s, s\<lparr>jws_changelog := []\<rparr>)"

definition jws_apply_changelog :: "bytes \<Rightarrow> bytes option \<Rightarrow> ('k, 'v) join_window_store \<Rightarrow> ('k, 'v) join_window_store" where
  "jws_apply_changelog key value s =
    s\<lparr>jws_backend := (case value of Some v \<Rightarrow> imb_put key v (jws_backend s) | None \<Rightarrow> snd (imb_delete key (jws_backend s)))\<rparr>"

definition jws_set_logging :: "bool \<Rightarrow> ('k, 'v) join_window_store \<Rightarrow> ('k, 'v) join_window_store" where
  "jws_set_logging on s = s\<lparr>jws_logging := on\<rparr>"

definition jws_clear :: "('k, 'v) join_window_store \<Rightarrow> ('k, 'v) join_window_store" where
  "jws_clear s = s\<lparr>jws_backend := imb_clear (jws_backend s), jws_changelog := [], jws_seqnum := 0\<rparr>"

definition jws_snapshot :: "('k, 'v) join_window_store \<Rightarrow> bytes option" where
  "jws_snapshot s = put_byte_entries (put_u32 store_payload (jws_seqnum s)) (imb_scan_all (jws_backend s))"

definition jws_restore_snapshot :: "bytes \<Rightarrow> ('k, 'v) join_window_store \<Rightarrow> ('k, 'v) join_window_store result" where
  "jws_restore_snapshot data s =
    map_sum id fst (and_then reader_store_version (\<lambda>_. and_then reader_u32 (\<lambda>seqnum.
      and_then read_byte_entries (\<lambda>entries. and_then reader_finish (\<lambda>_.
        ok (s\<lparr>jws_backend := foldl (\<lambda>b (key, value). imb_put key value b) (imb_clear (jws_backend s)) entries,
              jws_seqnum := seqnum, jws_changelog := []\<rparr>))))) data)"

definition jws_put :: "'k \<Rightarrow> int \<Rightarrow> 'v \<Rightarrow> ('k, 'v) join_window_store \<Rightarrow> ('k, 'v) join_window_store" where
  "jws_put key timestamp value s =
    (let kb = sd_ser (jws_key_serde s) (jws_changelog_topic s) key;
         (seq, s1) = next_seqnum s;
         sk = store_key kb timestamp seq;
         raw = sd_ser (jws_value_serde s) (jws_changelog_topic s) value;
         s2 = s1\<lparr>jws_backend := imb_put sk raw (jws_backend s1)\<rparr>
     in if jws_logging s2 then s2\<lparr>jws_changelog := jws_changelog s2 @ [(sk, Some raw)]\<rparr> else s2)"

definition jws_entry :: "('k, 'v) join_window_store \<Rightarrow> bytes \<Rightarrow> bytes \<times> bytes \<Rightarrow> (int \<times> 'v) list option" where
  "jws_entry s kb kv =
    (case kv of (k, raw) \<Rightarrow>
      do { kb' \<leftarrow> key_bytes_of k;
           (if kb' \<noteq> kb then Some []
            else do { ts \<leftarrow> window_start_of k;
                      v \<leftarrow> sd_de (jws_value_serde s) (jws_changelog_topic s) raw;
                      Some [(ts, v)] }) })"

definition jws_fetch :: "'k \<Rightarrow> int \<Rightarrow> int \<Rightarrow> ('k, 'v) join_window_store \<Rightarrow> (int \<times> 'v) list option" where
  "jws_fetch key time_from time_to s =
    (let kb = sd_ser (jws_key_serde s) (jws_changelog_topic s) key;
         lo = store_key kb (max time_from 0) 0;
         hi = store_key kb (sat_add time_to 1) 0
     in map_option concat (collect_opt (map (jws_entry s kb) (imb_range lo hi (jws_backend s)))))"

section \<open>JoinGraceBufferStore\<close>

record ('k, 'v) join_grace_buffer =
  jgb_name :: string
  jgb_changelog_topic :: string
  jgb_key_serde :: "'k serde"
  jgb_value_serde :: "'v serde"
  jgb_buffer :: "(int \<times> nat, bytes \<times> bytes) btree"
  jgb_seq :: nat
  jgb_changelog :: "(bytes \<times> bytes option) list"
  jgb_logging :: bool

definition jgb_new :: "string \<Rightarrow> 'k serde \<Rightarrow> 'v serde \<Rightarrow> string \<Rightarrow> ('k, 'v) join_grace_buffer" where
  "jgb_new name key_serde value_serde changelog_topic =
    \<lparr>jgb_name = name, jgb_changelog_topic = changelog_topic, jgb_key_serde = key_serde, jgb_value_serde = value_serde,
     jgb_buffer = [], jgb_seq = 0, jgb_changelog = [], jgb_logging = True\<rparr>"

definition malformed :: streams_error where
  "malformed = SnapshotError ''truncated join grace buffer snapshot entry''"

definition decode_snapshot_entry :: "bytes \<Rightarrow> bytes \<Rightarrow> ((int \<times> nat) \<times> (bytes \<times> bytes)) result" where
  "decode_snapshot_entry idb payload =
    (if length idb \<noteq> 12 \<or> length payload < 4 then Inl malformed
     else let key_length = u32_of_be (take 4 payload) in
       if length payload < 4 + key_length then Inl malformed
       else case (decode_id idb, decode_payload payload) of
              (Some i, Some p) \<Rightarrow> Inr (i, p)
            | _ \<Rightarrow> Inl malformed)"

definition jgb_put :: "'k \<Rightarrow> 'v \<Rightarrow> int \<Rightarrow> ('k, 'v) join_grace_buffer \<Rightarrow> ('k, 'v) join_grace_buffer option" where
  "jgb_put key value ts s =
    (let kb = sd_ser (jgb_key_serde s) (jgb_changelog_topic s) key;
         vb = sd_ser (jgb_value_serde s) (jgb_changelog_topic s) value;
         i = (ts, jgb_seq s);
         s1 = s\<lparr>jgb_seq := (jgb_seq s + 1) mod 4294967296\<rparr>
     in do { s2 \<leftarrow> (if jgb_logging s1
                     then map_option (\<lambda>p. s1\<lparr>jgb_changelog := jgb_changelog s1 @ [(encode_id i, Some p)]\<rparr>) (encode_payload kb vb)
                     else Some s1);
             Some (s2\<lparr>jgb_buffer := bt_insert i (kb, vb) (jgb_buffer s2)\<rparr>) })"

fun drain_ids :: "(int \<times> nat) list \<Rightarrow> ('k, 'v) join_grace_buffer \<Rightarrow>
    (('k \<times> 'v \<times> int) list \<times> ('k, 'v) join_grace_buffer) option" where
  "drain_ids [] s = Some ([], s)"
| "drain_ids (i # ids) s =
    do { (kb, vb) \<leftarrow> map_of (jgb_buffer s) i;
         let s1 = s\<lparr>jgb_buffer := bt_remove i (jgb_buffer s)\<rparr>;
         let s2 = (if jgb_logging s1 then s1\<lparr>jgb_changelog := jgb_changelog s1 @ [(encode_id i, None)]\<rparr> else s1);
         k \<leftarrow> sd_de (jgb_key_serde s) (jgb_changelog_topic s) kb;
         v \<leftarrow> sd_de (jgb_value_serde s) (jgb_changelog_topic s) vb;
         (out, s3) \<leftarrow> drain_ids ids s2;
         Some ((k, v, fst i) # out, s3) }"

definition jgb_drain_due :: "int \<Rightarrow> ('k, 'v) join_grace_buffer \<Rightarrow>
    (('k \<times> 'v \<times> int) list \<times> ('k, 'v) join_grace_buffer) option" where
  "jgb_drain_due threshold s =
    drain_ids (map fst (filter (\<lambda>(i, _). i \<le> (threshold, u32_max)) (jgb_buffer s))) s"

definition jgb_take_changelog :: "('k, 'v) join_grace_buffer \<Rightarrow> (bytes \<times> bytes option) list \<times> ('k, 'v) join_grace_buffer" where
  "jgb_take_changelog s = (jgb_changelog s, s\<lparr>jgb_changelog := []\<rparr>)"

definition jgb_apply_changelog :: "bytes \<Rightarrow> bytes option \<Rightarrow> ('k, 'v) join_grace_buffer \<Rightarrow> ('k, 'v) join_grace_buffer option" where
  "jgb_apply_changelog key value s =
    do { i \<leftarrow> decode_id key;
         let s1 = s\<lparr>jgb_seq := max (jgb_seq s) ((snd i + 1) mod 4294967296)\<rparr>;
         (case value of
            Some v \<Rightarrow> map_option (\<lambda>p. s1\<lparr>jgb_buffer := bt_insert i p (jgb_buffer s1)\<rparr>) (decode_payload v)
          | None \<Rightarrow> Some (s1\<lparr>jgb_buffer := bt_remove i (jgb_buffer s1)\<rparr>)) }"

definition jgb_set_logging :: "bool \<Rightarrow> ('k, 'v) join_grace_buffer \<Rightarrow> ('k, 'v) join_grace_buffer" where
  "jgb_set_logging on s = s\<lparr>jgb_logging := on\<rparr>"

definition jgb_clear :: "('k, 'v) join_grace_buffer \<Rightarrow> ('k, 'v) join_grace_buffer" where
  "jgb_clear s = s\<lparr>jgb_buffer := [], jgb_seq := 0, jgb_changelog := []\<rparr>"

definition jgb_snapshot :: "('k, 'v) join_grace_buffer \<Rightarrow> bytes option" where
  "jgb_snapshot s =
    do { entries \<leftarrow> collect_opt (map (\<lambda>(i, kb, vb). map_option (\<lambda>p. (encode_id i, p)) (encode_payload kb vb)) (jgb_buffer s));
         put_byte_entries (put_u32 store_payload (jgb_seq s)) entries }"

fun jgb_restore_entries ::
  "(bytes \<times> bytes) list \<Rightarrow> (int \<times> nat, bytes \<times> bytes) btree \<Rightarrow> (int \<times> nat, bytes \<times> bytes) btree result" where
  "jgb_restore_entries [] acc = Inr acc"
| "jgb_restore_entries ((idb, payload) # es) acc =
    (case decode_snapshot_entry idb payload of
       Inl e \<Rightarrow> Inl e
     | Inr (i, entry) \<Rightarrow> jgb_restore_entries es (bt_insert i entry acc))"

definition jgb_restore_snapshot :: "bytes \<Rightarrow> ('k, 'v) join_grace_buffer \<Rightarrow> ('k, 'v) join_grace_buffer result" where
  "jgb_restore_snapshot data s =
    (case and_then reader_store_version (\<lambda>_. and_then reader_u32 (\<lambda>seq. and_then read_byte_entries (\<lambda>entries.
        and_then reader_finish (\<lambda>_. ok (seq, entries))))) data of
       Inl e \<Rightarrow> Inl e
     | Inr ((seq, entries), _) \<Rightarrow>
        (case jgb_restore_entries entries [] of
           Inl e \<Rightarrow> Inl e
         | Inr restored \<Rightarrow> Inr (s\<lparr>jgb_buffer := restored, jgb_seq := seq, jgb_changelog := []\<rparr>)))"

section \<open>Stable order\<close>

text \<open>Sorting by timestamp keeps the order of arrival, so it is the order by timestamp and running number.\<close>

lemma insort_key_lex:
  assumes "sorted_wrt (\<lambda>p q. (f p, g p) < (f q, g q)) xs" "\<forall>y \<in> set xs. g x < g y"
  shows "sorted_wrt (\<lambda>p q. (f p, g p) < (f q, g q)) (insort_key f x xs)"
  using assms
proof (induction xs)
  case (Cons y ys)
  show ?case
  proof (cases "f x \<le> f y")
    case True
    then have "\<forall>z \<in> set (y # ys). (f x, g x) < (f z, g z)"
      using Cons.prems by (force simp: less_prod_def less_prod_def')
    then show ?thesis
      using True Cons.prems(1) by simp
  next
    case False
    then show ?thesis
      using Cons by (auto simp: set_insort_key)
  qed
qed simp

lemma sort_key_lex:
  "sorted_wrt (\<lambda>p q. g p < g q) xs \<Longrightarrow> sorted_wrt (\<lambda>p q. (f p, g p) < (f q, g q)) (sort_key f xs)"
proof (induction xs)
  case (Cons x xs)
  then show ?case
    using insort_key_lex [of f g "sort_key f xs" x] by simp
qed simp

lemma map_insort_key: "map h (insort_key (\<lambda>x. g (h x)) x xs) = insort_key g (h x) (map h xs)"
  by (induction xs) auto

lemma map_sort_key: "map h (sort_key (\<lambda>x. g (h x)) xs) = sort_key g (map h xs)"
  by (induction xs) (simp_all add: map_insort_key)

section \<open>The join window store keeps every record\<close>

definition jws_puts :: "('k \<times> int \<times> 'v) list \<Rightarrow> ('k, 'v) join_window_store \<Rightarrow> ('k, 'v) join_window_store" where
  "jws_puts ps s = foldl (\<lambda>s (k, ts, v). jws_put k ts v s) s ps"

text \<open>The records of a key in a time interval, in order of arrival.\<close>

definition matches :: "('k \<times> int \<times> 'v) list \<Rightarrow> 'k \<Rightarrow> int \<Rightarrow> int \<Rightarrow> (int \<times> 'v) list" where
  "matches ps k from to = map (\<lambda>(_, ts, v). (ts, v)) (filter (\<lambda>(k', ts, _). k' = k \<and> max from 0 \<le> ts \<and> ts \<le> to) ps)"

definition slot_ser :: "'k serde \<Rightarrow> string \<Rightarrow> 'k \<times> int \<times> nat \<Rightarrow> bytes" where
  "slot_ser ks t x = store_key (sd_ser ks t (fst x)) (fst (snd x)) (snd (snd x))"

definition slot_valid :: "('k \<Rightarrow> bool) \<Rightarrow> 'k \<times> int \<times> nat \<Rightarrow> bool" where
  "slot_valid vk x \<longleftrightarrow> vk (fst x) \<and> in_i64 (fst (snd x)) \<and> snd (snd x) \<le> u32_max"

definition slots :: "('k \<times> int \<times> 'v) list \<Rightarrow> 'k \<times> int \<times> nat \<Rightarrow> 'v option" where
  "slots ps x =
    (if snd (snd x) < length ps \<and> fst (ps ! snd (snd x)) = fst x \<and> fst (snd (ps ! snd (snd x))) = fst (snd x)
     then Some (snd (snd (ps ! snd (snd x)))) else None)"

lemma slots_snoc: "slots (ps @ [(k, ts, v)]) = (slots ps)((k, ts, length ps) \<mapsto> v)"
  by (auto simp: slots_def fun_eq_iff nth_append)

lemma slot_ser_inj:
  assumes "serde_contract ks vk" "slot_valid vk x" "slot_valid vk y" "slot_ser ks t x = slot_ser ks t y"
  shows "x = y"
  using assms serde_contract.ser_inj [OF assms(1), of "fst x" "fst y" t]
  by (auto simp: slot_valid_def slot_ser_def store_key_inj prod_eq_iff)

lemma jws_puts_snoc: "jws_puts (ps @ [(k, ts, v)]) s = jws_put k ts v (jws_puts ps s)"
  by (simp add: jws_puts_def)

lemma jws_put_fields [simp]:
  "jws_seqnum (jws_put k ts v s) = (jws_seqnum s + 1) mod 2147483648"
  "jws_backend (jws_put k ts v s) =
     imb_put (store_key (sd_ser (jws_key_serde s) (jws_changelog_topic s) k) ts (jws_seqnum s))
       (sd_ser (jws_value_serde s) (jws_changelog_topic s) v) (jws_backend s)"
  "jws_key_serde (jws_put k ts v s) = jws_key_serde s" "jws_value_serde (jws_put k ts v s) = jws_value_serde s"
  "jws_changelog_topic (jws_put k ts v s) = jws_changelog_topic s"
  by (simp_all add: jws_put_def Let_def next_seqnum_def)

lemma jws_puts_state:
  fixes n topic :: string and vs :: "'v serde"
  assumes S: "serde_contract ks vk"
    and ps: "\<forall>(k, ts, v) \<in> set ps. vk k \<and> in_i64 ts \<and> vv v" "length ps < 2147483648"
  defines "s \<equiv> jws_puts ps (jws_in_memory n ks vs topic)"
  shows "jws_seqnum s = length ps \<and> jws_key_serde s = ks \<and> jws_value_serde s = vs \<and> jws_changelog_topic s = topic \<and>
    imb_ok (jws_backend s) \<and>
    typed_as (slot_ser ks topic) (slot_valid vk) (sd_ser vs topic) vv (imb_get (jws_backend s)) (slots ps)"
  unfolding s_def using ps
proof (induction ps rule: rev_induct)
  case Nil
  have "slots ([] :: ('a \<times> int \<times> 'v) list) = Map.empty" "imb_get imb_new = Map.empty"
    by (simp_all add: slots_def fun_eq_iff imb_defs)
  then show ?case
    by (simp add: jws_puts_def jws_in_memory_def jws_new_def)
next
  case (snoc p ps)
  obtain k ts v where p: "p = (k, ts, v)"
    by (cases p) auto
  let ?s = "jws_puts ps (jws_in_memory n ks vs topic)"
  have IH: "jws_seqnum ?s = length ps" "jws_key_serde ?s = ks" "jws_value_serde ?s = vs" "jws_changelog_topic ?s = topic"
    "imb_ok (jws_backend ?s)"
    "typed_as (slot_ser ks topic) (slot_valid vk) (sd_ser vs topic) vv (imb_get (jws_backend ?s)) (slots ps)"
    using snoc by auto
  have sv: "slot_valid vk (k, ts, length ps)"
    using snoc.prems by (auto simp: slot_valid_def p)
  have "typed_as (slot_ser ks topic) (slot_valid vk) (sd_ser vs topic) vv
      ((imb_get (jws_backend ?s))(slot_ser ks topic (k, ts, length ps) := map_option (sd_ser vs topic) (Some v)))
      ((slots ps)((k, ts, length ps) := Some v))"
    by (rule typed_as_upd [OF IH(6) sv]) (use snoc.prems p slot_ser_inj [OF S] in auto)
  then show ?case
    using IH snoc.prems(2) by (simp add: jws_puts_snoc p slots_snoc imb.inv_put imb.get_put slot_ser_def [of _ _ "(k, _)"] del: fun_upd_apply)
qed

lemma jws_entry_typed:
  assumes S: "serde_contract ks vk" "serde_contract vs vv"
    and s: "jws_value_serde s = vs" "jws_changelog_topic s = topic"
    and v: "slot_valid vk x" "vv y" and k: "vk k"
  shows "jws_entry s (sd_ser ks topic k) (slot_ser ks topic x, sd_ser vs topic y) =
    Some (if fst x = k then [(fst (snd x), y)] else [])"
  using serde_contract.ser_inj [OF S(1), of "fst x" k topic] serde_contract.roundtrip [OF S(2) v(2)] v(1) k s
  by (simp add: jws_entry_def slot_ser_def slot_valid_def)

text \<open>Rows of one key in the byte order of their slots are ordered by timestamp and sequence number.\<close>

lemma slot_rows_sorted:
  assumes srt: "sorted_wrt (\<lambda>p q. slot_ser ks topic (fst p) < slot_ser ks topic (fst q)) rows"
    and ok: "\<And>p. p \<in> set rows \<Longrightarrow> fst (fst p) = k \<and> 0 \<le> fst (snd (fst p)) \<and> fst (snd (fst p)) \<le> i64_max \<and> snd (snd (fst p)) \<le> u32_max"
  shows "sorted_wrt (\<lambda>p q. (fst (snd (fst p)), snd (snd (fst p))) < (fst (snd (fst q)), snd (snd (fst q)))) rows"
proof (rule sorted_wrt_mono_rel [OF _ srt])
  fix p q
  assume pq: "p \<in> set rows" "q \<in> set rows" "slot_ser ks topic (fst p) < slot_ser ks topic (fst q)"
  show "(fst (snd (fst p)), snd (snd (fst p))) < (fst (snd (fst q)), snd (snd (fst q)))"
    using pq(3) ok [OF pq(1)] ok [OF pq(2)] by (cases p; cases q) (auto simp: slot_ser_def store_key_less_iff)
qed

text \<open>What a fetch returns are the slots of the key inside the interval, in that order.\<close>

lemma jws_fetch_rows:
  assumes S: "serde_contract ks vk" "serde_contract vs vv"
    and ps: "\<forall>(k, ts, v) \<in> set ps. vk k \<and> in_i64 ts \<and> vv v" "length ps < 2147483648"
    and r: "vk k" "from \<le> i64_max" "0 \<le> to" "to < i64_max"
  shows "\<exists>R. jws_fetch k from to (jws_puts ps (jws_in_memory n ks vs topic)) = Some (map (\<lambda>(ts, i, v). (ts, v)) R) \<and>
    (\<forall>ts i v. (ts, i, v) \<in> set R \<longleftrightarrow> slots ps (k, ts, i) = Some v \<and> max from 0 \<le> ts \<and> ts \<le> to) \<and>
    sorted_wrt (\<lambda>p q. (fst p, fst (snd p)) < (fst q, fst (snd q))) R"
proof -
  let ?s = "jws_puts ps (jws_in_memory n ks vs topic)"
  let ?sk = "slot_ser ks topic" and ?sv = "sd_ser vs topic" and ?kb = "sd_ser ks topic k"
  let ?lo = "store_key ?kb (max from 0) 0" and ?hi = "store_key ?kb (sat_add to 1) 0"
  note st = jws_puts_state [OF S(1) ps, of n vs topic]
  have sc: "bt_ok (imb_scan_all (jws_backend ?s))" "map_of (imb_scan_all (jws_backend ?s)) = imb_get (jws_backend ?s)"
    using st imb.scan_ok imb.scan_get by auto
  have t: "typed_as ?sk (slot_valid vk) ?sv vv (map_of (imb_scan_all (jws_backend ?s))) (slots ps)"
    using st sc by simp
  obtain L where L: "imb_scan_all (jws_backend ?s) = map (\<lambda>(k, v). (?sk k, ?sv v)) L"
    "\<And>k v. (k, v) \<in> set L \<longleftrightarrow> slots ps k = Some v" "\<And>k v. (k, v) \<in> set L \<Longrightarrow> slot_valid vk k \<and> vv v"
    "sorted_wrt (\<lambda>p q. ?sk (fst p) < ?sk (fst q)) L"
    by (rule typed_list [OF t sc(1) slot_ser_inj [OF S(1)]]) (assumption | rule that)+
  define L1 where "L1 = filter (\<lambda>(k, v). ?lo \<le> ?sk k \<and> ?sk k < ?hi) L"
  define K where "K = filter (\<lambda>p. fst (fst p) = k) L1"
  define R where "R = map (\<lambda>p. (fst (snd (fst p)), snd (snd (fst p)), snd p)) K"
  have rng: "imb_range ?lo ?hi (jws_backend ?s) = map (\<lambda>(k, v). (?sk k, ?sv v)) L1"
    by (simp add: imb_range_bt L(1) bt_range_map L1_def)
  have "collect_opt (map (jws_entry ?s ?kb) (map (\<lambda>(k, v). (?sk k, ?sv v)) L1)) =
      Some (map (\<lambda>(x, y). if fst x = k then [(fst (snd x), y)] else []) L1)"
    by (intro collect_opt_typed jws_entry_typed [OF S]) (use st L(3) r(1) in \<open>auto simp: L1_def\<close>)
  then have "jws_fetch k from to ?s = Some (map (\<lambda>(ts, i, v). (ts, v)) R)"
    using st concat_map_filter [of "\<lambda>p. fst (fst p) = k" "\<lambda>p. (fst (snd (fst p)), snd p)" L1]
      arg_cong [OF rng, of "\<lambda>es. collect_opt (map (jws_entry ?s ?kb) es)"]
    by (simp add: jws_fetch_def Let_def R_def K_def split_def comp_def)
  moreover have in_range: "?lo \<le> ?sk (k, ts, i) \<and> ?sk (k, ts, i) < ?hi \<longleftrightarrow> max from 0 \<le> ts \<and> ts \<le> to" if "in_i64 ts" "i \<le> u32_max" for ts i
    using store_key_in_range [of "max from 0" "to" ts i] r that by (simp add: slot_ser_def)
  have mem: "((k, ts, i), v) \<in> set K \<longleftrightarrow> slots ps (k, ts, i) = Some v \<and> max from 0 \<le> ts \<and> ts \<le> to" for ts i v
    using in_range [of ts i] L(2) [of "(k, ts, i)" v] L(3) [of "(k, ts, i)" v] by (auto simp: K_def L1_def slot_valid_def)
  have "(ts, i, v) \<in> set R \<longleftrightarrow> slots ps (k, ts, i) = Some v \<and> max from 0 \<le> ts \<and> ts \<le> to" for ts i v
    unfolding R_def using mem [of ts i v] by (force simp: image_iff K_def)
  moreover have "fst (fst p) = k \<and> 0 \<le> fst (snd (fst p)) \<and> fst (snd (fst p)) \<le> i64_max \<and> snd (snd (fst p)) \<le> u32_max" if p: "p \<in> set K" for p
  proof -
    have "fst (fst p) = k"
      using p by (simp add: K_def)
    then obtain ts i v where "p = ((k, ts, i), v)"
      by (metis prod.collapse)
    then show ?thesis
      using p mem [of ts i v] r(4) L(3) [of "(k, ts, i)" v] L(2) [of "(k, ts, i)" v] by (auto simp: slot_valid_def)
  qed
  then have "sorted_wrt (\<lambda>p q. (fst p, fst (snd p)) < (fst q, fst (snd q))) R"
    unfolding R_def sorted_wrt_map fst_conv snd_conv
    using L(4) by (intro slot_rows_sorted [where ks = ks and topic = topic]) (auto simp: K_def L1_def intro!: sorted_wrt_filter)
  ultimately show ?thesis
    by blast
qed

text \<open>The arrivals of the key inside the interval, numbered.\<close>

definition numbered :: "('k \<times> int \<times> 'v) list \<Rightarrow> 'k \<Rightarrow> int \<Rightarrow> int \<Rightarrow> (int \<times> nat \<times> 'v) list" where
  "numbered ps k from to = map (\<lambda>(i, _, ts, v). (ts, i, v))
     (filter (\<lambda>(i, k', ts, _). k' = k \<and> max from 0 \<le> ts \<and> ts \<le> to) (List.enumerate 0 ps))"

lemma numbered_slots: "(ts, i, v) \<in> set (numbered ps k from to) \<longleftrightarrow> slots ps (k, ts, i) = Some v \<and> max from 0 \<le> ts \<and> ts \<le> to"
proof -
  have "(ts, i, v) \<in> set (numbered ps k from to) \<longleftrightarrow> (i, k, ts, v) \<in> set (List.enumerate 0 ps) \<and> max from 0 \<le> ts \<and> ts \<le> to"
    unfolding numbered_def by (auto simp: image_iff)
  also have "(i, k, ts, v) \<in> set (List.enumerate 0 ps) \<longleftrightarrow> slots ps (k, ts, i) = Some v"
    by (auto simp: in_set_enumerate_eq slots_def prod_eq_iff)
  finally show ?thesis .
qed

lemma numbered_sorted: "sorted_wrt (\<lambda>p q. fst (snd p) < fst (snd q)) (numbered ps k from to)"
proof -
  have "sorted_wrt (\<lambda>p q. fst p < fst q) (List.enumerate 0 ps)"
    using sorted_wrt_map [of "(<)" fst "List.enumerate 0 ps"] by simp
  then show ?thesis
    unfolding numbered_def sorted_wrt_map by (intro sorted_wrt_mono_rel [OF _ sorted_wrt_filter]) (auto split: prod.splits)
qed

lemma numbered_matches: "map (\<lambda>(ts, i, v). (ts, v)) (numbered ps k from to) = matches ps k from to"
proof -
  have "matches ps k from to = matches (map snd (List.enumerate 0 ps)) k from to"
    by simp
  also have "\<dots> = map (\<lambda>(ts, i, v). (ts, v)) (numbered ps k from to)"
    unfolding matches_def numbered_def filter_map by (simp add: split_def comp_def)
  finally show ?thesis
    by simp
qed

text \<open>C26: The join window store keeps duplicates and returns them in order.  After any sequence of puts on a fresh
  store (fewer than \<open>2 ^ 31\<close>), \<^verbatim>\<open>fetch(key, from, to)\<close> returns every record put for that key with a timestamp in
  \<^verbatim>\<open>[max(from, 0), to]\<close>, by timestamp, and records with equal timestamps in the order they were put.\<close>

theorem join_window_fetch_stable:
  assumes S: "serde_contract ks vk" "serde_contract vs vv"
    and ps: "\<forall>(k, ts, v) \<in> set ps. vk k \<and> in_i64 ts \<and> vv v" "length ps < 2147483648"
    and r: "vk k" "from \<le> i64_max" "0 \<le> to" "to < i64_max"
  shows "jws_fetch k from to (jws_puts ps (jws_in_memory n ks vs topic)) = Some (sort_key fst (matches ps k from to))"
proof -
  let ?X = "numbered ps k from to"
  obtain R where R: "jws_fetch k from to (jws_puts ps (jws_in_memory n ks vs topic)) = Some (map (\<lambda>(ts, i, v). (ts, v)) R)"
      "\<And>ts i v. (ts, i, v) \<in> set R \<longleftrightarrow> slots ps (k, ts, i) = Some v \<and> max from 0 \<le> ts \<and> ts \<le> to"
      "sorted_wrt (\<lambda>p q. (fst p, fst (snd p)) < (fst q, fst (snd q))) R"
    using jws_fetch_rows [OF assms] by blast
  have "R = sort_key fst ?X"
    using R(2) sort_key_lex [OF numbered_sorted]
    by (intro sorted_wrt_unique [where h = "\<lambda>p. (fst p, fst (snd p))", OF R(3)]) (auto simp: numbered_slots)
  then have "map (\<lambda>(ts, i, v). (ts, v)) R = sort_key fst (map (\<lambda>(ts, i, v). (ts, v)) ?X)"
    using map_sort_key [of "\<lambda>(ts, i, v). (ts, v)" fst ?X] by (simp add: split_def)
  then show ?thesis
    using R(1) by (simp add: numbered_matches)
qed

lemma join_window_fetch_stable_witness:
  "jws_fetch ''a'' (-5) 25 (jws_puts [(''a'', 20, 1), (''a'', 10, 2), (''a'', 20, 3), (''ab'', 20, 9)] (jws_in_memory ''j'' StringSerde I64Serde ''t'')) =
     Some [(10, 2), (20, 1), (20, 3)]"
proof -
  let ?ps = "[(''a'', 20, 1), (''a'', 10, 2), (''a'', 20, 3), (''ab'', 20, 9)] :: (string \<times> int \<times> int) list"
  have "\<forall>(k, ts, v) \<in> set ?ps. utf8_valid (str_bytes k) \<and> in_i64 ts \<and> in_i64 v"
    by (simp add: in_i64_def str_bytes_def)
  then have "jws_fetch ''a'' (-5) 25 (jws_puts ?ps (jws_in_memory ''j'' StringSerde I64Serde ''t'')) =
      Some (sort_key fst (matches ?ps ''a'' (-5) 25))"
    by (rule join_window_fetch_stable [OF string_serde.serde_contract_axioms i64_serde.serde_contract_axioms])
      (simp_all add: str_bytes_def)
  moreover have "sort_key fst (matches ?ps ''a'' (-5) 25) = [(10, 2), (20, 1), (20, 3)]"
    by (simp add: matches_def)
  ultimately show ?thesis
    by (simp only:)
qed

text \<open>A changelog restore does not carry the running number: the restored store hands it out again, and the next
  record with the same key and timestamp replaces the restored one.  (A snapshot restore carries it.)\<close>

lemma join_window_restore_overwrites:
  assumes "fresh = jws_in_memory n ks vs topic" "(log, t) = jws_take_changelog (jws_put k ts v fresh)"
    and "restored = foldl (\<lambda>s (k, v). jws_apply_changelog k v s) fresh log"
  shows "jws_backend restored = jws_backend (jws_put k ts v fresh)"
    and "jws_backend (jws_put k ts w restored) = jws_backend (jws_put k ts w fresh)"
  using assms by (simp_all add: jws_in_memory_def jws_new_def jws_take_changelog_def jws_put_def next_seqnum_def
      jws_apply_changelog_def Let_def imb_defs)

section \<open>The grace buffer\<close>

datatype ('k, 'v) grace_op = GPut 'k 'v int | GDrain int

fun jgb_run :: "('k, 'v) grace_op list \<Rightarrow> ('k, 'v) join_grace_buffer \<Rightarrow>
    (('k \<times> 'v \<times> int) list list \<times> ('k, 'v) join_grace_buffer) option" where
  "jgb_run [] s = Some ([], s)"
| "jgb_run (GPut k v ts # ops) s = do { s' \<leftarrow> jgb_put k v ts s; jgb_run ops s' }"
| "jgb_run (GDrain threshold # ops) s =
    do { (out, s') \<leftarrow> jgb_drain_due threshold s; (outs, s'') \<leftarrow> jgb_run ops s'; Some (out # outs, s'') }"

text \<open>The specification: the list of buffered records in order of arrival.\<close>

fun grace_spec :: "('k, 'v) grace_op list \<Rightarrow> ('k \<times> 'v \<times> int) list \<Rightarrow> ('k \<times> 'v \<times> int) list list \<times> ('k \<times> 'v \<times> int) list" where
  "grace_spec [] buf = ([], buf)"
| "grace_spec (GPut k v ts # ops) buf = grace_spec ops (buf @ [(k, v, ts)])"
| "grace_spec (GDrain threshold # ops) buf =
    (let (outs, buf') = grace_spec ops (filter (\<lambda>(k, v, ts). threshold < ts) buf)
     in (sort_key (\<lambda>(k, v, ts). ts) (filter (\<lambda>(k, v, ts). ts \<le> threshold) buf) # outs, buf'))"

fun jgb_replay :: "(bytes \<times> bytes option) list \<Rightarrow> ('k, 'v) join_grace_buffer \<Rightarrow> ('k, 'v) join_grace_buffer option" where
  "jgb_replay [] s = Some s"
| "jgb_replay ((k, v) # log) s = Option.bind (jgb_apply_changelog k v s) (jgb_replay log)"

lemma jgb_replay_append: "jgb_replay (l @ l') s = Option.bind (jgb_replay l s) (jgb_replay l')"
proof (induction l arbitrary: s)
  case (Cons e l)
  show ?case
    by (cases e; cases "jgb_apply_changelog (fst e) (snd e) s") (simp_all add: Cons)
qed simp

text \<open>A buffered record with its id: timestamp, running number, key and value.\<close>

type_synonym ('k, 'v) numbered = "int \<times> nat \<times> 'k \<times> 'v"

definition numbered_id :: "('k, 'v) numbered \<Rightarrow> int \<times> nat" where
  "numbered_id p = (fst p, fst (snd p))"

definition numbered_record :: "('k, 'v) numbered \<Rightarrow> 'k \<times> 'v \<times> int" where
  "numbered_record p = (fst (snd (snd p)), snd (snd (snd p)), fst p)"

definition numbered_bytes :: "('k, 'v) join_grace_buffer \<Rightarrow> 'k \<times> 'v \<Rightarrow> bytes \<times> bytes" where
  "numbered_bytes s = (\<lambda>(k, v). (sd_ser (jgb_key_serde s) (jgb_changelog_topic s) k, sd_ser (jgb_value_serde s) (jgb_changelog_topic s) v))"

definition buffers :: "('k, 'v) join_grace_buffer \<Rightarrow> ('k, 'v) numbered list \<Rightarrow> (int \<times> nat, bytes \<times> bytes) btree \<Rightarrow> bool" where
  "buffers s0 A m \<longleftrightarrow> (\<forall>x e. map_of m x = Some e \<longleftrightarrow> (\<exists>p \<in> set A. numbered_id p = x \<and> e = numbered_bytes s0 (snd (snd p))))"

lemma buffers_get:
  assumes "buffers s0 A m" "p \<in> set A"
  shows "map_of m (numbered_id p) = Some (numbered_bytes s0 (snd (snd p)))"
  using assms(1) [unfolded buffers_def, THEN spec, THEN spec, of "numbered_id p" "numbered_bytes s0 (snd (snd p))"] assms(2)
  by blast

lemma buffers_insert:
  assumes "buffers s0 A m" "\<forall>q \<in> set A. numbered_id q \<noteq> numbered_id p"
  shows "buffers s0 (A @ [p]) (bt_insert (numbered_id p) (numbered_bytes s0 (snd (snd p))) m)"
  using assms unfolding buffers_def by auto

lemma buffers_remove:
  assumes "buffers s0 A m" "bt_ok m" "\<forall>q \<in> set A. numbered_id q = numbered_id p \<longrightarrow> q = p"
  shows "buffers s0 (filter (\<lambda>q. q \<noteq> p) A) (bt_remove (numbered_id p) m)"
proof -
  have "map_of (bt_remove (numbered_id p) m) x = Some e \<longleftrightarrow> x \<noteq> numbered_id p \<and> map_of m x = Some e" for x e
    by simp
  moreover have "(\<exists>q \<in> set (filter (\<lambda>q. q \<noteq> p) A). numbered_id q = x \<and> e = numbered_bytes s0 (snd (snd q))) \<longleftrightarrow>
      x \<noteq> numbered_id p \<and> (\<exists>q \<in> set A. numbered_id q = x \<and> e = numbered_bytes s0 (snd (snd q)))" for x e
    using assms(3) by (auto simp del: split_paired_Ex)
  ultimately show ?thesis
    using assms(1) unfolding buffers_def by (simp del: split_paired_All)
qed

definition jgb_inv :: "('k \<Rightarrow> bool) \<Rightarrow> ('v \<Rightarrow> bool) \<Rightarrow> ('k, 'v) join_grace_buffer \<Rightarrow> ('k, 'v) numbered list \<Rightarrow> ('k, 'v) join_grace_buffer \<Rightarrow> bool" where
  "jgb_inv vk vv s0 A s \<longleftrightarrow>
     jgb_key_serde s = jgb_key_serde s0 \<and> jgb_value_serde s = jgb_value_serde s0 \<and>
     jgb_changelog_topic s = jgb_changelog_topic s0 \<and> jgb_logging s \<and>
     bt_ok (jgb_buffer s) \<and> sorted_wrt (\<lambda>p q. fst (snd p) < fst (snd q)) A \<and> jgb_seq s \<le> 4294967295 \<and>
     (\<forall>(ts, i, k, v) \<in> set A. in_i64 ts \<and> i < jgb_seq s \<and> vk k \<and> vv v) \<and>
     buffers s0 A (jgb_buffer s) \<and>
     jgb_replay (jgb_changelog s) s0 = Some (s\<lparr>jgb_changelog := []\<rparr>)"

lemma jgb_inv_new: "jgb_inv vk vv (jgb_new n ks vs topic) [] (jgb_new n ks vs topic)"
  by (simp add: jgb_inv_def jgb_new_def buffers_def)

lemma jgb_put_inv:
  assumes inv: "jgb_inv vk vv s0 A s"
    and op: "vk k" "vv v" "in_i64 ts" "length (sd_ser (jgb_key_serde s0) (jgb_changelog_topic s0) k) \<le> u32_max"
    and sq: "jgb_seq s < 4294967295"
  shows "\<exists>s'. jgb_put k v ts s = Some s' \<and> jgb_inv vk vv s0 (A @ [(ts, jgb_seq s, k, v)]) s' \<and> jgb_seq s' = jgb_seq s + 1"
proof -
  note d = inv [unfolded jgb_inv_def]
  let ?kb = "sd_ser (jgb_key_serde s0) (jgb_changelog_topic s0) k" and ?vb = "sd_ser (jgb_value_serde s0) (jgb_changelog_topic s0) v"
  let ?i = "(ts, jgb_seq s)"
  obtain p where p: "encode_payload ?kb ?vb = Some p"
    using op(4) by (simp add: encode_payload_def)
  define s' where "s' = s\<lparr>jgb_seq := jgb_seq s + 1, jgb_changelog := jgb_changelog s @ [(encode_id ?i, Some p)],
    jgb_buffer := bt_insert ?i (?kb, ?vb) (jgb_buffer s)\<rparr>"
  have put: "jgb_put k v ts s = Some s'"
    using d p sq by (simp add: jgb_put_def Let_def s'_def)
  have dec: "decode_id (encode_id ?i) = Some ?i" "decode_payload p = Some (?kb, ?vb)"
    using op(3) sq decode_encode_payload [OF p] by simp_all
  have "jgb_replay (jgb_changelog s') s0 = Some (s'\<lparr>jgb_changelog := []\<rparr>)"
    using d dec sq by (simp add: s'_def jgb_replay_append jgb_apply_changelog_def Let_def)
  moreover have "\<forall>q \<in> set A. numbered_id q \<noteq> numbered_id (ts, jgb_seq s, k, v)"
    using d by (fastforce simp: numbered_id_def)
  then have "buffers s0 (A @ [(ts, jgb_seq s, k, v)]) (jgb_buffer s')"
    using buffers_insert [of s0 A "jgb_buffer s" "(ts, jgb_seq s, k, v)"] d
    by (simp add: s'_def numbered_id_def numbered_bytes_def)
  moreover have "sorted_wrt (\<lambda>p q. fst (snd p) < fst (snd q)) (A @ [(ts, jgb_seq s, k, v)])"
    using d by (auto simp: sorted_wrt_append)
  ultimately have "jgb_inv vk vv s0 (A @ [(ts, jgb_seq s, k, v)]) s'"
    using d op sq unfolding jgb_inv_def by (auto simp: s'_def)
  then show ?thesis
    using put by (auto simp: s'_def)
qed

lemma jgb_inv_same_id:
  assumes "jgb_inv vk vv s0 A s" "p \<in> set A" "q \<in> set A" "numbered_id q = numbered_id p"
  shows "q = p"
proof -
  have "sorted_wrt (\<lambda>p q. fst (snd p) < fst (snd q)) A"
    using assms(1) by (simp add: jgb_inv_def)
  then show ?thesis
    using assms(2-4) by (induction A) (auto simp: numbered_id_def)
qed

text \<open>Draining one buffered record returns it and drops it from the arrival list.\<close>

lemma drain_one_inv:
  assumes S: "serde_contract (jgb_key_serde s0) vk" "serde_contract (jgb_value_serde s0) vv"
    and inv: "jgb_inv vk vv s0 A s" and p: "p \<in> set A"
  shows "\<exists>s'. (\<forall>ids. drain_ids (numbered_id p # ids) s =
      map_option (\<lambda>(out, s''). (numbered_record p # out, s'')) (drain_ids ids s')) \<and>
    jgb_inv vk vv s0 (filter (\<lambda>q. q \<noteq> p) A) s' \<and> jgb_seq s' = jgb_seq s"
proof -
  note d = inv [unfolded jgb_inv_def]
  obtain ts i k v where pe: "p = (ts, i, k, v)"
    by (cases p)
  have val: "in_i64 ts" "i < jgb_seq s" "vk k" "vv v"
    using d p pe by auto
  define s' where "s' = s\<lparr>jgb_buffer := bt_remove (ts, i) (jgb_buffer s), jgb_changelog := jgb_changelog s @ [(encode_id (ts, i), None)]\<rparr>"
  have "map_of (jgb_buffer s) (numbered_id p) = Some (numbered_bytes s0 (k, v))"
    using buffers_get [OF _ p] d pe by simp
  then have step: "drain_ids (numbered_id p # ids) s =
      map_option (\<lambda>(out, s''). (numbered_record p # out, s'')) (drain_ids ids s')" for ids
    using d pe val serde_contract.roundtrip [OF S(1)] serde_contract.roundtrip [OF S(2)]
    by (cases "drain_ids ids s'") (auto simp: numbered_id_def numbered_record_def numbered_bytes_def s'_def Let_def)
  have "buffers s0 (filter (\<lambda>q. q \<noteq> p) A) (jgb_buffer s')"
    using buffers_remove [of s0 A "jgb_buffer s" p] d jgb_inv_same_id [OF inv p] pe by (auto simp: s'_def numbered_id_def)
  moreover have "decode_id (encode_id (ts, i)) = Some (ts, i)"
    using val d by simp
  then have "jgb_replay (jgb_changelog s') s0 = Some (s'\<lparr>jgb_changelog := []\<rparr>)"
    using d val by (simp add: s'_def jgb_replay_append jgb_apply_changelog_def Let_def max_absorb1)
  ultimately have "jgb_inv vk vv s0 (filter (\<lambda>q. q \<noteq> p) A) s'"
    using d unfolding jgb_inv_def by (auto simp: s'_def sorted_wrt_filter)
  moreover have "jgb_seq s' = jgb_seq s"
    by (simp add: s'_def)
  ultimately show ?thesis
    using step by blast
qed

lemma drain_ids_inv:
  assumes S: "serde_contract (jgb_key_serde s0) vk" "serde_contract (jgb_value_serde s0) vv"
    and "jgb_inv vk vv s0 A s" "set B \<subseteq> set A" "distinct B"
  shows "\<exists>s'. drain_ids (map numbered_id B) s = Some (map numbered_record B, s') \<and>
      jgb_inv vk vv s0 (filter (\<lambda>q. q \<notin> set B) A) s' \<and> jgb_seq s' = jgb_seq s"
  using assms(3-)
proof (induction B arbitrary: A s)
  case (Cons p B)
  have p: "p \<in> set A" and B: "set B \<subseteq> set (filter (\<lambda>q. q \<noteq> p) A)" "distinct B"
    using Cons.prems(2,3) by auto
  obtain s1 where s1: "\<forall>ids. drain_ids (numbered_id p # ids) s =
      map_option (\<lambda>(out, s''). (numbered_record p # out, s'')) (drain_ids ids s1)"
      "jgb_inv vk vv s0 (filter (\<lambda>q. q \<noteq> p) A) s1" "jgb_seq s1 = jgb_seq s"
    using drain_one_inv [OF S Cons.prems(1) p] by blast
  obtain s2 where s2: "drain_ids (map numbered_id B) s1 = Some (map numbered_record B, s2)"
      "jgb_inv vk vv s0 (filter (\<lambda>q. q \<notin> set B) (filter (\<lambda>q. q \<noteq> p) A)) s2" "jgb_seq s2 = jgb_seq s1"
    using Cons.IH [OF s1(2) B] by blast
  have "filter (\<lambda>q. q \<notin> set B) (filter (\<lambda>q. q \<noteq> p) A) = filter (\<lambda>q. q \<notin> set (p # B)) A"
    by (simp add: conj_commute)
  then show ?case
    using s1(1) [THEN spec, of "map numbered_id B"] s1(3) s2 by (simp del: drain_ids.simps)
qed simp

text \<open>The ids a drain visits are the ids of the due records, sorted by timestamp and then by arrival.\<close>

lemma due_ids:
  assumes inv: "jgb_inv vk vv s0 A s"
  shows "map fst (filter (\<lambda>(i, _). i \<le> (threshold, u32_max)) (jgb_buffer s)) =
    map numbered_id (sort_key fst (filter (\<lambda>p. fst p \<le> threshold) A))"
proof (rule sorted_wrt_unique [where h = id])
  note d = inv [unfolded jgb_inv_def]
  let ?due = "sort_key fst (filter (\<lambda>p. fst p \<le> threshold) A)"
  have "sorted_wrt (\<lambda>p q. (fst p, fst (snd p)) < (fst q, fst (snd q))) ?due"
    using d by (intro sort_key_lex sorted_wrt_filter) simp
  then show "sorted_wrt (\<lambda>p q. id p < id q) (map numbered_id ?due)"
    by (simp add: sorted_wrt_map numbered_id_def)
  have "sorted_wrt (<) (map fst (jgb_buffer s))"
    using d by (simp add: bt_ok_def)
  then show "sorted_wrt (\<lambda>p q. id p < id q) (map fst (filter (\<lambda>(i, _). i \<le> (threshold, u32_max)) (jgb_buffer s)))"
    by (simp add: sorted_wrt_map sorted_wrt_filter)
  have dom: "fst ` set (jgb_buffer s) = numbered_id ` set A"
  proof (intro set_eqI iffI)
    fix x assume "x \<in> fst ` set (jgb_buffer s)"
    then obtain e where "map_of (jgb_buffer s) x = Some e"
      by (metis domD dom_map_of_conv_image_fst)
    then show "x \<in> numbered_id ` set A"
      using d unfolding buffers_def by (metis image_eqI)
  next
    fix x assume "x \<in> numbered_id ` set A"
    then show "x \<in> fst ` set (jgb_buffer s)"
      using buffers_get d by (metis (no_types, lifting) domI dom_map_of_conv_image_fst imageE)
  qed
  have small: "numbered_id p \<le> (threshold, u32_max) \<longleftrightarrow> fst p \<le> threshold" if "p \<in> set A" for p
    using d that by (force simp: numbered_id_def)
  have "set (map fst (filter (\<lambda>(i, _). i \<le> (threshold, u32_max)) (jgb_buffer s))) = {i \<in> fst ` set (jgb_buffer s). i \<le> (threshold, u32_max)}"
    by force
  also have "\<dots> = set (map numbered_id ?due)"
    unfolding dom using small by auto
  finally show "set (map fst (filter (\<lambda>(i, _). i \<le> (threshold, u32_max)) (jgb_buffer s))) = set (map numbered_id ?due)" .
qed

lemma jgb_drain_inv:
  assumes S: "serde_contract (jgb_key_serde s0) vk" "serde_contract (jgb_value_serde s0) vv"
    and inv: "jgb_inv vk vv s0 A s"
  shows "\<exists>s'. jgb_drain_due threshold s = Some (map numbered_record (sort_key fst (filter (\<lambda>p. fst p \<le> threshold) A)), s') \<and>
      jgb_inv vk vv s0 (filter (\<lambda>p. threshold < fst p) A) s' \<and> jgb_seq s' = jgb_seq s"
proof -
  let ?due = "sort_key fst (filter (\<lambda>p. fst p \<le> threshold) A)"
  have "sorted_wrt (\<lambda>p q. fst (snd p) < fst (snd q)) A"
    using inv by (simp add: jgb_inv_def)
  then have "distinct A"
    by (induction A) auto
  moreover have "filter (\<lambda>q. q \<notin> set ?due) A = filter (\<lambda>p. threshold < fst p) A"
    by (rule filter_cong) auto
  ultimately show ?thesis
    using drain_ids_inv [OF S inv, of ?due] unfolding jgb_drain_due_def due_ids [OF inv] by auto
qed

fun grace_op_ok :: "('k \<Rightarrow> bool) \<Rightarrow> ('v \<Rightarrow> bool) \<Rightarrow> ('k \<Rightarrow> bytes) \<Rightarrow> ('k, 'v) grace_op \<Rightarrow> bool" where
  "grace_op_ok vk vv ser (GPut k v ts) \<longleftrightarrow> vk k \<and> vv v \<and> in_i64 ts \<and> length (ser k) \<le> u32_max"
| "grace_op_ok vk vv ser (GDrain threshold) \<longleftrightarrow> True"

lemma jgb_run_inv:
  assumes S: "serde_contract (jgb_key_serde s0) vk" "serde_contract (jgb_value_serde s0) vv"
    and "jgb_inv vk vv s0 A s"
    and "\<forall>oper \<in> set ops. grace_op_ok vk vv (sd_ser (jgb_key_serde s0) (jgb_changelog_topic s0)) oper"
    and "jgb_seq s + length ops \<le> 4294967295"
  shows "\<exists>A' s'. jgb_run ops s = Some (fst (grace_spec ops (map numbered_record A)), s') \<and>
     jgb_inv vk vv s0 A' s' \<and> map numbered_record A' = snd (grace_spec ops (map numbered_record A))"
  using assms(3-)
proof (induction ops arbitrary: A s)
  case (Cons oper ops)
  show ?case
  proof (cases oper)
    case (GPut k v ts)
    then obtain s1 where s1: "jgb_put k v ts s = Some s1" "jgb_inv vk vv s0 (A @ [(ts, jgb_seq s, k, v)]) s1" "jgb_seq s1 = jgb_seq s + 1"
      using jgb_put_inv [OF Cons.prems(1), of k v ts] Cons.prems(2,3) by auto
    then show ?thesis
      using Cons.IH [OF s1(2)] Cons.prems(2,3) GPut by (simp add: numbered_record_def)
  next
    case (GDrain threshold)
    let ?f = "\<lambda>p. threshold < fst p"
    obtain s1 where s1: "jgb_drain_due threshold s = Some (map numbered_record (sort_key fst (filter (\<lambda>p. fst p \<le> threshold) A)), s1)"
        "jgb_inv vk vv s0 (filter ?f A) s1" "jgb_seq s1 = jgb_seq s"
      using jgb_drain_inv [OF S Cons.prems(1)] by blast
    have out: "map numbered_record (sort_key fst (filter (\<lambda>p. fst p \<le> threshold) A)) =
        sort_key (\<lambda>(k, v, ts). ts) (filter (\<lambda>(k, v, ts). ts \<le> threshold) (map numbered_record A))"
      using map_sort_key [of numbered_record "\<lambda>(k, v, ts). ts" "filter (\<lambda>p. fst p \<le> threshold) A"]
      by (simp add: numbered_record_def filter_map comp_def)
    have keep: "map numbered_record (filter ?f A) = filter (\<lambda>(k, v, ts). threshold < ts) (map numbered_record A)"
      by (simp add: numbered_record_def filter_map comp_def)
    show ?thesis
      using Cons.IH [OF s1(2)] Cons.prems(2,3) GDrain s1(1,3) unfolding keep out
      by (auto simp: split_def Let_def)
  qed
qed (use assms in auto)

lemmas jgb_run_fresh = jgb_run_inv [OF _ _ jgb_inv_new]

lemma decode_snapshot_entry_encoded:
  assumes "encode_payload kb vb = Some p" "in_i64 (fst i)" "snd i \<le> u32_max"
  shows "decode_snapshot_entry (encode_id i) p = Inr (i, kb, vb)"
proof -
  have "length p = 4 + length kb + length vb" "u32_of_be (take 4 p) = length kb"
    using assms(1) by (auto simp: encode_payload_def split: if_splits)
  then show ?thesis
    using assms decode_encode_payload [OF assms(1)] by (cases i) (simp add: decode_snapshot_entry_def Let_def)
qed

lemma jgb_restore_entries_encoded:
  assumes "collect_opt (map (\<lambda>(i, kb, vb). map_option (\<lambda>p. (encode_id i, p)) (encode_payload kb vb)) m) = Some es"
    and "\<forall>e \<in> set m. in_i64 (fst (fst e)) \<and> snd (fst e) \<le> u32_max"
  shows "jgb_restore_entries es acc = Inr (foldl (\<lambda>m (k, v). bt_insert k v m) acc m)"
  using assms
proof (induction m arbitrary: es acc)
  case (Cons e m)
  obtain i kb vb where e: "e = (i, kb, vb)"
    by (cases e)
  obtain p es' where "encode_payload kb vb = Some p" "es = (encode_id i, p) # es'"
      "collect_opt (map (\<lambda>(i, kb, vb). map_option (\<lambda>p. (encode_id i, p)) (encode_payload kb vb)) m) = Some es'"
    using Cons.prems(1) e by (auto split: option.splits bind_splits)
  then show ?case
    using Cons.IH Cons.prems(2) e by (simp add: decode_snapshot_entry_encoded)
qed simp

lemma jgb_restore_snapshot_ok:
  assumes "jgb_snapshot s = Some b" "bt_ok (jgb_buffer s)" "jgb_seq s \<le> u32_max"
    and "\<forall>e \<in> set (jgb_buffer s). in_i64 (fst (fst e)) \<and> snd (fst e) \<le> u32_max"
  shows "jgb_restore_snapshot b t = Inr (t\<lparr>jgb_buffer := jgb_buffer s, jgb_seq := jgb_seq s, jgb_changelog := []\<rparr>)"
proof -
  obtain es where es: "collect_opt (map (\<lambda>(i, kb, vb). map_option (\<lambda>p. (encode_id i, p)) (encode_payload kb vb)) (jgb_buffer s)) = Some es"
      "put_byte_entries (put_u32 store_payload (jgb_seq s)) es = Some b"
    using assms(1) by (auto simp: jgb_snapshot_def split: bind_splits)
  obtain e where e: "b = (store_payload @ u32_to_be (jgb_seq s)) @ e" "reads read_byte_entries e es"
    using put_byte_entries_reads [OF es(2)] by (auto simp: put_u32_def)
  have "and_then reader_store_version (\<lambda>_. and_then reader_u32 (\<lambda>seq. and_then read_byte_entries (\<lambda>entries.
        and_then reader_finish (\<lambda>_. ok (seq, entries))))) b = Inr ((jgb_seq s, es), [])"
    using reads_store_version reads_u32 [OF assms(3)] reads_exact [OF e(2)] e(1)
    by (simp add: reads_def and_then_def reader_finish_def ok_def)
  moreover have "jgb_restore_entries es [] = Inr (jgb_buffer s)"
    using jgb_restore_entries_encoded [OF es(1) assms(4)] bt_of_list_id [OF assms(2)] by (simp add: bt_of_list_def)
  ultimately show ?thesis
    by (simp add: jgb_restore_snapshot_def)
qed

text \<open>C27: The grace buffer of the stream-table join is the list of its records in order of arrival.  On a fresh buffer,
  any sequence of fewer than \<open>2 ^ 32\<close> puts and drains runs without a panic, and every drain returns exactly the
  buffered records with a timestamp at or below the threshold, by timestamp and then in order of arrival, and
  leaves the others.\<close>

theorem join_grace_buffer_refines_arrivals:
  assumes "serde_contract ks vk" "serde_contract vs vv"
    and "\<forall>oper \<in> set ops. grace_op_ok vk vv (sd_ser ks topic) oper" "length ops \<le> 4294967295"
  shows "map_option fst (jgb_run ops (jgb_new n ks vs topic)) = Some (fst (grace_spec ops []))"
  using jgb_run_fresh [of n ks vs topic vk vv ops] assms by (auto simp: jgb_new_def)

abbreviation grace_sample_ops :: "(string, int) grace_op list" where
  "grace_sample_ops \<equiv> [GPut ''a'' 1 20, GPut ''b'' 2 10, GPut ''c'' 3 20, GDrain 15, GPut ''d'' 4 5, GDrain 30]"

lemma grace_sample_ok:
  "\<forall>oper \<in> set grace_sample_ops. grace_op_ok (\<lambda>s. utf8_valid (str_bytes s)) in_i64 (sd_ser StringSerde ''t'') oper"
  by (simp add: in_i64_def StringSerde_def str_bytes_def)

lemma join_grace_buffer_refines_arrivals_witness:
  "map_option fst (jgb_run grace_sample_ops (jgb_new ''g'' StringSerde I64Serde ''t'')) =
    Some [[(''b'', 2, 10)], [(''d'', 4, 5), (''a'', 1, 20), (''c'', 3, 20)]]"
proof -
  have "map_option fst (jgb_run grace_sample_ops (jgb_new ''g'' StringSerde I64Serde ''t'')) = Some (fst (grace_spec grace_sample_ops []))"
    by (rule join_grace_buffer_refines_arrivals [OF string_serde.serde_contract_axioms i64_serde.serde_contract_axioms
          grace_sample_ok]) simp
  moreover have "fst (grace_spec grace_sample_ops []) = [[(''b'', 2, 10)], [(''d'', 4, 5), (''a'', 1, 20), (''c'', 3, 20)]]"
    by simp
  ultimately show ?thesis
    by (simp only:)
qed

text \<open>C28: Both ways of recovering the grace buffer give back the buffer: after any run on a fresh buffer, replaying its
  changelog into a fresh buffer, and restoring its snapshot into a fresh buffer, produce the same buffered
  records under the same ids and the same running number.\<close>

theorem join_grace_buffer_recovers:
  assumes "serde_contract ks vk" "serde_contract vs vv"
    and "\<forall>oper \<in> set ops. grace_op_ok vk vv (sd_ser ks topic) oper" "length ops \<le> 4294967295"
    and "fresh = jgb_new n ks vs topic" "jgb_run ops fresh = Some (outs, s)"
  shows "jgb_replay (jgb_changelog s) fresh = Some (s\<lparr>jgb_changelog := []\<rparr>) \<and>
    (\<forall>b. jgb_snapshot s = Some b \<longrightarrow>
       jgb_restore_snapshot b fresh = Inr (fresh\<lparr>jgb_buffer := jgb_buffer s, jgb_seq := jgb_seq s\<rparr>))"
proof -
  obtain A where inv: "jgb_inv vk vv fresh A s"
    using jgb_run_fresh [of n ks vs topic vk vv ops] assms by (auto simp: jgb_new_def)
  note d = inv [unfolded jgb_inv_def]
  have "in_i64 (fst (fst e)) \<and> snd (fst e) \<le> u32_max" if "e \<in> set (jgb_buffer s)" for e
  proof -
    have "map_of (jgb_buffer s) (fst e) = Some (snd e)"
      by (cases e) (use that d in \<open>simp add: bt_ok_distinct\<close>)
    then obtain p where p: "p \<in> set A" "numbered_id p = fst e"
      using d unfolding buffers_def by metis
    have "in_i64 (fst p) \<and> fst (snd p) < jgb_seq s" "jgb_seq s \<le> u32_max"
      using d p(1) by auto
    then show ?thesis
      using p(2) by (simp add: numbered_id_def prod_eq_iff [of "(fst p, fst (snd p))"])
  qed
  then have "jgb_restore_snapshot b fresh = Inr (fresh\<lparr>jgb_buffer := jgb_buffer s, jgb_seq := jgb_seq s, jgb_changelog := []\<rparr>)"
    if "jgb_snapshot s = Some b" for b
    using d by (intro jgb_restore_snapshot_ok [OF that]) auto
  then show ?thesis
    using d assms(5) by (simp add: jgb_new_def)
qed

lemma join_grace_buffer_recovers_witness:
  "\<exists>outs s. jgb_run grace_sample_ops (jgb_new ''g'' StringSerde I64Serde ''t'') = Some (outs, s) \<and>
     jgb_replay (jgb_changelog s) (jgb_new ''g'' StringSerde I64Serde ''t'') = Some (s\<lparr>jgb_changelog := []\<rparr>)"
proof -
  let ?fresh = "jgb_new ''g'' StringSerde I64Serde ''t''"
  obtain outs s where r: "jgb_run grace_sample_ops ?fresh = Some (outs, s)"
    using jgb_run_fresh [of "''g''" StringSerde I64Serde "''t''" "\<lambda>s. utf8_valid (str_bytes s)" in_i64 grace_sample_ops]
      string_serde.serde_contract_axioms i64_serde.serde_contract_axioms grace_sample_ok by (auto simp: jgb_new_def)
  then show ?thesis
    using join_grace_buffer_recovers [OF string_serde.serde_contract_axioms i64_serde.serde_contract_axioms
        grace_sample_ok _ refl r] by auto
qed

end
