(* ===== verification/Spec2Isabelle.thy ===== *)
theory Spec2Isabelle
  imports Session_Aggregate Window_Aggregate Processor_Graph Suppress_Processor Versioned_Store Join_Stores
begin

text \<open>
  Verification of the stream-processing client \<^verbatim>\<open>krabka-client-streams\<close>.  All paths are relative to
  \<^verbatim>\<open>src/crates/client-streams/src\<close>.

  \<^bold>\<open>The program.\<close>  An application is a graph of processors.  Records of the input topics are deserialized and
  pushed through the graph; stateful processors read and write named state stores; every store logs its writes
  to a changelog topic from which it is rebuilt, can sit behind a write-back record cache that forwards one
  deduplicated change per key on a flush, and can be written to and read back from a snapshot.

  \<^bold>\<open>Shared vocabulary.\<close>  \<^verbatim>\<open>Rust_Prelude\<close>: bytes are 8-bit words, an \<^verbatim>\<open>i64\<close> is an integer with its range written
  out (\<open>checked_i64\<close> for the arithmetic that panics on overflow, \<open>sat_add\<close> and \<open>sat_sub\<close> for the saturating one),
  big-endian encodings, UTF-8 and decimal printing.  \<^verbatim>\<open>BTree_Map\<close>: \<^verbatim>\<open>std::collections::BTreeMap\<close> as a strictly
  sorted association list.  A panic is the value \<open>None\<close>, an \<^verbatim>\<open>Err\<close> the left side of a sum.  \<^verbatim>\<open>async\<close> is erased: every
  store call is awaited where it stands, so the order of effects is the order of the text.  Time extents are
  whole milliseconds.

  \<^bold>\<open>Serdes\<close> (\<^verbatim>\<open>Serdes\<close>: \<^verbatim>\<open>processor/serde.rs\<close>).  A serde is a record of its two methods; the locale
  \<open>serde_contract\<close> states what the stores rely on (decoding inverts encoding, encoding is injective on valid
  values), and is interpreted for the built-in serdes and for the windowed key serdes.  The properties of typed
  stores take it as a hypothesis for the serdes of the user.

  \<^bold>\<open>Snapshot codec\<close> (\<^verbatim>\<open>Snapshot_Codec\<close>: \<^verbatim>\<open>store/snapshot.rs\<close>).  The reader every decoder is written with, the
  container and payload formats, the file names.  The container round-trips and rejects every strict prefix and
  every extension; a file name stays inside its directory.

  \<^bold>\<open>Byte stores and caching\<close> (\<^verbatim>\<open>Byte_Store\<close>, \<^verbatim>\<open>Record_Cache\<close>, \<^verbatim>\<open>Caching_Store\<close>: \<^verbatim>\<open>store/byte.rs\<close>, \<^verbatim>\<open>store/cache/\<close>).  The
  locale \<open>byte_kv\<close> is the contract of \<^verbatim>\<open>ByteKeyValueStore\<close>; it is interpreted for the in-memory store, for the
  caching store and for the plain-or-cached backing of the key-value store.  The doubly linked LRU list of
  \<^verbatim>\<open>NamedCache\<close> refines a list specification and never panics; \<^verbatim>\<open>maybe_evict\<close> terminates within its budget; the
  caching store answers as the plain one and reports every changed key once per flush.

  \<^bold>\<open>Typed stores\<close> (\<^verbatim>\<open>Key_Schemas\<close>, \<^verbatim>\<open>Kv_Store\<close>, \<^verbatim>\<open>Typed_Scan\<close>, \<^verbatim>\<open>Window_Store\<close>, \<^verbatim>\<open>Session_Store\<close>, \<^verbatim>\<open>Versioned_Store\<close>,
  \<^verbatim>\<open>Join_Stores\<close>: the files of \<^verbatim>\<open>store/\<close> of the same names).  Each store refines a map (the versioned store: the
  history of its timely writes; the join buffers: the list of arrivals) over every sequence of operations, cached or not;
  its range reads return exactly the requested entries in order; replaying its changelog, or restoring its
  snapshot, rebuilds it; the changes it forwards add up to its contents.

  \<^bold>\<open>Windows and aggregation\<close> (\<^verbatim>\<open>Windows\<close>, \<^verbatim>\<open>Processor_Api\<close>, \<^verbatim>\<open>Window_Aggregate\<close>, \<^verbatim>\<open>Session_Aggregate\<close>: \<^verbatim>\<open>dsl/windows.rs\<close>,
  \<^verbatim>\<open>dsl/emit.rs\<close>, \<^verbatim>\<open>dsl/processors/\<close>).  A processor is a record of its configuration and mutable fields, and
  its \<^verbatim>\<open>process\<close> a function of the record, the processor and the store; \<open>proc_run\<close> feeds it a list of records.
  \<^verbatim>\<open>windows_for\<close> lists exactly the windows of an instant.  The window aggregators hold for every window the fold
  of the records admitted to it, and emit-final forwards every window that ended before the close time once; the session
  aggregators hold the clusters of the admitted records.

  \<^bold>\<open>Suppression\<close> (\<^verbatim>\<open>Suppress_Store\<close>, \<^verbatim>\<open>Suppress_Processor\<close>: \<^verbatim>\<open>store/suppress_store.rs\<close>, \<^verbatim>\<open>store/suppress_bufval.rs\<close>,
  \<^verbatim>\<open>dsl/suppress.rs\<close>, \<^verbatim>\<open>dsl/processors/suppress.rs\<close>).  The buffer is a queue by buffer time and arrival with one entry per
  key, and changelog replay and snapshot restore give it back.  Until-window-closes forwards nothing for an open
  window and the last change of a closed one; with emit-early the buffer stays inside its caps.

  \<^bold>\<open>The processor graph\<close> (\<^verbatim>\<open>Processor_Graph\<close>: \<^verbatim>\<open>processor/graph.rs\<close>, \<^verbatim>\<open>node.rs\<close>, \<^verbatim>\<open>erased.rs\<close>, \<^verbatim>\<open>punctuation.rs\<close>, \<^verbatim>\<open>api.rs\<close>).
  The erased driver: records queue in a buffer, each node downcasts what it takes and its user code, a
  parameter, forwards to its children.  On a graph wired as the typed builder wires it (\<open>graph_ok\<close>) the buffer
  always drains, no downcast fails, the only error is an undecodable input, and a punctuation pass fires every due
  schedule once, keeps every live one and leaves none due.  The locale \<open>state_store_contract\<close> states what the graph relies on when it snapshots and restores
  its stores; it is interpreted for the key-value store, and the snapshot of a whole task restores every store
  (\<open>task_snapshot_restores_stores\<close> below, over the container codec and the graph).

  \<^bold>\<open>Bounds.\<close>  Loops are structural recursion or functions with a termination proof; no definition takes fuel.  The buffer loop
  \<open>drain\<close> is a partial function, shown to return by the multiset order on the pending node indices.
  Sequence counters and byte totals of the record cache and the suppression buffer are natural numbers, where the source
  has \<^verbatim>\<open>u64\<close> and \<^verbatim>\<open>usize\<close>; byte budgets and caps are exact, where the source's \<^verbatim>\<open>ByteSize\<close> is exact up to \<^verbatim>\<open>2^53\<close>; a positive
  time extent below one millisecond is outside the model.
  The properties of the window and session processors assume record timestamps for which the window
  arithmetic stays inside \<^verbatim>\<open>i64\<close>; the overflow panics outside of it are branches of the definitions.

  \<^bold>\<open>Not modelled.\<close>  Broker and file input and output, channels and tasks of the asynchronous runtime
  (\<^verbatim>\<open>runtime/\<close>, \<^verbatim>\<open>membership/\<close>), the fluent builders of \<^verbatim>\<open>dsl/\<close> and \<^verbatim>\<open>topology/\<close>, the columnar path over the Arrow and
  Polars crates (\<^verbatim>\<open>columnar/\<close>), the SQL back end (\<^verbatim>\<open>store/turso.rs\<close>), and the schema-registry serdes.
\<close>

section \<open>A barrier snapshot restores the whole task\<close>

text \<open>C9: A task comes back from its barrier snapshot.  The snapshot of all state stores of a graph, written to the
  container format, read back and restored into another instance of the same graph, whatever that instance's
  stores held before, decodes without an error and leaves every store with the content it had at the cut.\<close>

theorem task_snapshot_restores_stores:
  assumes contract: "state_store_contract ops store_ok content"
    and g: "registry_ok ops store_ok (g_stores g)" "\<forall>n \<in> fst ` set (g_stores g). utf8_valid (str_bytes n)"
    and snap: "snapshot_stores ops g = Some snap" "encode_snapshot snap = Some bytes"
    and g0: "registry_ok ops store_ok (g_stores g0)" "fst ` set (g_stores g0) = fst ` set (g_stores g)"
  shows "\<exists>snap' g'. decode_snapshot bytes = Inr snap' \<and> restore_store_snapshots ops snap' g0 = (None, g') \<and>
    (\<forall>n s. map_of (g_stores g) n = Some s \<longrightarrow> (\<exists>s'. map_of (g_stores g') n = Some s' \<and> content s' = content s))"
proof -
  have "bt_ok snap" "fst ` set snap = fst ` set (g_stores g)"
    and restore: "\<exists>g'. restore_store_snapshots ops snap g0 = (None, g') \<and>
      (\<forall>n s. map_of (g_stores g) n = Some s \<longrightarrow> (\<exists>s'. map_of (g_stores g') n = Some s' \<and> content s' = content s))"
    using state_store_contract.restore_snapshot_stores [OF contract g(1) snap(1) g0] by blast+
  then have "decode_snapshot bytes = Inr snap"
    using g(2) snap(2) by (intro decode_encode_snapshot) auto
  then show ?thesis
    using restore by blast
qed

definition table_graph :: "(string, int) kv_store \<Rightarrow> (string + int change, (string, int) kv_store, unit) graph" where
  "table_graph s =
    \<lparr>g_nodes = [], g_children = [], g_sources = [], g_output = [], g_stores = [(''counts'', s)], g_schedules = [],
     g_stream_time = 0, g_wall_clock = 0, g_cache_owner = [], g_flags = [], g_user = ()\<rparr>"

definition counts_store :: "(string, int) kv_store" where
  "counts_store = kv_fresh False ''counts'' StringSerde I64Serde ''app-counts-changelog''"

lemma counts_store_parts: "kv_name counts_store = ''counts''" "kv_backing counts_store = Plain imb_new"
  by (simp_all add: counts_store_def kv_fresh_def kv_in_memory_def kv_new_def)

lemma counts_store_put:
  "kv_name (kv_put ''a'' 5 counts_store) = ''counts''"
  "kv_backing (kv_put ''a'' 5 counts_store) = Plain (imb_put [97] (i64_to_be 5) imb_new)"
  by (simp_all add: kv_put_def counts_store_parts Let_def)
    (simp_all add: counts_store_def kv_fresh_def kv_in_memory_def kv_new_def StringSerde_def I64Serde_def str_bytes_def)

lemma task_snapshot_restores_stores_witness:
  "\<exists>snap bytes snap' g' s'. snapshot_stores (kv_store_ops ''String'' ''Change<i64>'') (table_graph (kv_put ''a'' 5 counts_store)) = Some snap \<and>
    encode_snapshot snap = Some bytes \<and> decode_snapshot bytes = Inr snap' \<and>
    restore_store_snapshots (kv_store_ops ''String'' ''Change<i64>'') snap' (table_graph counts_store) = (None, g') \<and>
    map_of (g_stores g') ''counts'' = Some s' \<and> backing_view (kv_backing s') [97] = Some (i64_to_be 5)"
proof -
  let ?g = "table_graph (kv_put ''a'' 5 counts_store)"
  let ?ok = "\<lambda>s. backing_ok (kv_backing s)" and ?content = "\<lambda>s. backing_view (kv_backing s)"
  have ok: "registry_ok (kv_store_ops ''String'' ''Change<i64>'') ?ok (g_stores ?g)" "registry_ok (kv_store_ops ''String'' ''Change<i64>'') ?ok (g_stores (table_graph counts_store))"
    by (simp_all add: registry_ok_def table_graph_def kv_store_ops_def counts_store_parts counts_store_put imb_defs bt_ok_def)
  obtain snap bytes where snap: "snapshot_stores (kv_store_ops ''String'' ''Change<i64>'') ?g = Some snap" "encode_snapshot snap = Some bytes"
  proof -
    have "\<exists>data. encode_byte_entries [([97], i64_to_be 5)] = Some data \<and> length data \<le> u32_max"
      by (simp add: encode_byte_entries_def put_byte_entries_def put_sized_def put_u32_def store_payload_def)
    then obtain data where "encode_byte_entries [([97], i64_to_be 5)] = Some data" "length data \<le> u32_max"
      by blast
    then have "snapshot_stores (kv_store_ops ''String'' ''Change<i64>'') ?g = Some [(''counts'', data)]"
        "\<exists>bytes. encode_snapshot [(''counts'', data)] = Some bytes"
      by (simp_all add: snapshot_stores_def table_graph_def kv_store_ops_def counts_store_put kv_snapshot_def backing_snapshot_def imb_defs
          encode_snapshot_def put_sized_def str_bytes_def)
    then show thesis
      using that by blast
  qed
  obtain snap' g' where "decode_snapshot bytes = Inr snap'" "restore_store_snapshots (kv_store_ops ''String'' ''Change<i64>'') snap' (table_graph counts_store) = (None, g')"
    "\<forall>n s. map_of (g_stores ?g) n = Some s \<longrightarrow> (\<exists>s'. map_of (g_stores g') n = Some s' \<and> ?content s' = ?content s)"
    using task_snapshot_restores_stores [OF kv_state_store.state_store_contract_axioms ok(1) _ snap ok(2)] 
    by (auto simp: table_graph_def str_bytes_def)
  then show ?thesis
    using snap by (force simp: table_graph_def counts_store_put imb_defs)
qed

end
